(* ===== verification/IPXE_Prelude.thy ===== *)
theory IPXE_Prelude
  imports Main "HOL-Library.Word"
begin

text \<open>
  Shared vocabulary of the iPXE development: the machine types of the x86\_64 EFI build,
  the error numbers the modelled functions return, byte-buffer access with explicit
  out-of-range results, and the generic facts on words, lists and buffers that carry the
  component proofs.

  Every integer of the C code is a word of its width; \<open>unat\<close> reads it as an unsigned
  value and \<open>sint\<close> as a two's complement one.  A pointer is an address of type
  \<open>u64\<close>, a \<^verbatim>\<open>size_t\<close> or an \<^verbatim>\<open>unsigned long\<close> is a \<open>u64\<close> and an
  \<^verbatim>\<open>unsigned int\<close> is a \<open>u32\<close>.
\<close>

unbundle bit_operations_syntax

type_synonym u8 = "8 word"
type_synonym u16 = "16 word"
type_synonym u32 = "32 word"
type_synonym u64 = "64 word"

type_synonym bytes = "u8 list"
type_synonym memory = "u64 \<Rightarrow> u8"

text \<open>
  The error numbers returned (negated) by the modelled functions.  \<open>EFAULT_OOB\<close> is not an
  error number of the program: it marks an access outside the buffer the code was given.
\<close>

datatype errno =
    ENOENT | ENOSPC | ENOTTY | EINVAL | ENOMEM | ENETUNREACH | EADDRINUSE
  | ENOTCONN | ETIMEDOUT | ECONNRESET | ECANCELED | EPROTONOSUPPORT | EAFNOSUPPORT
  | ERANGE | ENOBUFS | EPIPE | EFAULT_OOB

named_theorems wordarith \<open>unsigned readings of word operations under no-overflow conditions\<close>

subsection \<open>Words\<close>

lemma unat_lt64 [simp, intro]: "unat (a :: u64) < 18446744073709551616"
  using unsigned_less [of a, where ?'a = nat] by simp

lemma unat_lt32 [simp, intro]: "unat (a :: u32) < 4294967296"
  using unsigned_less [of a, where ?'a = nat] by simp

lemma unat_lt16 [simp, intro]: "unat (a :: u16) < 65536"
  using unsigned_less [of a, where ?'a = nat] by simp

lemma unat_lt8 [simp, intro]: "unat (a :: u8) < 256"
  using unsigned_less [of a, where ?'a = nat] by simp

lemma unat_add64 [wordarith]:
  "unat a + unat b < 18446744073709551616 \<Longrightarrow> unat (a + b :: u64) = unat a + unat b"
  by (simp add: unat_word_ariths)

lemma unat_sub64 [wordarith]:
  "unat b \<le> unat a \<Longrightarrow> unat (a - b :: u64) = unat a - unat b"
  by (simp add: unat_sub word_le_nat_alt)

lemma uint_small64: "unat (a :: u64) < 9223372036854775808 \<Longrightarrow> uint a < 9223372036854775808"
  by (metis of_nat_less_iff of_nat_numeral uint_nat)

lemma sint_small64: "unat a < 9223372036854775808 \<Longrightarrow> sint (a :: u64) = uint a"
proof -
  assume "unat a < 9223372036854775808"
  then have "- 9223372036854775808 \<le> uint a" "uint a < 9223372036854775808"
    using uint_small64 [of a] uint_ge_0 [of a] by linarith+
  then show ?thesis
    by (simp only: sint_uint signed_take_bit_int_eq_self_iff) simp
qed

text \<open>The signed value of a difference of two addresses in the lower half of the space.\<close>

lemma sint_diff64:
  fixes a b :: u64
  assumes "unat a < 9223372036854775808" "unat b < 9223372036854775808"
  shows "sint (a - b) = int (unat a) - int (unat b)"
proof -
  have "- 9223372036854775808 \<le> uint a - uint b" "uint a - uint b < 9223372036854775808"
    using assms [THEN uint_small64] uint_ge_0 [of a] uint_ge_0 [of b] by linarith+
  then show ?thesis
    using assms by (simp add: sint_word_diff sint_small64 signed_take_bit_int_eq_self)
qed

text \<open>Masks: the low bits of a word are a remainder, the high bits what is left.\<close>

lemma unat_and_mask: "unat (x AND mask n) = unat (x :: 'a::len word) mod 2 ^ n"
  by (metis take_bit_eq_mask unsigned_take_bit_eq take_bit_eq_mod)

lemma and_not_plus_and: "(x AND NOT m) + (x AND m) = (x :: 'a::len word)"
proof -
  have "(x AND NOT m) AND (x AND m) = 0" "(x AND NOT m) OR (x AND m) = x"
    by (auto intro!: bit_eqI simp: bit_simps)
  then show ?thesis by (simp add: disjunctive_add_eq_or)
qed

lemma unat_and_not_mask:
  "unat (x AND NOT (mask n)) = unat (x :: 'a::len word) - unat x mod 2 ^ n"
proof -
  have "x AND NOT (mask n) = x - (x AND mask n)"
    by (metis and_not_plus_and add_diff_cancel_right')
  moreover have "x AND mask n \<le> x"
    by (simp add: word_le_nat_alt unat_and_mask)
  ultimately show ?thesis
    by (simp add: unat_sub unat_and_mask)
qed

lemma and_mask_diff_aligned: "((x AND mask n) - x) AND mask n = (0 :: 'a::len word)"
  by (metis cancel_comm_monoid_add_class.diff_cancel mask_eqs(3) take_bit_eq_mask take_bit_of_0)

lemma mask_or_mask: "mask m OR mask n = (mask (max m n) :: 'a::len word)"
  by (rule bit_eqI) (auto simp: bit_simps)

lemma and_mask_le:
  assumes "n \<le> m" "x AND mask m = (0 :: 'a::len word)"
  shows "x AND mask n = 0"
proof -
  have "mask m AND mask n = (mask n :: 'a word)"
    using assms(1) by (intro bit_eqI) (auto simp: bit_simps)
  then have "x AND mask n = (x AND mask m) AND mask n"
    by (simp add: and.assoc)
  with assms(2) show ?thesis by simp
qed

lemma unat8_eq:
  "unat (t :: u8) = 255 \<longleftrightarrow> t = 255" "unat (t :: u8) = 0 \<longleftrightarrow> t = 0"
  using word_unat_eq_iff [of t 255] word_unat_eq_iff [of t 0] by simp_all

lemma unat_of_nat8 [simp]: "n < 256 \<Longrightarrow> unat (of_nat n :: u8) = n"
  by (simp add: unat_of_nat)

lemma of_nat8_special:
  "n < 256 \<Longrightarrow> (of_nat n :: u8) = 255 \<longleftrightarrow> n = 255" "n < 256 \<Longrightarrow> (of_nat n :: u8) = 0 \<longleftrightarrow> n = 0"
  by (simp_all flip: unat8_eq)

subsection \<open>Errors\<close>

definition bind_err :: "'e + 'a \<Rightarrow> ('a \<Rightarrow> 'e + 'b) \<Rightarrow> 'e + 'b" where
  "bind_err x f = (case x of Inl e \<Rightarrow> Inl e | Inr a \<Rightarrow> f a)"

lemma bind_err_simps [simp]:
  "bind_err (Inl e) f = Inl e"
  "bind_err (Inr a) f = f a"
  by (simp_all add: bind_err_def)

lemma bind_err_eq_Inr: "bind_err x f = Inr b \<longleftrightarrow> (\<exists>a. x = Inr a \<and> f a = Inr b)"
  by (cases x) simp_all

subsection \<open>Buffers\<close>

text \<open>
  A buffer is the list of its bytes.  Every access checks its range, since C would read or
  write whatever lies beyond the buffer.
\<close>

definition size_t :: "int \<Rightarrow> nat" where
  "size_t x = nat (x mod 18446744073709551616)"

definition rd :: "'a list \<Rightarrow> nat \<Rightarrow> errno + 'a" where
  "rd d i = (if i < length d then Inr (d ! i) else Inl EFAULT_OOB)"

definition write_list :: "'a list \<Rightarrow> nat \<Rightarrow> 'a list \<Rightarrow> errno + 'a list" where
  "write_list d off src =
     (if src = [] then Inr d
      else if off + length src \<le> length d
      then Inr (take off d @ src @ drop (off + length src) d)
      else Inl EFAULT_OOB)"

definition read_list :: "'a list \<Rightarrow> nat \<Rightarrow> nat \<Rightarrow> errno + 'a list" where
  "read_list d off n =
     (if n = 0 then Inr []
      else if off + n \<le> length d then Inr (take n (drop off d)) else Inl EFAULT_OOB)"

definition memmove_list :: "'a list \<Rightarrow> nat \<Rightarrow> nat \<Rightarrow> nat \<Rightarrow> errno + 'a list" where
  "memmove_list d dest src n = bind_err (read_list d src n) (write_list d dest)"

lemma size_t_of_nat [simp]: "n < 18446744073709551616 \<Longrightarrow> size_t (int n) = n"
  by (simp add: size_t_def)

lemma size_t_nat: "0 \<le> x \<Longrightarrow> x < 18446744073709551616 \<Longrightarrow> size_t x = nat x"
  by (simp add: size_t_def)

lemma rd_Inr [simp]: "i < length d \<Longrightarrow> rd d i = Inr (d ! i)"
  by (simp add: rd_def)

lemma rd_append_Cons [simp]: "rd (xs @ y # ys) (length xs) = Inr y"
  by (simp add: rd_def)

lemma write_list_ok:
  "off + length src \<le> length d \<Longrightarrow> write_list d off src = Inr (take off d @ src @ drop (off + length src) d)"
  by (simp add: write_list_def)

lemma read_list_ok: "off + n \<le> length d \<Longrightarrow> read_list d off n = Inr (take n (drop off d))"
  by (simp add: read_list_def)

end
