(* ===== verification/Malloc.thy ===== *)
theory Malloc
  imports IPXE_Prelude
begin

text \<open>
  The dynamic memory allocator, \<^verbatim>\<open>core/malloc.c\<close>.

  The doubly linked list \<^verbatim>\<open>free_blocks\<close> is a list of \<open>memory_block\<close> records in list
  order; a block's header is kept in its record and not in \<open>mem\<close>, which holds the bytes of
  allocated memory.  The Valgrind annotations are absent from a normal build and are not
  modelled.  Assertions do not change the control flow: a failed one increments
  \<open>assertion_failures\<close>, as the \<^verbatim>\<open>assert()\<close> macro does.  The cache discarders of the other
  subsystems are the parameter \<open>ds\<close>: each is a function on the whole state that returns the
  number of items it discarded.
\<close>

section \<open>Data\<close>

fun fls :: "nat \<Rightarrow> nat" where
  "fls x = (if x = 0 then 0 else Suc (fls (x div 2)))"

text \<open>
  \<^verbatim>\<open>struct memory_block\<close> on x86\_64: an 8-byte size, 4 bytes of padding covering
  \<^verbatim>\<open>refcnt.count\<close>, 4 bytes of alignment and two list pointers.
\<close>

definition sizeof_memory_block :: nat where
  "sizeof_memory_block = 8 + (0 + 4) + 4 + 16"

definition MIN_MEMBLOCK_SIZE :: u64 where
  "MIN_MEMBLOCK_SIZE = push_bit (fls (sizeof_memory_block - 1)) 1"

definition NOWHERE :: u64 where
  "NOWHERE = NOT 0"

definition HEAP_SIZE :: u64 where
  "HEAP_SIZE = 512 * 1024"

text \<open>\<^verbatim>\<open>offsetof ( struct autosized_block, data )\<close>\<close>

definition autosized_data_offset :: u64 where
  "autosized_data_offset = 8"

record memory_block =
  mb_addr :: u64
  mb_size :: u64

record heap_state =
  free_blocks :: "memory_block list"
  freemem :: u64
  usedmem :: u64
  maxusedmem :: u64
  assertion_failures :: u32
  mem :: memory

type_synonym 'a discarder = "'a heap_state_scheme \<Rightarrow> u32 \<times> 'a heap_state_scheme"

definition assert_that :: "bool \<Rightarrow> 'a heap_state_scheme \<Rightarrow> 'a heap_state_scheme" where
  "assert_that c h = (if c then h else h\<lparr>assertion_failures := assertion_failures h + 1\<rparr>)"

text \<open>Physical addresses are virtual addresses in the EFI build.\<close>

definition virt_to_phys :: "u64 \<Rightarrow> u64" where
  "virt_to_phys addr = addr + 0"

section \<open>Memory access\<close>

definition memcpy :: "memory \<Rightarrow> u64 \<Rightarrow> u64 \<Rightarrow> u64 \<Rightarrow> memory" where
  "memcpy m dest src len = (\<lambda>a. if a - dest < len then m (src + (a - dest)) else m a)"

definition memset :: "memory \<Rightarrow> u64 \<Rightarrow> u8 \<Rightarrow> u64 \<Rightarrow> memory" where
  "memset m dest c len = (\<lambda>a. if a - dest < len then c else m a)"

definition store64 :: "memory \<Rightarrow> u64 \<Rightarrow> u64 \<Rightarrow> memory" where
  "store64 m p v = (\<lambda>a. if a - p < 8 then ucast (drop_bit (8 * unat (a - p)) v) else m a)"

definition load64 :: "memory \<Rightarrow> u64 \<Rightarrow> u64" where
  "load64 m p =
     ucast (m p) OR push_bit 8 (ucast (m (p + 1))) OR push_bit 16 (ucast (m (p + 2)))
     OR push_bit 24 (ucast (m (p + 3))) OR push_bit 32 (ucast (m (p + 4)))
     OR push_bit 40 (ucast (m (p + 5))) OR push_bit 48 (ucast (m (p + 6)))
     OR push_bit 56 (ucast (m (p + 7)))"

section \<open>Operations\<close>

fun check_blocks_from ::
  "memory_block option \<Rightarrow> memory_block list \<Rightarrow> 'a heap_state_scheme \<Rightarrow> 'a heap_state_scheme" where
  "check_blocks_from prev [] h = h"
| "check_blocks_from prev (block # rest) h =
     (let h1 = assert_that (of_nat sizeof_memory_block \<le> mb_size block) h;
          h2 = assert_that (MIN_MEMBLOCK_SIZE \<le> mb_size block) h1;
          h3 = assert_that (mb_addr block + mb_size block > mb_addr block) h2;
          h4 = (case prev of
                  None \<Rightarrow> h3
                | Some p \<Rightarrow>
                    assert_that (mb_addr block > mb_addr p + mb_size p)
                      (assert_that (mb_addr block > mb_addr p) h3))
      in check_blocks_from (Some block) rest h4)"

definition check_blocks :: "'a heap_state_scheme \<Rightarrow> 'a heap_state_scheme" where
  "check_blocks h = check_blocks_from None (free_blocks h) h"

fun discard_cache :: "'a discarder list \<Rightarrow> 'a heap_state_scheme \<Rightarrow> u32 \<times> 'a heap_state_scheme" where
  "discard_cache [] h = (0, h)"
| "discard_cache (discard # ds) h =
     (let (discarded, h') = discard h
      in if discarded \<noteq> 0 then (discarded, h') else discard_cache ds h')"

partial_function (option) discard_all_cache ::
  "'a discarder list \<Rightarrow> 'a heap_state_scheme \<Rightarrow> 'a heap_state_scheme option" where
  "discard_all_cache ds h =
     (case discard_cache ds h of
        (discarded, h') \<Rightarrow> if discarded \<noteq> 0 then discard_all_cache ds h' else Some h')"

definition memblock_round :: "u64 \<Rightarrow> u64" where
  "memblock_round sz = (sz + MIN_MEMBLOCK_SIZE - 1) AND NOT (MIN_MEMBLOCK_SIZE - 1)"

text \<open>
  One pass over the free list: the first block with enough space is split into a block
  before, the allocated block and a block after.  The result is the address and the new
  free list, or \<open>None\<close> when no block has enough space.
\<close>

fun alloc_scan :: "u64 \<Rightarrow> u64 \<Rightarrow> u64 \<Rightarrow> memory_block list \<Rightarrow> (u64 \<times> memory_block list) option" where
  "alloc_scan actual_size align_mask offset [] = None"
| "alloc_scan actual_size align_mask offset (block # rest) =
     (let pre_size = (offset - virt_to_phys (mb_addr block)) AND align_mask
      in if mb_size block < pre_size \<or> mb_size block - pre_size < actual_size
         then map_option (\<lambda>(p, bl). (p, block # bl)) (alloc_scan actual_size align_mask offset rest)
         else
           let post_size = mb_size block - pre_size - actual_size;
               ptr = mb_addr block + pre_size;
               post = ptr + actual_size;
               tail = (if post_size \<ge> MIN_MEMBLOCK_SIZE
                       then \<lparr>mb_addr = post, mb_size = post_size\<rparr> # rest else rest)
           in Some (ptr, if pre_size < MIN_MEMBLOCK_SIZE then tail
                         else block\<lparr>mb_size := pre_size\<rparr> # tail))"

partial_function (option) alloc_loop ::
  "'a discarder list \<Rightarrow> u64 \<Rightarrow> u64 \<Rightarrow> u64 \<Rightarrow> 'a heap_state_scheme
   \<Rightarrow> (u64 \<times> 'a heap_state_scheme) option" where
  "alloc_loop ds actual_size align_mask offset h =
     (case alloc_scan actual_size align_mask offset (free_blocks h) of
        Some (ptr, bl) \<Rightarrow>
          (let used = usedmem h + actual_size
           in Some (ptr, h\<lparr>free_blocks := bl, freemem := freemem h - actual_size, usedmem := used,
                           maxusedmem := (if used > maxusedmem h then used else maxusedmem h)\<rparr>))
      | None \<Rightarrow>
          (case discard_cache ds h of
             (discarded, h') \<Rightarrow>
               let h'' = check_blocks h'
               in if discarded = 0 then Some (0, h'')
                  else alloc_loop ds actual_size align_mask offset h''))"

definition alloc_memblock ::
  "'a discarder list \<Rightarrow> u64 \<Rightarrow> u64 \<Rightarrow> u64 \<Rightarrow> 'a heap_state_scheme
   \<Rightarrow> (u64 \<times> 'a heap_state_scheme) option" where
  "alloc_memblock ds sz align offset h =
     (let h1 = assert_that (sz \<noteq> 0) h;
          h2 = assert_that (align = 0 \<or> align AND (align - 1) = 0) h1;
          h3 = check_blocks h2;
          actual_size = memblock_round sz
      in if actual_size = 0 then Some (0, check_blocks h3)
         else
           let h4 = assert_that (actual_size \<ge> sz) h3;
               align_mask = (align - 1) OR (MIN_MEMBLOCK_SIZE - 1)
           in map_option (\<lambda>(ptr, h5). (ptr, check_blocks h5))
                (alloc_loop ds actual_size align_mask offset h4))"

text \<open>The debug-build check that a freed block does not overlap the free list.\<close>

fun check_double_free ::
  "u64 \<Rightarrow> u64 \<Rightarrow> memory_block list \<Rightarrow> 'a heap_state_scheme \<Rightarrow> 'a heap_state_scheme" where
  "check_double_free freeing actual_size [] h = h"
| "check_double_free freeing actual_size (block # rest) h =
     check_double_free freeing actual_size rest
       (assert_that (\<not> (mb_addr block < freeing + actual_size \<and>
                        freeing < mb_addr block + mb_size block)) h)"

text \<open>
  Insertion of the freed block.  \<open>None\<close> stands for the corrupted list that the code would
  build if the freed block appeared both to follow a block and to precede it, which needs a
  block that wraps around the address space.
\<close>

fun free_scan :: "u64 \<Rightarrow> memory_block \<Rightarrow> memory_block list \<Rightarrow> memory_block list option" where
  "free_scan actual_size freeing [] = Some [freeing]"
| "free_scan actual_size freeing (block # rest) =
     (let gap_before = sint (mb_addr freeing - (mb_addr block + mb_size block));
          gap_after = sint (mb_addr block - (mb_addr freeing + mb_size freeing))
      in if gap_before = 0 then
           (if gap_after \<ge> 0 then None
            else free_scan actual_size (block\<lparr>mb_size := mb_size block + actual_size\<rparr>) rest)
         else if gap_after \<ge> 0 then
           (if gap_after = 0
            then Some (freeing\<lparr>mb_size := mb_size freeing + mb_size block\<rparr> # rest)
            else Some (freeing # block # rest))
         else map_option ((#) block) (free_scan actual_size freeing rest))"

definition free_memblock ::
  "u64 \<Rightarrow> u64 \<Rightarrow> 'a heap_state_scheme \<Rightarrow> 'a heap_state_scheme option" where
  "free_memblock ptr sz h =
     (if ptr = 0 then Some h
      else
        let h1 = check_blocks h;
            h2 = assert_that (sz \<noteq> 0) h1;
            actual_size = memblock_round sz;
            h3 = check_double_free ptr actual_size (free_blocks h2) h2
        in map_option
             (\<lambda>bl. check_blocks
                (h3\<lparr>free_blocks := bl, freemem := freemem h3 + actual_size,
                    usedmem := usedmem h3 - actual_size\<rparr>))
             (free_scan actual_size \<lparr>mb_addr = ptr, mb_size = actual_size\<rparr> (free_blocks h3)))"

text \<open>
  \<^verbatim>\<open>realloc()\<close>: the first half allocates the new block (its result is \<open>None\<close> for the
  early returns of NULL), the second copies and frees the old one.
\<close>

definition realloc_new ::
  "'a discarder list \<Rightarrow> u64 \<Rightarrow> 'a heap_state_scheme
   \<Rightarrow> (u64 option \<times> 'a heap_state_scheme) option" where
  "realloc_new ds new_size h =
     (if new_size = 0 then Some (Some NOWHERE, h)
      else
        let new_total_size = new_size + autosized_data_offset
        in if new_total_size < new_size then Some (None, h)
           else map_option
             (\<lambda>(new_block, h1).
                if new_block = 0 then (None, h1)
                else (Some (new_block + autosized_data_offset),
                      h1\<lparr>mem := store64 (mem h1) new_block new_total_size\<rparr>))
             (alloc_memblock ds new_total_size 1 0 h))"

definition realloc ::
  "'a discarder list \<Rightarrow> u64 \<Rightarrow> u64 \<Rightarrow> 'a heap_state_scheme
   \<Rightarrow> (u64 \<times> 'a heap_state_scheme) option" where
  "realloc ds old_ptr new_size h =
     (case realloc_new ds new_size h of
        None \<Rightarrow> None
      | Some (None, h1) \<Rightarrow> Some (0, h1)
      | Some (Some new_ptr, h1) \<Rightarrow>
          (if old_ptr \<noteq> 0 \<and> old_ptr \<noteq> NOWHERE then
             let old_block = old_ptr - autosized_data_offset;
                 old_total_size = load64 (mem h1) old_block;
                 h2 = assert_that (old_total_size \<noteq> 0) h1;
                 old_size = old_total_size - autosized_data_offset;
                 h3 = h2\<lparr>mem := memcpy (mem h2) new_ptr old_ptr
                                  (if old_size < new_size then old_size else new_size)\<rparr>
             in map_option (\<lambda>h4. (new_ptr, h4)) (free_memblock old_block old_total_size h3)
           else Some (new_ptr, h1)))"

definition malloc ::
  "'a discarder list \<Rightarrow> u64 \<Rightarrow> 'a heap_state_scheme \<Rightarrow> (u64 \<times> 'a heap_state_scheme) option" where
  "malloc ds sz h = realloc ds 0 sz h"

definition free ::
  "'a discarder list \<Rightarrow> u64 \<Rightarrow> 'a heap_state_scheme \<Rightarrow> 'a heap_state_scheme option" where
  "free ds ptr h = map_option snd (realloc ds ptr 0 h)"

definition zalloc ::
  "'a discarder list \<Rightarrow> u64 \<Rightarrow> 'a heap_state_scheme \<Rightarrow> (u64 \<times> 'a heap_state_scheme) option" where
  "zalloc ds sz h =
     map_option
       (\<lambda>(data, h1). (data, if data \<noteq> 0 then h1\<lparr>mem := memset (mem h1) data 0 sz\<rparr> else h1))
       (malloc ds sz h)"

definition mpopulate ::
  "u64 \<Rightarrow> u64 \<Rightarrow> 'a heap_state_scheme \<Rightarrow> 'a heap_state_scheme option" where
  "mpopulate start len h =
     (let len' = len AND NOT (MIN_MEMBLOCK_SIZE - 1)
      in map_option (\<lambda>h1. h1\<lparr>usedmem := usedmem h1 + len'\<rparr>) (free_memblock start len' h))"

definition init_heap :: "u64 \<Rightarrow> 'a heap_state_scheme \<Rightarrow> 'a heap_state_scheme option" where
  "init_heap heap h = mpopulate heap HEAP_SIZE h"

definition shutdown_cache ::
  "'a discarder list \<Rightarrow> 'a heap_state_scheme \<Rightarrow> 'a heap_state_scheme option" where
  "shutdown_cache ds h = discard_all_cache ds h"


section \<open>Well-formed free lists\<close>

text \<open>
  Addresses are below \<open>addr_limit\<close>, so that the signed pointer differences the code
  computes are exact.  A well-formed list is in ascending order, its blocks are not smaller
  than the minimum, and a gap separates neighbours: adjacent blocks have been merged.
\<close>

abbreviation addr_limit :: nat where
  "addr_limit \<equiv> 9223372036854775808"

definition blk_end :: "memory_block \<Rightarrow> nat" where
  "blk_end b = unat (mb_addr b) + unat (mb_size b)"

definition block_ok :: "memory_block \<Rightarrow> bool" where
  "block_ok b \<longleftrightarrow> 0 < unat (mb_addr b) \<and> 32 \<le> unat (mb_size b) \<and> blk_end b < addr_limit"

definition blocks_wf :: "memory_block list \<Rightarrow> bool" where
  "blocks_wf bl \<longleftrightarrow> (\<forall>b\<in>set bl. block_ok b) \<and> sorted_wrt (\<lambda>a b. blk_end a < unat (mb_addr b)) bl"

definition block_range :: "memory_block \<Rightarrow> nat set" where
  "block_range b = {unat (mb_addr b) ..< blk_end b}"

definition free_range :: "memory_block list \<Rightarrow> nat set" where
  "free_range bl = (\<Union>b\<in>set bl. block_range b)"

lemma MIN_MEMBLOCK_SIZE_eq [simp]: "MIN_MEMBLOCK_SIZE = 32"
  by (simp add: MIN_MEMBLOCK_SIZE_def sizeof_memory_block_def push_bit_eq_mult)

lemma blocks_wf_Nil [simp]: "blocks_wf []"
  by (simp add: blocks_wf_def)

lemma blocks_wf_Cons:
  "blocks_wf (b # bl) \<longleftrightarrow>
     block_ok b \<and> (\<forall>x\<in>set bl. blk_end b < unat (mb_addr x)) \<and> blocks_wf bl"
  by (auto simp: blocks_wf_def)

lemma blocks_wf_append:
  "blocks_wf (xs @ ys) \<longleftrightarrow>
     blocks_wf xs \<and> blocks_wf ys \<and> (\<forall>x\<in>set xs. \<forall>y\<in>set ys. blk_end x < unat (mb_addr y))"
  by (auto simp: blocks_wf_def sorted_wrt_append)

lemma block_okD: "b \<in> set bl \<Longrightarrow> blocks_wf bl \<Longrightarrow> block_ok b"
  by (simp add: blocks_wf_def)

lemma free_range_simps [simp]:
  "free_range [] = {}"
  "free_range (b # bl) = block_range b \<union> free_range bl"
  "free_range (xs @ ys) = free_range xs \<union> free_range ys"
  by (auto simp: free_range_def)

lemma block_start_in: "block_ok b \<Longrightarrow> unat (mb_addr b) \<in> block_range b"
  by (auto simp: block_range_def block_ok_def blk_end_def)

lemma unat_blk_end: "block_ok b \<Longrightarrow> unat (mb_addr b + mb_size b) = blk_end b"
  by (simp add: block_ok_def blk_end_def wordarith)

lemma memory_block_eqI:
  "unat (mb_addr a) = unat (mb_addr b) \<Longrightarrow> blk_end a = blk_end b \<Longrightarrow> a = (b :: memory_block)"
  by (rule memory_block.equality)
     (simp_all add: blk_end_def word_unat_eq_iff [THEN iffD2])

lemma memblock_round_unat:
  "unat (memblock_round sz) =
     (if unat sz \<le> 18446744073709551584 then 32 * ((unat sz + 31) div 32) else 0)"
proof -
  have m: "(31 :: u64) = mask 5" by (simp add: mask_eq_exp_minus_1)
  have eq: "memblock_round sz = (sz + 31) AND NOT (mask 5)"
  proof -
    have "sz + 32 - 1 = sz + 31" and "(32 :: u64) - 1 = mask 5"
      by (simp_all add: mask_eq_exp_minus_1)
    then show ?thesis by (simp only: memblock_round_def MIN_MEMBLOCK_SIZE_eq)
  qed
  have r: "unat (memblock_round sz) = unat (sz + 31) - unat (sz + 31) mod 32"
    unfolding eq unat_and_not_mask by simp
  show ?thesis
  proof (cases "unat sz \<le> 18446744073709551584")
    case True
    then have "unat (sz + 31) = unat sz + 31" by (simp add: wordarith)
    with True r show ?thesis by (simp add: minus_mod_eq_mult_div)
  next
    case False
    then have "18446744073709551616 \<le> unat sz + 31" "unat sz + 31 - 18446744073709551616 < 31"
      using unat_lt64 [of sz] by linarith+
    then have "unat (sz + 31) < 31"
      by (simp add: unat_word_ariths le_mod_geq)
    with False r show ?thesis by simp
  qed
qed

subsection \<open>Allocation\<close>

definition block_fits :: "u64 \<Rightarrow> u64 \<Rightarrow> u64 \<Rightarrow> memory_block \<Rightarrow> bool" where
  "block_fits n m off b \<longleftrightarrow> unat ((off - mb_addr b) AND m) + unat n \<le> unat (mb_size b)"

definition split_block :: "u64 \<Rightarrow> u64 \<Rightarrow> memory_block \<Rightarrow> memory_block list" where
  "split_block n pre b =
     (if pre < 32 then [] else [b\<lparr>mb_size := pre\<rparr>]) @
     (if mb_size b - pre - n \<ge> 32
      then [\<lparr>mb_addr = mb_addr b + pre + n, mb_size = mb_size b - pre - n\<rparr>] else [])"

lemma not_fits_iff:
  "(mb_size b < (off - mb_addr b) AND m \<or> mb_size b - ((off - mb_addr b) AND m) < n)
     \<longleftrightarrow> \<not> block_fits n m off b"
  by (cases "unat ((off - mb_addr b) AND m) \<le> unat (mb_size b)")
     (auto simp: block_fits_def word_less_nat_alt wordarith)

lemma alloc_scan_Cons:
  "alloc_scan n m off (b # bl) =
     (if block_fits n m off b
      then Some (mb_addr b + ((off - mb_addr b) AND m),
                 split_block n ((off - mb_addr b) AND m) b @ bl)
      else map_option (\<lambda>(p, r). (p, b # r)) (alloc_scan n m off bl))"
  using not_fits_iff [of b off m n]
  by (simp add: Let_def virt_to_phys_def split_block_def)

declare alloc_scan.simps(2) [simp del]

lemma alloc_scan_None_iff:
  "alloc_scan n m off bl = None \<longleftrightarrow> (\<forall>b\<in>set bl. \<not> block_fits n m off b)"
  by (induction bl) (auto simp: alloc_scan_Cons)

lemma alloc_scan_SomeD:
  assumes "alloc_scan n m off bl = Some (p, bl')"
  obtains xs b ys where "bl = xs @ b # ys" "\<forall>x\<in>set xs. \<not> block_fits n m off x"
    "block_fits n m off b" "p = mb_addr b + ((off - mb_addr b) AND m)"
    "bl' = xs @ split_block n ((off - mb_addr b) AND m) b @ ys"
  using assms
proof (induction bl arbitrary: bl' thesis)
  case Nil
  then show ?case by simp
next
  case (Cons a bl)
  show ?case
  proof (cases "block_fits n m off a")
    case True
    with Cons.prems(2) show ?thesis
      by (intro Cons.prems(1) [of "[]" a bl]) (auto simp: alloc_scan_Cons)
  next
    case False
    with Cons.prems(2) obtain r where r: "alloc_scan n m off bl = Some (p, r)" "bl' = a # r"
      by (auto simp: alloc_scan_Cons)
    show ?thesis
    proof (rule Cons.IH [OF _ r(1)])
      fix xs b ys
      assume "bl = xs @ b # ys" "\<forall>x\<in>set xs. \<not> block_fits n m off x" "block_fits n m off b"
        "p = mb_addr b + ((off - mb_addr b) AND m)"
        "r = xs @ split_block n ((off - mb_addr b) AND m) b @ ys"
      with False r(2) show thesis by (intro Cons.prems(1) [of "a # xs" b ys]) auto
    qed
  qed
qed

text \<open>What a split leaves: well-formed pieces inside the old block, around the allocation.\<close>

lemma split_block_spec:
  assumes ok: "block_ok b" and fit: "unat pre + unat n \<le> unat (mb_size b)" and n: "0 < unat n"
  shows "blocks_wf (split_block n pre b)"
    and "\<forall>x\<in>set (split_block n pre b). unat (mb_addr b) \<le> unat (mb_addr x) \<and> blk_end x \<le> blk_end b"
    and "unat (mb_addr b + pre) = unat (mb_addr b) + unat pre"
    and "free_range (split_block n pre b) =
           (if unat pre < 32 then {} else {unat (mb_addr b) ..< unat (mb_addr b + pre)}) \<union>
           (if blk_end b - unat (mb_addr b + pre) - unat n < 32 then {}
            else {unat (mb_addr b + pre) + unat n ..< blk_end b})"
proof -
  have p1: "unat (mb_addr b + pre) = unat (mb_addr b) + unat pre"
    using ok fit by (intro unat_add64) (auto simp: block_ok_def blk_end_def)
  have p2: "unat (mb_addr b + pre + n) = unat (mb_addr b) + unat pre + unat n"
    using ok fit p1 by (subst unat_add64) (auto simp: block_ok_def blk_end_def)
  have s1: "unat (mb_size b - pre) = unat (mb_size b) - unat pre"
    using fit by (intro unat_sub64) simp
  have s2: "unat (mb_size b - pre - n) = unat (mb_size b) - unat pre - unat n"
    using fit s1 by (subst unat_sub64) simp_all
  note defs = split_block_def block_ok_def blk_end_def block_range_def word_less_nat_alt word_le_nat_alt
  show "unat (mb_addr b + pre) = unat (mb_addr b) + unat pre" by (rule p1)
  show "blocks_wf (split_block n pre b)"
    using ok fit n by (auto simp: blocks_wf_append blocks_wf_Cons defs p1 p2 s1 s2)
  show "\<forall>x\<in>set (split_block n pre b). unat (mb_addr b) \<le> unat (mb_addr x) \<and> blk_end x \<le> blk_end b"
    using ok fit n by (auto simp: defs p1 p2 s1 s2)
  show "free_range (split_block n pre b) =
           (if unat pre < 32 then {} else {unat (mb_addr b) ..< unat (mb_addr b + pre)}) \<union>
           (if blk_end b - unat (mb_addr b + pre) - unat n < 32 then {}
            else {unat (mb_addr b + pre) + unat n ..< blk_end b})"
    using ok fit n by (auto simp: defs p1 p2 s1 s2)
qed


lemma blocks_wf_replace:
  assumes "blocks_wf (xs @ b # ys)" "blocks_wf zs"
    "\<forall>z\<in>set zs. unat (mb_addr b) \<le> unat (mb_addr z) \<and> blk_end z \<le> blk_end b"
  shows "blocks_wf (xs @ zs @ ys)"
  using assms by (fastforce simp: blocks_wf_append blocks_wf_Cons)

text \<open>
  The result of a successful scan: the block lies inside a free block, at the requested
  offset from the alignment; the new list is well formed and is the old one less the
  allocated block and less \<open>leak\<close>, two fragments too small to be kept.
\<close>

lemma alloc_scan_spec:
  assumes wf: "blocks_wf bl" and n: "0 < unat n"
    and sc: "alloc_scan n m off bl = Some (p, bl')"
  obtains b leak where "b \<in> set bl" "block_fits n m off b"
    "p = mb_addr b + ((off - mb_addr b) AND m)" "0 < unat p"
    "{unat p ..< unat p + unat n} \<subseteq> block_range b" "unat p + unat n < addr_limit"
    "blocks_wf bl'" "free_range bl' = free_range bl - {unat p ..< unat p + unat n} - leak"
    "leak \<subseteq> block_range b"
    "leak \<subseteq> {unat (mb_addr b) ..< unat p} \<union> {unat p + unat n ..< blk_end b}"
    "unat ((off - mb_addr b) AND m) mod 32 = 0 \<Longrightarrow> unat (mb_size b) mod 32 = 0 \<Longrightarrow>
       unat n mod 32 = 0 \<Longrightarrow> leak = {}"
proof -
  obtain xs b ys where bl: "bl = xs @ b # ys" and fit: "block_fits n m off b"
    and p: "p = mb_addr b + ((off - mb_addr b) AND m)"
    and bl': "bl' = xs @ split_block n ((off - mb_addr b) AND m) b @ ys"
    using alloc_scan_SomeD [OF sc] .
  let ?pre = "(off - mb_addr b) AND m"
  let ?leak = "(if unat ?pre < 32 then {unat (mb_addr b) ..< unat p} else {}) \<union>
    (if blk_end b - unat p - unat n < 32 then {unat p + unat n ..< blk_end b} else {})"
  have ok: "block_ok b" and others: "\<forall>x\<in>set xs. blk_end x < unat (mb_addr b)"
      "\<forall>y\<in>set ys. blk_end b < unat (mb_addr y)"
    using wf by (auto simp: bl blocks_wf_append blocks_wf_Cons)
  have f: "unat ?pre + unat n \<le> unat (mb_size b)" using fit by (simp add: block_fits_def)
  note sp = split_block_spec [OF ok f n]
  have up: "unat p = unat (mb_addr b) + unat ?pre" using sp(3) by (simp add: p)
  have dis: "free_range (xs @ ys) \<inter> block_range b = {}"
    using others by (auto simp: free_range_def block_range_def)
  have wf': "blocks_wf bl'"
    unfolding bl' using blocks_wf_replace wf sp(1,2) unfolding bl by blast
  have split: "free_range (split_block n ?pre b) = block_range b - {unat p ..< unat p + unat n} - ?leak"
    using f n by (simp only: sp(4) p [symmetric]) (auto simp: block_range_def blk_end_def up)
  show thesis
  proof (rule that [of b ?leak])
    show "b \<in> set bl" "block_fits n m off b" "p = mb_addr b + ((off - mb_addr b) AND m)" "blocks_wf bl'"
      using bl fit p wf' by auto
    show "0 < unat p" "unat p + unat n < addr_limit" using ok f up by (auto simp: block_ok_def blk_end_def)
    show "{unat p ..< unat p + unat n} \<subseteq> block_range b" using f up by (auto simp: block_range_def blk_end_def)
    show "?leak \<subseteq> block_range b" using f up by (auto simp: block_range_def blk_end_def)
    show "?leak \<subseteq> {unat (mb_addr b) ..< unat p} \<union> {unat p + unat n ..< blk_end b}" by auto
    show "free_range bl' = free_range bl - {unat p ..< unat p + unat n} - ?leak"
    proof -
      have sub: "{unat p ..< unat p + unat n} \<union> ?leak \<subseteq> block_range b"
        using f up by (auto simp: block_range_def blk_end_def)
      have "free_range bl' = free_range (xs @ ys) \<union> free_range (split_block n ?pre b)"
        by (auto simp: bl')
      then show ?thesis using dis sub unfolding split bl by auto
    qed
    show "?leak = {}" if "unat ?pre mod 32 = 0" "unat (mb_size b) mod 32 = 0" "unat n mod 32 = 0"
    proof -
      have "(unat (mb_size b) - unat ?pre - unat n) mod 32 = 0"
        using that f by (metis mod_0_imp_dvd dvd_diff_nat dvd_imp_mod_0)
      moreover have "x < 32 \<Longrightarrow> x mod 32 = 0 \<Longrightarrow> x = 0" for x :: nat by simp
      ultimately show ?thesis using that(1) f up by (auto simp: blk_end_def)
    qed
  qed
qed


subsection \<open>Freeing\<close>

lemma int_diff_zero_iffs:
  "(int x - int y = 0) = (x = y)" "(0 \<le> int x - int y) = (y \<le> x)"
  by linarith+

lemma gap_iffs:
  assumes "block_ok f" "block_ok b"
  shows "sint (mb_addr f - (mb_addr b + mb_size b)) = 0 \<longleftrightarrow> unat (mb_addr f) = blk_end b"
    and "0 \<le> sint (mb_addr b - (mb_addr f + mb_size f)) \<longleftrightarrow> blk_end f \<le> unat (mb_addr b)"
    and "sint (mb_addr b - (mb_addr f + mb_size f)) = 0 \<longleftrightarrow> unat (mb_addr b) = blk_end f"
proof -
  have lim: "unat (mb_addr f) < addr_limit" "unat (mb_addr b) < addr_limit"
    "unat (mb_addr f + mb_size f) < addr_limit" "unat (mb_addr b + mb_size b) < addr_limit"
    using assms by (auto simp: unat_blk_end) (auto simp: block_ok_def blk_end_def)
  show "sint (mb_addr f - (mb_addr b + mb_size b)) = 0 \<longleftrightarrow> unat (mb_addr f) = blk_end b"
    "0 \<le> sint (mb_addr b - (mb_addr f + mb_size f)) \<longleftrightarrow> blk_end f \<le> unat (mb_addr b)"
    "sint (mb_addr b - (mb_addr f + mb_size f)) = 0 \<longleftrightarrow> unat (mb_addr b) = blk_end f"
    by (simp_all only: sint_diff64 [OF lim(1,4)] sint_diff64 [OF lim(2,3)] unat_blk_end assms int_diff_zero_iffs)
qed

lemma free_scan_Cons:
  assumes "block_ok f" "block_ok b"
  shows "free_scan n f (b # bl) =
    (if unat (mb_addr f) = blk_end b then
       (if blk_end f \<le> unat (mb_addr b) then None
        else free_scan n (b\<lparr>mb_size := mb_size b + n\<rparr>) bl)
     else if blk_end f \<le> unat (mb_addr b) then
       (if blk_end f = unat (mb_addr b) then Some (f\<lparr>mb_size := mb_size f + mb_size b\<rparr> # bl)
        else Some (f # b # bl))
     else map_option ((#) b) (free_scan n f bl))"
  using gap_iffs [OF assms] by (simp add: Let_def eq_commute [of "unat (mb_addr b)"])

declare free_scan.simps(2) [simp del]

text \<open>Two adjoining blocks merge into one.\<close>

lemma block_merge:
  assumes "block_ok a" "block_ok b" "blk_end a = unat (mb_addr b)" "unat n = unat (mb_size b)"
  shows "block_ok (a\<lparr>mb_size := mb_size a + n\<rparr>)"
    and "blk_end (a\<lparr>mb_size := mb_size a + n\<rparr>) = blk_end b"
    and "block_range (a\<lparr>mb_size := mb_size a + n\<rparr>) = block_range a \<union> block_range b"
proof -
  have "unat (mb_size a + n) = unat (mb_size a) + unat n"
    using assms by (intro unat_add64) (auto simp: block_ok_def blk_end_def)
  with assms show "block_ok (a\<lparr>mb_size := mb_size a + n\<rparr>)"
      "blk_end (a\<lparr>mb_size := mb_size a + n\<rparr>) = blk_end b"
      "block_range (a\<lparr>mb_size := mb_size a + n\<rparr>) = block_range a \<union> block_range b"
    by (auto simp: block_ok_def blk_end_def block_range_def)
qed

lemma free_scan_before:
  assumes "blocks_wf bl" "block_ok f" "\<forall>b\<in>set bl. blk_end f \<le> unat (mb_addr b)"
  shows "\<exists>bl'. free_scan n f bl = Some bl' \<and> blocks_wf bl' \<and>
           free_range bl' = block_range f \<union> free_range bl"
proof (cases bl)
  case Nil
  with assms show ?thesis by (simp add: blocks_wf_Cons)
next
  case (Cons b r)
  with assms have ok: "block_ok b" "blk_end f \<le> unat (mb_addr b)" "blocks_wf r"
      "\<forall>x\<in>set r. blk_end b < unat (mb_addr x)"
    by (auto simp: blocks_wf_Cons)
  have lt: "unat (mb_addr f) < blk_end b"
    using assms(2) ok by (auto simp: block_ok_def blk_end_def)
  show ?thesis
  proof (cases "blk_end f = unat (mb_addr b)")
    case True
    from block_merge [OF assms(2) ok(1) True refl] ok(3,4) lt True show ?thesis
      unfolding Cons by (subst free_scan_Cons [OF assms(2) ok(1)]) (auto simp: blocks_wf_Cons)
  next
    case False
    with ok assms(2) lt show ?thesis
      unfolding Cons by (subst free_scan_Cons [OF assms(2) ok(1)]) (auto simp: blocks_wf_Cons blk_end_def)
  qed
qed

lemma blocks_wf_ConsI:
  assumes "block_ok b" "blocks_wf bl" "\<forall>a\<in>free_range bl. blk_end b < a"
  shows "blocks_wf (b # bl)"
  using assms block_start_in block_okD
  by (fastforce simp: blocks_wf_Cons free_range_def)

lemma free_scan_spec:
  assumes "blocks_wf bl" "block_ok f" "mb_size f = n" "block_range f \<inter> free_range bl = {}"
  shows "\<exists>bl'. free_scan n f bl = Some bl' \<and> blocks_wf bl' \<and>
           free_range bl' = block_range f \<union> free_range bl"
  using assms
proof (induction bl)
  case Nil
  then show ?case by (simp add: blocks_wf_Cons)
next
  case (Cons b bl)
  then have ok: "block_ok b" "blocks_wf bl" "\<forall>x\<in>set bl. blk_end b < unat (mb_addr x)"
    by (auto simp: blocks_wf_Cons)
  have disj: "blk_end x \<le> unat (mb_addr f) \<or> blk_end f \<le> unat (mb_addr x)"
    if "x \<in> set (b # bl)" for x
  proof (rule ccontr)
    assume "\<not> ?thesis"
    moreover have "block_ok x" using that Cons.prems(1) by (rule block_okD)
    ultimately have "max (unat (mb_addr f)) (unat (mb_addr x)) \<in> block_range f \<inter> block_range x"
      using Cons.prems(2) by (auto simp: block_range_def block_ok_def blk_end_def)
    with Cons.prems(4) that show False by (auto simp: free_range_def)
  qed
  consider "blk_end b = unat (mb_addr f)" | "blk_end b < unat (mb_addr f)"
    | "blk_end f \<le> unat (mb_addr b)"
    using disj [of b] by force
  then show ?case
  proof cases
    case 1
    note m = block_merge [OF ok(1) Cons.prems(2) 1, of n]
    have "\<forall>x\<in>set bl. blk_end f \<le> unat (mb_addr x)"
      using disj ok(3) 1 by (force simp: block_ok_def blk_end_def)
    then obtain bl' where bl': "free_scan n (b\<lparr>mb_size := mb_size b + n\<rparr>) bl = Some bl'"
        "blocks_wf bl'" "free_range bl' = block_range b \<union> block_range f \<union> free_range bl"
      using free_scan_before [OF ok(2) m(1), of n] m(2,3) Cons.prems(3) by auto
    have "\<not> blk_end f \<le> unat (mb_addr b)"
      using 1 ok(1) Cons.prems(2) by (auto simp: block_ok_def blk_end_def)
    with 1 bl' show ?thesis
      by (subst free_scan_Cons [OF Cons.prems(2) ok(1)]) auto
  next
    case 2
    obtain bl' where bl': "free_scan n f bl = Some bl'" "blocks_wf bl'"
        "free_range bl' = block_range f \<union> free_range bl"
      using Cons.IH ok(2) Cons.prems by auto
    have "\<forall>a\<in>free_range bl'. blk_end b < a"
      unfolding bl'(3) using 2 ok(3) by (auto simp: block_range_def free_range_def)
    then have "blocks_wf (b # bl')" using ok(1) bl'(2) by (intro blocks_wf_ConsI)
    moreover have "\<not> blk_end f \<le> unat (mb_addr b)"
      using 2 ok(1) Cons.prems(2) by (auto simp: block_ok_def blk_end_def)
    ultimately show ?thesis
      using 2 bl' by (subst free_scan_Cons [OF Cons.prems(2) ok(1)]) auto
  next
    case 3
    then have "\<forall>x\<in>set (b # bl). blk_end f \<le> unat (mb_addr x)"
      using ok(3) by (auto simp: blk_end_def)
    from free_scan_before [OF Cons.prems(1,2) this] show ?thesis .
  qed
qed

text \<open>A well-formed list is determined by the addresses it covers.\<close>

lemma block_end_unique:
  assumes "blocks_wf (a # r)" "blocks_wf (b # s)" "free_range (a # r) = free_range (b # s)"
    and "unat (mb_addr a) = unat (mb_addr b)"
  shows "blk_end b \<le> blk_end a"
proof (rule ccontr)
  assume "\<not> ?thesis"
  then have "blk_end a \<in> block_range b"
    using assms(1,4) by (auto simp: block_range_def blocks_wf_Cons blk_end_def)
  then have "blk_end a \<in> free_range (a # r)" using assms(3) by auto
  then show False
    using assms(1) by (auto simp: blocks_wf_Cons block_range_def free_range_def)
qed

lemma block_start_least:
  assumes "blocks_wf (a # r)" "x \<in> free_range (a # r)"
  shows "unat (mb_addr a) \<le> x"
  using assms by (fastforce simp: blocks_wf_Cons block_range_def free_range_def blk_end_def)

lemma free_range_rest:
  assumes "blocks_wf (a # r)"
  shows "free_range r = free_range (a # r) - block_range a"
  using assms by (auto simp: blocks_wf_Cons block_range_def free_range_def)

lemma free_list_canonical:
  assumes "blocks_wf bl" "blocks_wf bl'" "free_range bl = free_range bl'"
  shows "bl = bl'"
  using assms
proof (induction bl arbitrary: bl')
  case Nil
  then show ?case using block_start_in by (cases bl') (auto simp: blocks_wf_Cons)
next
  case (Cons a r)
  from Cons.prems(1,3) obtain b s where bl': "bl' = b # s"
    using block_start_in by (cases bl') (auto simp: blocks_wf_Cons)
  have "unat (mb_addr a) \<in> free_range (a # r)" "unat (mb_addr b) \<in> free_range (b # s)"
    using Cons.prems block_start_in by (auto simp: bl' blocks_wf_Cons)
  then have start: "unat (mb_addr a) = unat (mb_addr b)"
    using block_start_least Cons.prems unfolding bl' by (metis le_antisym)
  then have "blk_end a = blk_end b"
    using block_end_unique [of a r b s] block_end_unique [of b s a r] Cons.prems
    unfolding bl' by simp
  with start have "a = b" by (rule memory_block_eqI)
  moreover have "free_range r = free_range s"
    using Cons.prems \<open>a = b\<close> free_range_rest unfolding bl' by metis
  ultimately show ?case
    using Cons.IH [of s] Cons.prems by (simp add: bl' blocks_wf_Cons)
qed

subsection \<open>Assertions and whole operations\<close>

lemma assert_that_True [simp]: "c \<Longrightarrow> assert_that c h = h"
  by (simp add: assert_that_def)

lemma block_asserts:
  assumes "block_ok b"
  shows "(32 :: u64) \<le> mb_size b" "mb_addr b < mb_addr b + mb_size b"
  using assms unat_blk_end [OF assms]
  by (auto simp: word_le_nat_alt word_less_nat_alt block_ok_def blk_end_def)

lemma check_blocks_from_id:
  assumes "blocks_wf bl" "\<forall>p. prev = Some p \<longrightarrow> block_ok p \<and> (\<forall>x\<in>set bl. blk_end p < unat (mb_addr x))"
  shows "check_blocks_from prev bl h = h"
  using assms
proof (induction bl arbitrary: prev)
  case (Cons b bl)
  then have ok: "block_ok b" by (simp add: blocks_wf_Cons)
  have prev: "mb_addr p < mb_addr b \<and> mb_addr p + mb_size p < mb_addr b" if "prev = Some p" for p
    using Cons.prems(2) that unat_blk_end [of p] by (auto simp: word_less_nat_alt blk_end_def)
  have "check_blocks_from (Some b) bl h = h"
    using Cons.prems ok by (intro Cons.IH) (auto simp: blocks_wf_Cons)
  with block_asserts [OF ok] prev show ?case
    by (cases prev) (simp_all add: Let_def sizeof_memory_block_def)
qed simp

lemma check_blocks_id [simp]: "blocks_wf (free_blocks h) \<Longrightarrow> check_blocks h = h"
  by (simp add: check_blocks_def check_blocks_from_id)

lemma check_double_free_id:
  assumes "blocks_wf bl" "block_ok \<lparr>mb_addr = p, mb_size = n\<rparr>"
    "{unat p ..< unat p + unat n} \<inter> free_range bl = {}"
  shows "check_double_free p n bl h = h"
  using assms
proof (induction bl)
  case (Cons b bl)
  then have ok: "block_ok b" by (simp add: blocks_wf_Cons)
  have e: "unat (p + n) = unat p + unat n"
    using unat_blk_end [OF Cons.prems(2)] by (simp add: blk_end_def)
  have "\<not> (unat (mb_addr b) < unat p + unat n \<and> unat p < blk_end b)"
  proof
    assume "unat (mb_addr b) < unat p + unat n \<and> unat p < blk_end b"
    then have "max (unat (mb_addr b)) (unat p) \<in> {unat p ..< unat p + unat n} \<inter> block_range b"
      using ok Cons.prems(2) by (auto simp: block_range_def block_ok_def blk_end_def)
    then have "max (unat (mb_addr b)) (unat p) \<in> {unat p ..< unat p + unat n} \<inter> free_range (b # bl)"
      by simp
    then show False unfolding Cons.prems(3) by simp
  qed
  then have "\<not> (mb_addr b < p + n \<and> p < mb_addr b + mb_size b)"
    by (simp add: word_less_nat_alt unat_blk_end [OF ok] e)
  with Cons show ?case by (auto simp: blocks_wf_Cons)
qed simp

text \<open>
  A block is freeable when it is a plausible block of the lower half of the address space
  that the free list does not touch.
\<close>

definition freeable :: "u64 \<Rightarrow> u64 \<Rightarrow> 'a heap_state_scheme \<Rightarrow> bool" where
  "freeable p sz h \<longleftrightarrow>
     p \<noteq> 0 \<and> sz \<noteq> 0 \<and> unat p + unat (memblock_round sz) < addr_limit \<and> memblock_round sz \<noteq> 0 \<and>
     {unat p ..< unat p + unat (memblock_round sz)} \<inter> free_range (free_blocks h) = {}"

lemma memblock_round_ge32: "memblock_round sz \<noteq> 0 \<Longrightarrow> 32 \<le> unat (memblock_round sz)"
  using memblock_round_unat [of sz]
  by (metis One_nat_def dvd_imp_le dvd_triv_left gr_zeroI unat_eq_zero)

lemma memblock_round_ge: "memblock_round sz \<noteq> 0 \<Longrightarrow> unat sz \<le> unat (memblock_round sz)"
  by (auto simp: memblock_round_unat word_unat_eq_iff split: if_splits)

lemma free_memblock_spec:
  assumes "blocks_wf (free_blocks h)" "freeable p sz h"
  obtains bl where
    "free_memblock p sz h = Some (h\<lparr>free_blocks := bl, freemem := freemem h + memblock_round sz,
                                     usedmem := usedmem h - memblock_round sz\<rparr>)"
    "blocks_wf bl"
    "free_range bl = {unat p ..< unat p + unat (memblock_round sz)} \<union> free_range (free_blocks h)"
proof -
  let ?f = "\<lparr>mb_addr = p, mb_size = memblock_round sz\<rparr>"
  have ok: "block_ok ?f"
    using assms(2) memblock_round_ge32 [of sz]
    by (auto simp: freeable_def block_ok_def blk_end_def unat_gt_0)
  have r: "block_range ?f = {unat p ..< unat p + unat (memblock_round sz)}"
    by (simp add: block_range_def blk_end_def)
  have disj: "{unat p ..< unat p + unat (memblock_round sz)} \<inter> free_range (free_blocks h) = {}"
    using assms(2) by (simp add: freeable_def)
  obtain bl where bl: "free_scan (memblock_round sz) ?f (free_blocks h) = Some bl" "blocks_wf bl"
      "free_range bl = block_range ?f \<union> free_range (free_blocks h)"
    using free_scan_spec [OF assms(1) ok, of "memblock_round sz"] disj r by auto
  show thesis
  proof (rule that [OF _ bl(2)])
    show "free_memblock p sz h = Some (h\<lparr>free_blocks := bl, freemem := freemem h + memblock_round sz,
                                     usedmem := usedmem h - memblock_round sz\<rparr>)"
      using assms bl
      by (simp add: free_memblock_def Let_def freeable_def check_double_free_id [OF assms(1) ok disj])
    show "free_range bl = {unat p ..< unat p + unat (memblock_round sz)} \<union> free_range (free_blocks h)"
      using bl(3) r by simp
  qed
qed


text \<open>A failed or successful scan of one heap; \<open>alloc_effect\<close> is the update of the counters.\<close>

definition alloc_effect :: "u64 \<Rightarrow> memory_block list \<Rightarrow> 'a heap_state_scheme \<Rightarrow> 'a heap_state_scheme" where
  "alloc_effect n bl h =
     h\<lparr>free_blocks := bl, freemem := freemem h - n, usedmem := usedmem h + n,
       maxusedmem := max (usedmem h + n) (maxusedmem h)\<rparr>"

lemma alloc_loop_step:
  "alloc_loop ds n m off h =
     (case alloc_scan n m off (free_blocks h) of
        Some (ptr, bl) \<Rightarrow> Some (ptr, alloc_effect n bl h)
      | None \<Rightarrow>
          (case discard_cache ds h of
             (discarded, h') \<Rightarrow>
               if discarded = 0 then Some (0, check_blocks h')
               else alloc_loop ds n m off (check_blocks h')))"
  by (subst alloc_loop.simps)
     (auto simp: alloc_effect_def Let_def max_def split: option.splits prod.splits)

section \<open>The cache discarders\<close>

text \<open>
  What the allocator relies on: a discarder keeps the state consistent (in particular the
  free list well formed), never adds items, and removes at least one when it says so.
\<close>

locale cache_discarders =
  fixes ds :: "'a discarder list"
    and items :: "'a heap_state_scheme \<Rightarrow> nat"
    and consistent :: "'a heap_state_scheme \<Rightarrow> bool"
  assumes consistent_wf: "consistent h \<Longrightarrow> blocks_wf (free_blocks h)"
    and discard_consistent: "d \<in> set ds \<Longrightarrow> consistent h \<Longrightarrow> consistent (snd (d h))"
    and discard_less: "d \<in> set ds \<Longrightarrow> consistent h \<Longrightarrow> fst (d h) \<noteq> 0 \<Longrightarrow> items (snd (d h)) < items h"
    and discard_none: "d \<in> set ds \<Longrightarrow> consistent h \<Longrightarrow> fst (d h) = 0 \<Longrightarrow> items (snd (d h)) \<le> items h"
begin

lemma discard_cache_contract:
  assumes "set es \<subseteq> set ds" "consistent h"
  shows "consistent (snd (discard_cache es h)) \<and>
     (fst (discard_cache es h) \<noteq> 0 \<longrightarrow> items (snd (discard_cache es h)) < items h) \<and>
     items (snd (discard_cache es h)) \<le> items h"
  using assms
proof (induction es arbitrary: h)
  case (Cons e es)
  obtain n h' where e: "e h = (n, h')" by (cases "e h")
  have d: "e \<in> set ds" using Cons.prems by simp
  have c: "consistent h'" using discard_consistent [OF d Cons.prems(2)] e by simp
  show ?case
  proof (cases "n = 0")
    case True
    then have "items h' \<le> items h" using discard_none [OF d Cons.prems(2)] e by simp
    with Cons.IH [OF _ c] Cons.prems(1) True e show ?thesis by (auto simp: Let_def)
  next
    case False
    then have "items h' < items h" using discard_less [OF d Cons.prems(2)] e by simp
    with c e False show ?thesis by simp
  qed
qed simp

text \<open>
  The allocation loop ends: either a scan of a consistent heap succeeds, or the last scan
  failed and nothing was left to discard.
\<close>

lemma alloc_loop_total:
  assumes "consistent h"
  shows "\<exists>h1. consistent h1 \<and> items h1 \<le> items h \<and>
    ((\<exists>p bl. alloc_scan n m off (free_blocks h1) = Some (p, bl) \<and>
             alloc_loop ds n m off h = Some (p, alloc_effect n bl h1)) \<or>
     (\<exists>h0. consistent h0 \<and> alloc_scan n m off (free_blocks h0) = None \<and>
           discard_cache ds h0 = (0, h1) \<and> alloc_loop ds n m off h = Some (0, h1)))"
  using assms
proof (induction "items h" arbitrary: h rule: less_induct)
  case less
  show ?case
  proof (cases "alloc_scan n m off (free_blocks h)")
    case (Some r)
    with less.prems show ?thesis by (intro exI [of _ h]) (auto simp: alloc_loop_step [of ds n m off h] split: prod.splits)
  next
    case None
    obtain d h' where d: "discard_cache ds h = (d, h')" by (cases "discard_cache ds h")
    have c: "consistent h'" "items h' \<le> items h" "d \<noteq> 0 \<longrightarrow> items h' < items h"
      using discard_cache_contract [of ds h] less.prems d by auto
    have k: "check_blocks h' = h'" using consistent_wf [OF c(1)] by simp
    show ?thesis
    proof (cases "d = 0")
      case True
      then show ?thesis
        using None d c less.prems k by (intro exI [of _ h']) (auto simp: alloc_loop_step [of ds n m off h])
    next
      case False
      then have eq: "alloc_loop ds n m off h = alloc_loop ds n m off h'"
        using None d k by (simp add: alloc_loop_step [of ds n m off h])
      have lt: "items h' < items h" using c(3) False by simp
      from less.hyps [OF lt c(1)] obtain h1 where h1: "consistent h1" "items h1 \<le> items h'"
        "(\<exists>p bl. alloc_scan n m off (free_blocks h1) = Some (p, bl) \<and>
             alloc_loop ds n m off h' = Some (p, alloc_effect n bl h1)) \<or>
         (\<exists>h0. consistent h0 \<and> alloc_scan n m off (free_blocks h0) = None \<and>
           discard_cache ds h0 = (0, h1) \<and> alloc_loop ds n m off h' = Some (0, h1))" by blast
      then show ?thesis using lt unfolding eq by (intro exI [of _ h1]) auto
    qed
  qed
qed

lemma discard_all_cache_total:
  assumes "consistent h"
  shows "\<exists>h1. discard_all_cache ds h = Some h1 \<and> consistent h1 \<and> items h1 \<le> items h"
  using assms
proof (induction "items h" arbitrary: h rule: less_induct)
  case less
  obtain d h' where d: "discard_cache ds h = (d, h')" by (cases "discard_cache ds h")
  have c: "consistent h'" "items h' \<le> items h" "d \<noteq> 0 \<longrightarrow> items h' < items h"
    using discard_cache_contract [of ds h] less.prems d by auto
  show ?case
  proof (cases "d = 0")
    case True
    with c d show ?thesis by (subst discard_all_cache.simps) auto
  next
    case False
    with c have lt: "items h' < items h" by simp
    from less.hyps [OF lt c(1)] lt d False show ?thesis
      by (subst discard_all_cache.simps) auto
  qed
qed

end

section \<open>The contract of allocation\<close>

lemma align_mask_eq:
  assumes "align = 2 ^ k"
  shows "(align - 1) OR (MIN_MEMBLOCK_SIZE - 1) = (mask (max k 5) :: u64)"
proof -
  have "align - 1 = mask k" "MIN_MEMBLOCK_SIZE - 1 = mask 5"
    using assms by (simp_all add: mask_eq_exp_minus_1)
  then show ?thesis by (simp only: mask_or_mask)
qed

lemma alloc_aligned:
  assumes "p = a + ((off - a) AND mask k)"
  shows "(p - off) AND mask k = (0 :: u64)"
proof -
  have "p - off = ((off - a) AND mask k) - (off - a)" by (simp add: assms)
  then show ?thesis by (simp only: and_mask_diff_aligned)
qed

text \<open>Any aligned hole in a block means that the block fits.\<close>

lemma fits_of_hole:
  assumes "block_ok b" "unat (mb_addr b) \<le> unat q" "unat q + unat n \<le> blk_end b"
    and "(q - off) AND mask k = (0 :: u64)"
  shows "block_fits n (mask k) off b"
proof -
  have "off - mb_addr b = (q - mb_addr b) - (q - off)" by simp
  then have "(off - mb_addr b) AND mask k = (q - mb_addr b) AND mask k"
    using assms(4) by (metis diff_zero mask_eqs(4))
  then have "unat ((off - mb_addr b) AND mask k) \<le> unat (q - mb_addr b)"
    by (simp add: unat_and_mask)
  also have "\<dots> = unat q - unat (mb_addr b)" using assms(2) by (rule unat_sub64)
  finally show ?thesis using assms(2,3) by (simp add: block_fits_def blk_end_def)
qed

text \<open>A contiguous run of free addresses lies in one block, since neighbours are merged.\<close>

lemma run_in_one_block:
  assumes "blocks_wf bl" "{q ..< q + n} \<subseteq> free_range bl" "0 < n"
  obtains b where "b \<in> set bl" "unat (mb_addr b) \<le> q" "q + n \<le> blk_end b"
proof -
  have "q \<in> free_range bl" using assms(2,3) by auto
  then obtain xs b ys where bl: "bl = xs @ b # ys" and q: "q \<in> block_range b"
    by (auto simp: free_range_def in_set_conv_decomp)
  have "blk_end b \<notin> free_range bl"
    using assms(1) by (fastforce simp: bl free_range_def block_range_def blocks_wf_append
        blocks_wf_Cons blk_end_def)
  then have "\<not> blk_end b < q + n" using assms(2) q by (auto simp: block_range_def subset_iff)
  with q show thesis by (intro that [of b]) (auto simp: bl block_range_def)
qed

lemma alloc_memblock_unfold:
  assumes "blocks_wf (free_blocks h)" "sz \<noteq> 0" "align = 2 ^ k" "k < 64"
  shows "alloc_memblock ds sz align off h =
    (if memblock_round sz = 0 then Some (0, h)
     else map_option (\<lambda>(p, h5). (p, check_blocks h5))
            (alloc_loop ds (memblock_round sz) (mask (max k 5)) off h))"
proof -
  have "align AND (align - 1) = 0"
  proof -
    have "align - 1 = mask k" using assms(3) by (simp add: mask_eq_exp_minus_1)
    moreover have "(2 ^ k :: u64) AND mask k = 0"
      by (auto intro!: bit_eqI simp: bit_simps bit_exp_iff)
    ultimately show ?thesis using assms(3) by simp
  qed
  moreover have "memblock_round sz \<noteq> 0 \<Longrightarrow> sz \<le> memblock_round sz"
    by (simp add: word_le_nat_alt memblock_round_ge)
  ultimately show ?thesis
    using assms(1,2) align_mask_eq [OF assms(3)]
    by (simp add: alloc_memblock_def Let_def del: MIN_MEMBLOCK_SIZE_eq)
qed

lemma memblock_round_mod32: "unat (memblock_round sz) mod 32 = 0"
  by (simp add: memblock_round_unat)

text \<open>What a caller may rely on when \<open>p\<close> has been allocated from the heap \<open>h1\<close>.\<close>

definition allocated_from ::
  "u64 \<Rightarrow> u64 \<Rightarrow> u64 \<Rightarrow> u64 \<Rightarrow> 'a heap_state_scheme \<Rightarrow> 'a heap_state_scheme \<Rightarrow> bool" where
  "allocated_from p sz align off h1 h' \<longleftrightarrow>
     p \<noteq> 0 \<and> unat sz \<le> unat (memblock_round sz) \<and> unat p + unat (memblock_round sz) < addr_limit \<and>
     (p - off) AND (align - 1) = 0 \<and>
     {unat p ..< unat p + unat (memblock_round sz)} \<subseteq> free_range (free_blocks h1) \<and>
     free_range (free_blocks h') \<subseteq>
       free_range (free_blocks h1) - {unat p ..< unat p + unat (memblock_round sz)} \<and>
     blocks_wf (free_blocks h') \<and>
     h' = alloc_effect (memblock_round sz) (free_blocks h') h1"

lemma alloc_scan_allocated:
  assumes wf: "blocks_wf (free_blocks h)" and n: "memblock_round sz \<noteq> 0" and k: "align = 2 ^ k"
    and sc: "alloc_scan (memblock_round sz) (mask (max k 5)) off (free_blocks h) = Some (p, bl)"
  shows "allocated_from p sz align off h (alloc_effect (memblock_round sz) bl h)"
proof -
  have pos: "0 < unat (memblock_round sz)" using n by (simp add: unat_gt_0)
  obtain b leak where b: "b \<in> set (free_blocks h)"
    "p = mb_addr b + ((off - mb_addr b) AND mask (max k 5))" "0 < unat p"
    "{unat p ..< unat p + unat (memblock_round sz)} \<subseteq> block_range b"
    "unat p + unat (memblock_round sz) < addr_limit" "blocks_wf bl"
    "free_range bl = free_range (free_blocks h) - {unat p ..< unat p + unat (memblock_round sz)} - leak"
    using alloc_scan_spec [OF wf pos sc] by metis
  have "(p - off) AND mask (max k 5) = 0" using b(2) by (rule alloc_aligned)
  then have "(p - off) AND mask k = 0" by (rule and_mask_le [rotated]) simp
  then have al: "(p - off) AND (align - 1) = 0" using k by (simp add: mask_eq_exp_minus_1)
  have sub: "{unat p ..< unat p + unat (memblock_round sz)} \<subseteq> free_range (free_blocks h)"
    using b(1,4) by (auto simp: free_range_def)
  show ?thesis
    using b al sub memblock_round_ge [OF n]
    by (auto simp: allocated_from_def alloc_effect_def unat_gt_0)
qed

context cache_discarders
begin

lemma alloc_memblock_total:
  assumes "consistent h" "sz \<noteq> 0" "align = 2 ^ k" "k < 64"
  shows "\<exists>p h'. alloc_memblock ds sz align off h = Some (p, h') \<and>
    (p = 0 \<and> consistent h' \<or> (\<exists>h1. consistent h1 \<and> items h1 \<le> items h \<and> allocated_from p sz align off h1 h'))"
proof (cases "memblock_round sz = 0")
  case True
  then show ?thesis
    using assms consistent_wf by (auto simp: alloc_memblock_unfold)
next
  case False
  have wf: "blocks_wf (free_blocks h)" using assms(1) by (rule consistent_wf)
  from alloc_loop_total [OF assms(1), of "memblock_round sz" "mask (max k 5)" off]
  obtain h1 where h1: "consistent h1" "items h1 \<le> items h" and
    cases: "(\<exists>p bl. alloc_scan (memblock_round sz) (mask (max k 5)) off (free_blocks h1) = Some (p, bl) \<and>
        alloc_loop ds (memblock_round sz) (mask (max k 5)) off h = Some (p, alloc_effect (memblock_round sz) bl h1)) \<or>
      alloc_loop ds (memblock_round sz) (mask (max k 5)) off h = Some (0, h1)" by blast
  from cases show ?thesis
  proof (elim disjE exE conjE)
    fix p bl
    assume sc: "alloc_scan (memblock_round sz) (mask (max k 5)) off (free_blocks h1) = Some (p, bl)"
      and l: "alloc_loop ds (memblock_round sz) (mask (max k 5)) off h = Some (p, alloc_effect (memblock_round sz) bl h1)"
    have a: "allocated_from p sz align off h1 (alloc_effect (memblock_round sz) bl h1)"
      using consistent_wf [OF h1(1)] False assms(3) sc by (rule alloc_scan_allocated)
    then have "check_blocks (alloc_effect (memblock_round sz) bl h1) = alloc_effect (memblock_round sz) bl h1"
      by (simp add: allocated_from_def)
    with a l h1 False assms wf show ?thesis by (auto simp: alloc_memblock_unfold)
  next
    assume "alloc_loop ds (memblock_round sz) (mask (max k 5)) off h = Some (0, h1)"
    with h1 False assms wf consistent_wf [OF h1(1)] show ?thesis by (auto simp: alloc_memblock_unfold)
  qed
qed

end

text \<open>The pool with no discarder: a single scan.\<close>

interpretation no_cache: cache_discarders "[]" "\<lambda>_. 0" "\<lambda>h. blocks_wf (free_blocks h)"
  by unfold_locales simp_all


lemma alloc_loop_no_cache:
  "blocks_wf (free_blocks h) \<Longrightarrow> alloc_loop [] n m off h =
     (case alloc_scan n m off (free_blocks h) of
        Some (p, bl) \<Rightarrow> Some (p, alloc_effect n bl h) | None \<Rightarrow> Some (0, h))"
  by (subst alloc_loop_step) (simp split: option.splits)

lemma alloc_no_cache_cases:
  assumes "blocks_wf (free_blocks h)" "sz \<noteq> 0" "align = 2 ^ k" "k < 64"
  shows "alloc_memblock [] sz align off h = Some (0, h) \<and>
           (memblock_round sz = 0 \<or>
            alloc_scan (memblock_round sz) (mask (max k 5)) off (free_blocks h) = None) \<or>
         (\<exists>p bl. alloc_scan (memblock_round sz) (mask (max k 5)) off (free_blocks h) = Some (p, bl) \<and>
            memblock_round sz \<noteq> 0 \<and>
            alloc_memblock [] sz align off h = Some (p, alloc_effect (memblock_round sz) bl h) \<and>
            allocated_from p sz align off h (alloc_effect (memblock_round sz) bl h))"
proof (cases "memblock_round sz = 0")
  case True
  with assms show ?thesis by (simp add: alloc_memblock_unfold)
next
  case False
  show ?thesis
  proof (cases "alloc_scan (memblock_round sz) (mask (max k 5)) off (free_blocks h)")
    case None
    with assms False show ?thesis by (simp add: alloc_memblock_unfold alloc_loop_no_cache)
  next
    case (Some r)
    obtain p bl where r: "r = (p, bl)" by (cases r)
    note a = alloc_scan_allocated [OF assms(1) False assms(3) Some [unfolded r]]
    then have "check_blocks (alloc_effect (memblock_round sz) bl h) = alloc_effect (memblock_round sz) bl h"
      by (simp add: allocated_from_def)
    with assms False Some r a show ?thesis
      by (simp add: alloc_memblock_unfold alloc_loop_no_cache)
  qed
qed

section \<open>Properties\<close>


text \<open>
  C7. Completeness of allocation.  \<open>alloc_memblock\<close> returns NULL only when the rounded-up
  size overflows or when no run of that many free addresses starts at a suitably aligned
  address.
\<close>

theorem alloc_memblock_complete:
  assumes "blocks_wf (free_blocks h)" "sz \<noteq> 0" "align = 2 ^ k" "k < 64"
    and "alloc_memblock [] sz align off h = Some (0, h')"
  shows "unat sz > 18446744073709551584 \<or>
    \<not> (\<exists>q. (q - off) AND mask (max k 5) = 0 \<and>
          {unat q ..< unat q + unat (memblock_round sz)} \<subseteq> free_range (free_blocks h))"
proof (rule disjCI)
  assume "\<not> \<not> (\<exists>q. (q - off) AND mask (max k 5) = 0 \<and>
          {unat q ..< unat q + unat (memblock_round sz)} \<subseteq> free_range (free_blocks h))"
  then obtain q where q: "(q - off) AND mask (max k 5) = 0"
      "{unat q ..< unat q + unat (memblock_round sz)} \<subseteq> free_range (free_blocks h)" by blast
  show "unat sz > 18446744073709551584"
  proof (rule ccontr)
    assume small: "\<not> ?thesis"
    then have n: "memblock_round sz \<noteq> 0"
      using assms(2) by (auto simp: memblock_round_unat simp flip: unat_eq_zero)
    then have pos: "0 < unat (memblock_round sz)" by (simp add: unat_gt_0)
    obtain b where b: "b \<in> set (free_blocks h)" "unat (mb_addr b) \<le> unat q"
        "unat q + unat (memblock_round sz) \<le> blk_end b"
      using run_in_one_block [OF assms(1) q(2) pos] .
    have "block_fits (memblock_round sz) (mask (max k 5)) off b"
      using fits_of_hole [OF block_okD [OF b(1) assms(1)] b(2,3) q(1)] .
    then have "alloc_scan (memblock_round sz) (mask (max k 5)) off (free_blocks h) \<noteq> None"
      using b(1) by (auto simp: alloc_scan_None_iff)
    with alloc_no_cache_cases [OF assms(1-4), of off] n assms(5) show False
      by (auto simp: allocated_from_def)
  qed
qed

text \<open>
  C8. Freeing gives the block back.  \<open>free_memblock\<close> of a block that is not free succeeds,
  adds exactly the block's addresses to the free list, keeps the list ordered and fully
  merged, and no assertion of the allocator fails.
\<close>

theorem free_memblock_correct:
  assumes "blocks_wf (free_blocks h)" "freeable p sz h"
  shows "\<exists>h'. free_memblock p sz h = Some h' \<and> blocks_wf (free_blocks h') \<and>
    free_range (free_blocks h') =
      free_range (free_blocks h) \<union> {unat p ..< unat p + unat (memblock_round sz)} \<and>
    freemem h' + usedmem h' = freemem h + usedmem h \<and>
    assertion_failures h' = assertion_failures h \<and> mem h' = mem h"
proof -
  obtain bl where
    "free_memblock p sz h = Some (h\<lparr>free_blocks := bl, freemem := freemem h + memblock_round sz,
                                     usedmem := usedmem h - memblock_round sz\<rparr>)"
    "blocks_wf bl"
    "free_range bl = {unat p ..< unat p + unat (memblock_round sz)} \<union> free_range (free_blocks h)"
    using free_memblock_spec [OF assms] .
  then show ?thesis by (simp add: Un_commute)
qed

definition blocks_aligned :: "memory_block list \<Rightarrow> bool" where
  "blocks_aligned bl \<longleftrightarrow> (\<forall>b\<in>set bl. unat (mb_addr b) mod 32 = 0 \<and> unat (mb_size b) mod 32 = 0)"

lemma pre_size_mod32:
  fixes a off :: u64
  assumes "unat a mod 32 = 0" "unat off mod 32 = 0" "5 \<le> k"
  shows "unat ((off - a) AND mask k) mod 32 = 0"
proof -
  have d: "(32 :: nat) dvd 2 ^ k"
    using assms(3) le_imp_power_dvd [of 5 k "2 :: nat"] by simp
  have "(off - a) AND mask 5 = 0"
  proof -
    have "off AND mask 5 = 0" "a AND mask 5 = 0"
      using assms(1,2) by (simp_all add: unat_and_mask flip: unat_eq_zero)
    moreover have "(off - a) AND mask 5 = ((off AND mask 5) - (a AND mask 5)) AND mask 5"
      by (simp only: mask_eqs)
    ultimately show ?thesis by simp
  qed
  then have "unat (off - a) mod 32 = 0"
    using unat_and_mask [of "off - a" 5] by simp
  then show ?thesis using d by (simp add: unat_and_mask mod_mod_cancel)
qed

lemma alloc_scan_no_leak:
  assumes wf: "blocks_wf bl" and al: "blocks_aligned bl" and n: "0 < unat n" "unat n mod 32 = 0"
    and k: "5 \<le> k" and off: "unat off mod 32 = 0"
    and sc: "alloc_scan n (mask k) off bl = Some (p, bl')"
  shows "free_range bl' \<union> {unat p ..< unat p + unat n} = free_range bl"
proof -
  obtain b leak where b: "b \<in> set bl" "{unat p ..< unat p + unat n} \<subseteq> block_range b"
    "free_range bl' = free_range bl - {unat p ..< unat p + unat n} - leak"
    "unat ((off - mb_addr b) AND mask k) mod 32 = 0 \<Longrightarrow> unat (mb_size b) mod 32 = 0 \<Longrightarrow>
       unat n mod 32 = 0 \<Longrightarrow> leak = {}"
    using alloc_scan_spec [OF wf n(1) sc] by metis
  have "unat (mb_addr b) mod 32 = 0" "unat (mb_size b) mod 32 = 0"
    using al b(1) by (auto simp: blocks_aligned_def)
  then have "leak = {}" using b(4) [OF pre_size_mod32 [OF _ off k]] n(2) by simp
  moreover have "block_range b \<subseteq> free_range bl" using b(1) by (auto simp: free_range_def)
  ultimately show ?thesis using b(2,3) by auto
qed


subsection \<open>A client of the allocator\<close>

text \<open>
  Any client: it allocates blocks of any size and alignment and frees, once, blocks it has
  been given.  The state is the heap and the list of live blocks with their sizes.
\<close>

type_synonym live = "(u64 \<times> u64) list"

fun live_range :: "u64 \<times> u64 \<Rightarrow> nat set" where
  "live_range (p, sz) = {unat p ..< unat p + unat (memblock_round sz)}"

declare live_range.simps [simp del]

inductive heap_step :: "heap_state \<times> live \<Rightarrow> heap_state \<times> live \<Rightarrow> bool" where
  alloc_ok: "sz \<noteq> 0 \<Longrightarrow> k < 64 \<Longrightarrow> alloc_memblock [] sz (2 ^ k) off h = Some (p, h') \<Longrightarrow> p \<noteq> 0 \<Longrightarrow>
     heap_step (h, live) (h', (p, sz) # live)"
| alloc_null: "sz \<noteq> 0 \<Longrightarrow> k < 64 \<Longrightarrow> alloc_memblock [] sz (2 ^ k) off h = Some (0, h') \<Longrightarrow>
     heap_step (h, live) (h', live)"
| free_live: "(p, sz) \<in> set live \<Longrightarrow> free_memblock p sz h = Some h' \<Longrightarrow>
     heap_step (h, live) (h', remove1 (p, sz) live)"

definition empty_heap :: "memory \<Rightarrow> heap_state" where
  "empty_heap m = \<lparr>free_blocks = [], freemem = 0, usedmem = 0, maxusedmem = 0,
                   assertion_failures = 0, mem = m\<rparr>"

inductive heap_reachable :: "u64 \<Rightarrow> heap_state \<times> live \<Rightarrow> bool" for base where
  heap_start: "init_heap base (empty_heap m) = Some h \<Longrightarrow> heap_reachable base (h, [])"
| heap_next: "heap_reachable base s \<Longrightarrow> heap_step s t \<Longrightarrow> heap_reachable base t"

definition heap_inv :: "u64 \<Rightarrow> heap_state \<times> live \<Rightarrow> bool" where
  "heap_inv base s \<longleftrightarrow>
     (case s of (h, live) \<Rightarrow>
        blocks_wf (free_blocks h) \<and> assertion_failures h = 0 \<and>
        free_range (free_blocks h) \<subseteq> {unat base ..< unat base + unat HEAP_SIZE} \<and>
        (\<forall>b \<in> set live. freeable (fst b) (snd b) h \<and>
           live_range b \<subseteq> {unat base ..< unat base + unat HEAP_SIZE}) \<and>
        sorted_wrt (\<lambda>a b. live_range a \<inter> live_range b = {}) live \<and>
        usedmem h = (\<Sum>b \<leftarrow> live. memblock_round (snd b)) \<and>
        freemem h + usedmem h = HEAP_SIZE)"

lemma heap_invD:
  assumes "heap_inv base (h, live)"
  shows "blocks_wf (free_blocks h)" "assertion_failures h = 0"
    "free_range (free_blocks h) \<subseteq> {unat base ..< unat base + unat HEAP_SIZE}"
    "b \<in> set live \<Longrightarrow> freeable (fst b) (snd b) h"
    "b \<in> set live \<Longrightarrow> live_range b \<subseteq> {unat base ..< unat base + unat HEAP_SIZE}"
    "sorted_wrt (\<lambda>a b. live_range a \<inter> live_range b = {}) live"
    "usedmem h = (\<Sum>b \<leftarrow> live. memblock_round (snd b))" "freemem h + usedmem h = HEAP_SIZE"
  using assms unfolding heap_inv_def prod.case by blast+

lemma heap_invI:
  assumes "blocks_wf (free_blocks h)" "assertion_failures h = 0"
    "free_range (free_blocks h) \<subseteq> {unat base ..< unat base + unat HEAP_SIZE}"
    "\<And>b. b \<in> set live \<Longrightarrow> freeable (fst b) (snd b) h"
    "\<And>b. b \<in> set live \<Longrightarrow> live_range b \<subseteq> {unat base ..< unat base + unat HEAP_SIZE}"
    "sorted_wrt (\<lambda>a b. live_range a \<inter> live_range b = {}) live"
    "usedmem h = (\<Sum>b \<leftarrow> live. memblock_round (snd b))" "freemem h + usedmem h = HEAP_SIZE"
  shows "heap_inv base (h, live)"
  using assms unfolding heap_inv_def prod.case by blast

lemma heap_inv_init:
  assumes "base \<noteq> 0" "unat base + 524288 < addr_limit" "init_heap base (empty_heap m) = Some h"
  shows "heap_inv base (h, [])"
proof -
  have r: "unat (memblock_round 524288) = 524288" by (simp add: memblock_round_unat)
  then have r': "memblock_round 524288 = 524288" by (intro word_unat_eq_iff [THEN iffD2]) simp
  have "freeable base 524288 (empty_heap m)"
    using assms(1,2) r by (simp add: freeable_def empty_heap_def r')
  then obtain bl where "free_memblock base 524288 (empty_heap m) =
      Some ((empty_heap m)\<lparr>free_blocks := bl, freemem := freemem (empty_heap m) + memblock_round 524288,
         usedmem := usedmem (empty_heap m) - memblock_round 524288\<rparr>)" "blocks_wf bl"
      "free_range bl = {unat base ..< unat base + unat (memblock_round 524288)} \<union>
         free_range (free_blocks (empty_heap m))"
    using free_memblock_spec [of "empty_heap m" base 524288] by (auto simp: empty_heap_def)
  note bl = this
  have "h = \<lparr>free_blocks = bl, freemem = 524288, usedmem = 0, maxusedmem = 0,
             assertion_failures = 0, mem = m\<rparr>"
    using assms(3) bl(1) by (simp add: init_heap_def mpopulate_def HEAP_SIZE_def r' empty_heap_def)
  with bl(2,3) show ?thesis
    by (simp add: heap_inv_def empty_heap_def HEAP_SIZE_def r')
qed


lemma sorted_wrt_remove1: "sorted_wrt P xs \<Longrightarrow> sorted_wrt P (remove1 x xs)"
  by (induction xs) (auto dest: notin_set_remove1 [rotated] set_remove1_subset [THEN subsetD])

lemma removed_disjoint:
  assumes "sorted_wrt (\<lambda>a b. live_range a \<inter> live_range b = {}) xs" "x \<in> set xs"
    "y \<in> set (remove1 x xs)"
  shows "live_range x \<inter> live_range y = {}"
  using assms
proof (induction xs)
  case (Cons a xs)
  then show ?case
    by (cases "a = x") (auto dest: set_remove1_subset [THEN subsetD] simp: Int_commute)
qed simp

lemma sum_list_remove1_word:
  fixes f :: "'b \<Rightarrow> u64"
  shows "x \<in> set xs \<Longrightarrow> sum_list (map f (remove1 x xs)) = sum_list (map f xs) - f x"
  by (induction xs) (auto simp: algebra_simps)

lemma freeable_mono:
  "freeable p sz h \<Longrightarrow> live_range (p, sz) \<inter> free_range (free_blocks h') = {} \<Longrightarrow> freeable p sz h'"
  by (simp add: freeable_def live_range.simps)

lemma freeable_disjoint: "freeable p sz h \<Longrightarrow> live_range (p, sz) \<inter> free_range (free_blocks h) = {}"
  by (simp add: freeable_def live_range.simps)

lemma allocated_fromD:
  assumes "allocated_from p sz align off h h'" "sz \<noteq> 0"
  shows "live_range (p, sz) \<subseteq> free_range (free_blocks h)"
    "free_range (free_blocks h') \<subseteq> free_range (free_blocks h) - live_range (p, sz)"
    "blocks_wf (free_blocks h')" "freeable p sz h'"
    "usedmem h' = usedmem h + memblock_round sz" "freemem h' = freemem h - memblock_round sz"
    "assertion_failures h' = assertion_failures h" "mem h' = mem h"
proof -
  have e: "h' = alloc_effect (memblock_round sz) (free_blocks h') h"
    using assms(1) by (simp add: allocated_from_def)
  show "usedmem h' = usedmem h + memblock_round sz" "freemem h' = freemem h - memblock_round sz"
    "assertion_failures h' = assertion_failures h" "mem h' = mem h"
    using arg_cong [OF e, of usedmem] arg_cong [OF e, of freemem]
      arg_cong [OF e, of assertion_failures] arg_cong [OF e, of mem] by (simp_all add: alloc_effect_def)
  show "live_range (p, sz) \<subseteq> free_range (free_blocks h)"
    "free_range (free_blocks h') \<subseteq> free_range (free_blocks h) - live_range (p, sz)"
    "blocks_wf (free_blocks h')"
    using assms(1) by (simp_all add: allocated_from_def live_range.simps)
  have "memblock_round sz \<noteq> 0" using assms by (auto simp: allocated_from_def unat_eq_zero)
  then show "freeable p sz h'" using assms by (auto simp: allocated_from_def freeable_def)
qed

lemma heap_inv_alloc:
  assumes inv: "heap_inv base (h, live)" and sz: "sz \<noteq> 0" and al: "allocated_from p sz align off h h'"
  shows "heap_inv base (h', (p, sz) # live)"
proof -
  note a = allocated_fromD [OF al sz] and i = heap_invD [OF inv]
  have o: "freeable (fst b) (snd b) h'" "live_range (p, sz) \<inter> live_range b = {}" if "b \<in> set live" for b
  proof -
    note fb = i(4) [OF that]
    have "live_range b \<inter> free_range (free_blocks h) = {}"
      using freeable_disjoint [OF fb] by simp
    then show "freeable (fst b) (snd b) h'" "live_range (p, sz) \<inter> live_range b = {}"
      using a(1,2) freeable_mono [OF fb, of h'] by (auto simp: disjoint_iff)
  qed
  show ?thesis
  proof (rule heap_invI)
    show "blocks_wf (free_blocks h')" "assertion_failures h' = 0" using a i by simp_all
    show "free_range (free_blocks h') \<subseteq> {unat base ..< unat base + unat HEAP_SIZE}"
      using a(2) i(3) by blast
    show "sorted_wrt (\<lambda>a b. live_range a \<inter> live_range b = {}) ((p, sz) # live)"
      using i(6) o(2) by simp
    show "usedmem h' = (\<Sum>b \<leftarrow> (p, sz) # live. memblock_round (snd b))" by (simp add: a(5) i(7))
    show "freemem h' + usedmem h' = HEAP_SIZE" using i(8) by (simp add: a(5,6))
    fix b assume "b \<in> set ((p, sz) # live)"
    then consider "b = (p, sz)" | "b \<in> set live" by auto
    then show "freeable (fst b) (snd b) h'"
      "live_range b \<subseteq> {unat base ..< unat base + unat HEAP_SIZE}"
      by (cases, use a(1,4) o(1) i(3,5) in \<open>simp, blast | blast\<close>)+
  qed
qed

lemma heap_inv_free:
  assumes inv: "heap_inv base (h, live)" and l: "(p, sz) \<in> set live" and f: "free_memblock p sz h = Some h'"
  shows "heap_inv base (h', remove1 (p, sz) live)"
proof -
  note i = heap_invD [OF inv]
  have fr: "freeable p sz h" using i(4) [OF l] by simp
  obtain bl where bl: "free_memblock p sz h = Some (h\<lparr>free_blocks := bl, freemem := freemem h + memblock_round sz,
         usedmem := usedmem h - memblock_round sz\<rparr>)" and wf: "blocks_wf bl"
      and r: "free_range bl = {unat p ..< unat p + unat (memblock_round sz)} \<union> free_range (free_blocks h)"
    by (rule free_memblock_spec [OF i(1) fr])
  have h': "h' = h\<lparr>free_blocks := bl, freemem := freemem h + memblock_round sz,
         usedmem := usedmem h - memblock_round sz\<rparr>" using f bl by simp
  have r: "free_range bl = live_range (p, sz) \<union> free_range (free_blocks h)"
    by (subst live_range.simps) (rule r)
  have live: "b \<in> set live" if "b \<in> set (remove1 (p, sz) live)" for b
    using that by (rule set_remove1_subset [THEN subsetD])
  show ?thesis
  proof (rule heap_invI)
    show "blocks_wf (free_blocks h')" "assertion_failures h' = 0" using wf i(2) by (simp_all add: h')
    show "free_range (free_blocks h') \<subseteq> {unat base ..< unat base + unat HEAP_SIZE}"
      using i(3) i(5) [OF l] r by (simp add: h')
    show "sorted_wrt (\<lambda>a b. live_range a \<inter> live_range b = {}) (remove1 (p, sz) live)"
      using i(6) by (rule sorted_wrt_remove1)
    show "usedmem h' = (\<Sum>b \<leftarrow> remove1 (p, sz) live. memblock_round (snd b))"
      using sum_list_remove1_word [OF l, of "\<lambda>b. memblock_round (snd b)"] by (simp add: h' i(7))
    show "freemem h' + usedmem h' = HEAP_SIZE" using i(8) by (simp add: h')
    fix b assume b: "b \<in> set (remove1 (p, sz) live)"
    show "live_range b \<subseteq> {unat base ..< unat base + unat HEAP_SIZE}" using live [OF b] by (rule i(5))
    note fb = i(4) [OF live [OF b]]
    have "live_range b \<inter> free_range (free_blocks h') = {}"
      using freeable_disjoint [OF fb] removed_disjoint [OF i(6) l b] r
      by (simp add: h' Int_Un_distrib Int_commute)
    then show "freeable (fst b) (snd b) h'" using freeable_mono [OF fb] by simp
  qed
qed

lemma heap_inv_step: "heap_step s t \<Longrightarrow> heap_inv base s \<Longrightarrow> heap_inv base t"
proof (induction rule: heap_step.induct)
  case (alloc_ok sz k off h p h' live)
  then have "blocks_wf (free_blocks h)" by (simp add: heap_inv_def)
  from alloc_no_cache_cases [OF this alloc_ok(1) refl alloc_ok(2), of off] alloc_ok(3,4)
  have "allocated_from p sz (2 ^ k) off h h'" by auto
  with alloc_ok show ?case by (intro heap_inv_alloc)
next
  case (alloc_null sz k off h h' live)
  then have "blocks_wf (free_blocks h)" by (simp add: heap_inv_def)
  from alloc_no_cache_cases [OF this alloc_null(1) refl alloc_null(2), of off] alloc_null(3)
  have "h' = h" by (auto simp: allocated_from_def)
  with alloc_null show ?case by simp
next
  case (free_live p sz live h h')
  then show ?case by (intro heap_inv_free)
qed

text \<open>
  C2. Heap safety.  However a client interleaves allocations and releases of its own blocks,
  starting from the initial heap: live blocks never overlap each other or the free list, all
  of them lie inside the heap array, the usage counters are exact, and no assertion of the
  allocator (block order, minimum size, merging, double free) ever fails.
\<close>

theorem heap_safety:
  assumes "base \<noteq> 0" "unat base + 524288 < addr_limit" "heap_reachable base s"
  shows "heap_inv base s"
  using assms(3)
proof (induction rule: heap_reachable.induct)
  case (heap_start m h)
  then show ?case using assms(1,2) by (intro heap_inv_init)
next
  case (heap_next s t)
  then show ?case by (blast intro: heap_inv_step)
qed

section \<open>Instances\<close>

definition demo_heap :: heap_state where
  "demo_heap = \<lparr>free_blocks = [\<lparr>mb_addr = 0x1000, mb_size = 0x200\<rparr>], freemem = 0x200, usedmem = 0,
     maxusedmem = 0, assertion_failures = 0, mem = (\<lambda>_. 0)\<rparr>"

definition demo_heap1 :: heap_state where
  "demo_heap1 = \<lparr>free_blocks = [\<lparr>mb_addr = 0x1040, mb_size = 0x1c0\<rparr>], freemem = 0x1c0, usedmem = 0x40,
     maxusedmem = 0x40, assertion_failures = 0, mem = (\<lambda>_. 0)\<rparr>"

lemmas heap_eval = alloc_memblock_def free_memblock_def Let_def assert_that_def check_blocks_def
  memblock_round_def MIN_MEMBLOCK_SIZE_def sizeof_memory_block_def alloc_loop_step alloc_scan.simps
  discard_cache.simps check_blocks_from.simps virt_to_phys_def alloc_effect_def free_scan.simps
  check_double_free.simps NOWHERE_def HEAP_SIZE_def

lemma demo_wf: "blocks_wf (free_blocks demo_heap)" "blocks_aligned (free_blocks demo_heap)"
  "blocks_wf (free_blocks demo_heap1)"
  by (simp_all add: demo_heap_def demo_heap1_def blocks_wf_def block_ok_def blk_end_def blocks_aligned_def)

lemma demo_alloc:
  "alloc_memblock [] 40 16 0 demo_heap = Some (0x1000, demo_heap1)"
  "alloc_memblock [] 1000 16 0 demo_heap = Some (0, demo_heap)"
  by (simp_all add: demo_heap_def demo_heap1_def heap_eval)

lemma demo_freeable: "freeable 0x1000 40 demo_heap1"
  by (simp add: freeable_def demo_heap1_def heap_eval free_range_def block_range_def blk_end_def)


theorem alloc_memblock_complete_witness:
  "\<not> (\<exists>q :: u64. (q - 0) AND mask (max 4 5) = 0 \<and>
       {unat q ..< unat q + unat (memblock_round 1000)} \<subseteq> free_range (free_blocks demo_heap))"
  using alloc_memblock_complete [OF demo_wf(1) _ _ _ demo_alloc(2), of 4] by simp

theorem free_memblock_correct_witness:
  "\<exists>h'. free_memblock 0x1000 40 demo_heap1 = Some h' \<and> blocks_wf (free_blocks h') \<and>
     free_range (free_blocks h') = free_range (free_blocks demo_heap1) \<union> {0x1000 ..< 0x1040}"
  using free_memblock_correct [OF demo_wf(3) demo_freeable] by (simp add: heap_eval) blast


lemma demo_reachable:
  "\<exists>h h1 h2. init_heap 0x1000 (empty_heap (\<lambda>_. 0)) = Some h \<and>
     alloc_memblock [] 40 (2 ^ 4) 0 h = Some (0x1000, h1) \<and> free_blocks h1 = [\<lparr>mb_addr = 0x1040, mb_size = 0x7ffc0\<rparr>] \<and>
     free_memblock 0x1000 40 h1 = Some h2"
  by (simp add: heap_eval init_heap_def mpopulate_def empty_heap_def)

theorem heap_safety_witness:
  "\<exists>h. heap_reachable 0x1000 (h, [(0x1000, 40)]) \<and> heap_inv 0x1000 (h, [(0x1000, 40)]) \<and>
     free_blocks h = [\<lparr>mb_addr = 0x1040, mb_size = 0x7ffc0\<rparr>]"
proof -
  obtain h h1 where h: "init_heap 0x1000 (empty_heap (\<lambda>_. 0)) = Some h"
     "alloc_memblock [] 40 (2 ^ 4) 0 h = Some (0x1000, h1)" "free_blocks h1 = [\<lparr>mb_addr = 0x1040, mb_size = 0x7ffc0\<rparr>]"
    using demo_reachable by metis
  have "heap_reachable 0x1000 (h1, [(0x1000, 40)])"
    by (rule heap_next [OF heap_start [OF h(1)] alloc_ok [OF _ _ h(2)]]) simp_all
  then show ?thesis using heap_safety [of "0x1000" "(h1, [(0x1000, 40)])"] h(3) by (intro exI [of _ h1]) simp
qed

section \<open>The malloc family\<close>

lemma bit_byte_of:
  "bit (push_bit m (ucast (ucast (drop_bit m v :: u64) :: u8)) :: u64) n \<longleftrightarrow>
     n < 64 \<and> m \<le> n \<and> n < m + 8 \<and> bit v n"
  by (auto simp: bit_simps)

lemma load64_store64 [simp]: "load64 (store64 m p v) p = v"
proof (rule bit_word_eqI)
  fix n assume n: "n < LENGTH(64)"
  have st: "store64 m p v (p + of_nat k) = ucast (drop_bit (8 * k) v)" if "k < 8" for k
  proof -
    have "unat (of_nat k :: u64) = k" using that by (simp add: unat_of_nat)
    then show ?thesis using that by (simp add: store64_def word_less_nat_alt)
  qed
  have "load64 (store64 m p v) p =
      push_bit 0 (ucast (ucast (drop_bit 0 v) :: u8)) OR push_bit 8 (ucast (ucast (drop_bit 8 v) :: u8))
      OR push_bit 16 (ucast (ucast (drop_bit 16 v) :: u8)) OR push_bit 24 (ucast (ucast (drop_bit 24 v) :: u8))
      OR push_bit 32 (ucast (ucast (drop_bit 32 v) :: u8)) OR push_bit 40 (ucast (ucast (drop_bit 40 v) :: u8))
      OR push_bit 48 (ucast (ucast (drop_bit 48 v) :: u8)) OR push_bit 56 (ucast (ucast (drop_bit 56 v) :: u8))"
    using st [of 0] st [of 1] st [of 2] st [of 3] st [of 4] st [of 5] st [of 6] st [of 7]
    by (simp add: load64_def)
  then show "bit (load64 (store64 m p v) p) n = bit v n"
    using n by (simp only: bit_or_iff bit_byte_of) auto
qed

lemma store64_other: "unat p + 8 \<le> unat a \<or> unat a < unat p \<Longrightarrow> unat p + 8 < 18446744073709551616 \<Longrightarrow> store64 m p v a = m a"
proof -
  assume a: "unat p + 8 \<le> unat a \<or> unat a < unat p" "unat p + 8 < 18446744073709551616"
  have "\<not> unat (a - p) < 8"
  proof
    assume l: "unat (a - p) < 8"
    have "unat (p + (a - p)) = unat p + unat (a - p)" using l a(2) by (intro unat_add64) linarith
    then show False using a l by simp
  qed
  then show ?thesis by (simp add: store64_def word_less_nat_alt)
qed

text \<open>The first half of \<open>realloc\<close> gives a block preceded by its total size.\<close>

lemma realloc_new_cases:
  assumes "blocks_wf (free_blocks h)" "sz \<noteq> 0" "unat sz + 8 < 18446744073709551616"
  shows "realloc_new [] sz h = Some (None, h) \<or>
    (\<exists>q h1. allocated_from q (sz + 8) 1 0 h h1 \<and>
       realloc_new [] sz h = Some (Some (q + 8), h1\<lparr>mem := store64 (mem h) q (sz + 8)\<rparr>) \<and>
       alloc_memblock [] (sz + 8) 1 0 h = Some (q, h1))"
proof -
  have n: "sz + 8 \<noteq> 0" "\<not> sz + 8 < sz"
    using assms(3) by (auto simp: word_less_nat_alt unat_add64 word_unat_eq_iff)
  consider "alloc_memblock [] (sz + 8) 1 0 h = Some (0, h)"
    | q h1 where "alloc_memblock [] (sz + 8) 1 0 h = Some (q, h1)" "allocated_from q (sz + 8) 1 0 h h1"
    using alloc_no_cache_cases [OF assms(1) n(1), of 1 0 0] by auto
  then show ?thesis
  proof cases
    case 1
    then show ?thesis using assms(2) n
      by (simp add: realloc_new_def autosized_data_offset_def Let_def)
  next
    case 2
    then have "q \<noteq> 0" "mem h1 = mem h"
      using allocated_fromD(8) [OF 2(2) n(1)] by (simp_all add: allocated_from_def)
    then show ?thesis using assms(2) n 2
      by (auto simp: realloc_new_def autosized_data_offset_def Let_def)
  qed
qed

lemma malloc_cases:
  assumes "blocks_wf (free_blocks h)" "sz \<noteq> 0" "unat sz + 8 < 18446744073709551616"
  shows "malloc [] sz h = Some (0, h) \<or>
    (\<exists>q h1. allocated_from q (sz + 8) 1 0 h h1 \<and>
       malloc [] sz h = Some (q + 8, h1\<lparr>mem := store64 (mem h) q (sz + 8)\<rparr>) \<and>
       alloc_memblock [] (sz + 8) 1 0 h = Some (q, h1))"
  using realloc_new_cases [OF assms] by (auto simp: malloc_def realloc_def)

lemma load64_cong:
  assumes "\<And>k. k < 8 \<Longrightarrow> m (p + of_nat k) = m' (p + of_nat k)"
  shows "load64 m p = load64 m' p"
  using assms [of 0] assms [of 1] assms [of 2] assms [of 3] assms [of 4] assms [of 5] assms [of 6] assms [of 7]
  by (simp add: load64_def)

lemma unat_add_nat64: "unat p + k < 18446744073709551616 \<Longrightarrow> unat (p + of_nat k :: u64) = unat p + k"
  by (simp add: unat_add64 unat_of_nat)

lemma memcpy_in:
  assumes "k < unat len" "unat dest + unat len < 18446744073709551616"
  shows "memcpy m dest src len (dest + of_nat k) = m (src + of_nat k)"
proof -
  have "unat (of_nat k :: u64) = k" using less_trans [OF assms(1) unat_lt64] by (simp add: unat_of_nat)
  then show ?thesis using assms(1) by (simp add: memcpy_def word_less_nat_alt)
qed

lemma memcpy_out:
  assumes "unat a < unat dest \<or> unat dest + unat len \<le> unat a" "unat dest + unat len < 18446744073709551616"
  shows "memcpy m dest src len a = m a"
proof -
  have "\<not> unat (a - dest) < unat len"
  proof
    assume l: "unat (a - dest) < unat len"
    have "unat (dest + (a - dest)) = unat dest + unat (a - dest)"
      using l assms(2) by (intro unat_add64) linarith
    then show False using assms l by simp
  qed
  then show ?thesis by (simp add: memcpy_def word_less_nat_alt)
qed

text \<open>A block of the malloc family: \<open>sz\<close> bytes at \<open>p\<close>, preceded by the total size.\<close>

definition autosized :: "u64 \<Rightarrow> u64 \<Rightarrow> 'a heap_state_scheme \<Rightarrow> bool" where
  "autosized p sz h \<longleftrightarrow>
     8 < unat p \<and> p \<noteq> NOWHERE \<and> unat sz + 8 < 18446744073709551616 \<and> load64 (mem h) (p - 8) = sz + 8 \<and>
     freeable (p - 8) (sz + 8) h"

lemma autosizedD:
  assumes "autosized p sz h"
  shows "unat (p - 8) = unat p - 8" "8 < unat p" "unat (sz + 8) = unat sz + 8" "sz + 8 \<noteq> 0"
    "unat p + unat sz < addr_limit"
    "{unat p - 8 ..< unat p + unat sz} \<inter> free_range (free_blocks h) = {}" "sz + 8 - 8 = sz" "p \<noteq> 0"
proof -
  note a = assms [unfolded autosized_def]
  have p: "unat (p - 8) = unat p - 8" using a by (simp add: unat_sub64)
  have s: "unat (sz + 8) = unat sz + 8" using a by (simp add: unat_add64)
  have f: "freeable (p - 8) (sz + 8) h" using a by simp
  have r: "unat (sz + 8) \<le> unat (memblock_round (sz + 8))"
    using f by (intro memblock_round_ge) (simp add: freeable_def)
  show "unat (p - 8) = unat p - 8" "8 < unat p" "unat (sz + 8) = unat sz + 8" "sz + 8 - 8 = sz"
    using p s a by simp_all
  show "p \<noteq> 0" using a by auto
  show "sz + 8 \<noteq> 0" using f by (simp add: freeable_def)
  show "unat p + unat sz < addr_limit" using f p s r a unfolding freeable_def by linarith
  show "{unat p - 8 ..< unat p + unat sz} \<inter> free_range (free_blocks h) = {}"
  proof -
    have "{unat p - 8 ..< unat p + unat sz} \<subseteq>
        {unat (p - 8) ..< unat (p - 8) + unat (memblock_round (sz + 8))}"
      using r p s a by auto
    then show ?thesis using f unfolding freeable_def by blast
  qed
qed

lemma malloc_autosized:
  assumes "allocated_from q (sz + 8) 1 0 h h1" "unat sz + 8 < 18446744073709551616"
  shows "autosized (q + 8) sz (h1\<lparr>mem := store64 (mem h) q (sz + 8)\<rparr>)" "unat (q + 8) = unat q + 8"
    "{unat q ..< unat q + 8 + unat sz} \<subseteq> free_range (free_blocks h)"
proof -
  have z: "sz + 8 \<noteq> 0" "unat (sz + 8) = unat sz + 8" using assms(2) by (auto simp: unat_add64 word_unat_eq_iff)
  note a = assms(1) [unfolded allocated_from_def]
  have u: "unat (q + 8) = unat q + 8" using a z by (intro trans [OF unat_add64]) auto
  then show "unat (q + 8) = unat q + 8" .
  have q: "q \<noteq> 0" "unat q + 8 < addr_limit" using a z by linarith+
  then have "0 < unat q" by (simp add: unat_gt_0)
  moreover have "q + 8 \<noteq> NOWHERE"
  proof
    assume "q + 8 = NOWHERE"
    moreover have "unat NOWHERE = 18446744073709551615"
      by (simp add: NOWHERE_def unsigned_minus_1_eq_mask mask_eq_exp_minus_1)
    ultimately have "unat (q + 8) = 18446744073709551615" by (simp only:)
    then show False using u q(2) by linarith
  qed
  ultimately show "autosized (q + 8) sz (h1\<lparr>mem := store64 (mem h) q (sz + 8)\<rparr>)"
    using u assms(2) allocated_fromD(4) [OF assms(1) z(1)] by (simp add: autosized_def freeable_def)
  show "{unat q ..< unat q + 8 + unat sz} \<subseteq> free_range (free_blocks h)"
    using a z by (auto simp: subset_iff)
qed

lemma free_autosized:
  assumes "autosized p sz h" "blocks_wf (free_blocks h)"
  shows "free [] p h = free_memblock (p - 8) (sz + 8) h"
proof -
  note a = autosizedD [OF assms(1)]
  have "memcpy (mem h) NOWHERE p 0 = mem h" by (simp add: memcpy_def)
  moreover have "p \<noteq> NOWHERE" "load64 (mem h) (p - 8) = sz + 8" using assms(1) by (simp_all add: autosized_def)
  moreover have "(if sz < 0 then sz else 0) = 0" by simp
  ultimately show ?thesis using a(4,7,8)
    by (simp add: free_def realloc_def realloc_new_def autosized_data_offset_def Let_def option.map_comp o_def
        option.map_ident assert_that_def del: diff_add_cancel)
qed


end
