(* ===== verification/Strings.thy ===== *)
theory Strings
  imports IPXE_Prelude
begin

text \<open>
  Memory blocks, strings and character classes: \<^verbatim>\<open>core/string.c\<close>, \<^verbatim>\<open>core/ctype.c\<close> and
  \<^verbatim>\<open>include/ctype.h\<close>.

  The block functions work on the byte-addressed memory, since their point is the order in
  which overlapping regions are written.  The string functions take the bytes from the
  pointer to the end of the buffer, a terminating NUL included; a loop that passes the end
  of the buffer gives \<open>EFAULT_OOB\<close>.
\<close>

section \<open>Memory blocks\<close>

fun generic_memset :: "memory \<Rightarrow> u64 \<Rightarrow> u8 \<Rightarrow> nat \<Rightarrow> memory" where
  "generic_memset m dest c 0 = m"
| "generic_memset m dest c (Suc len) = generic_memset (m(dest := c)) (dest + 1) c len"

fun generic_memcpy :: "memory \<Rightarrow> u64 \<Rightarrow> u64 \<Rightarrow> nat \<Rightarrow> memory" where
  "generic_memcpy m dest src 0 = m"
| "generic_memcpy m dest src (Suc len) = generic_memcpy (m(dest := m src)) (dest + 1) (src + 1) len"

fun generic_memcpy_reverse :: "memory \<Rightarrow> u64 \<Rightarrow> u64 \<Rightarrow> nat \<Rightarrow> memory" where
  "generic_memcpy_reverse m dest src 0 = m"
| "generic_memcpy_reverse m dest src (Suc len) =
     generic_memcpy_reverse (m(dest + of_nat len := m (src + of_nat len))) dest src len"

definition generic_memmove :: "memory \<Rightarrow> u64 \<Rightarrow> u64 \<Rightarrow> nat \<Rightarrow> memory" where
  "generic_memmove m dest src len =
     (if dest < src then generic_memcpy m dest src len else generic_memcpy_reverse m dest src len)"

fun memswap :: "memory \<Rightarrow> u64 \<Rightarrow> u64 \<Rightarrow> nat \<Rightarrow> memory" where
  "memswap m first second 0 = m"
| "memswap m first second (Suc len) =
     memswap (m(first := m second, second := m first)) (first + 1) (second + 1) len"

fun memcmp :: "u8 list \<Rightarrow> u8 list \<Rightarrow> nat \<Rightarrow> errno + int" where
  "memcmp first second 0 = Inr 0"
| "memcmp (a # first) (b # second) (Suc len) =
     (let diff = int (unat a) - int (unat b) in if diff \<noteq> 0 then Inr diff else memcmp first second len)"
| "memcmp _ _ (Suc len) = Inl EFAULT_OOB"

text \<open>Pointer results are offsets into the buffer, \<open>None\<close> for NULL.\<close>

fun memchr :: "u8 list \<Rightarrow> int \<Rightarrow> nat \<Rightarrow> errno + nat option" where
  "memchr src character 0 = Inr None"
| "memchr [] character (Suc len) = Inl EFAULT_OOB"
| "memchr (c # src) character (Suc len) =
     (if int (unat c) = character then Inr (Some 0)
      else map_sum id (map_option Suc) (memchr src character len))"

section \<open>Character classes\<close>

definition isdigit :: "int \<Rightarrow> bool" where
  "isdigit character \<longleftrightarrow> 48 \<le> character \<and> character \<le> 57"

definition isxdigit :: "int \<Rightarrow> bool" where
  "isxdigit character \<longleftrightarrow>
     (48 \<le> character \<and> character \<le> 57) \<or> (65 \<le> character \<and> character \<le> 70) \<or>
     (97 \<le> character \<and> character \<le> 102)"

definition isupper :: "int \<Rightarrow> bool" where
  "isupper character \<longleftrightarrow> 65 \<le> character \<and> character \<le> 90"

definition islower :: "int \<Rightarrow> bool" where
  "islower character \<longleftrightarrow> 97 \<le> character \<and> character \<le> 122"

definition isalpha :: "int \<Rightarrow> bool" where
  "isalpha character \<longleftrightarrow> isupper character \<or> islower character"

definition isalnum :: "int \<Rightarrow> bool" where
  "isalnum character \<longleftrightarrow> isalpha character \<or> isdigit character"

definition isprint :: "int \<Rightarrow> bool" where
  "isprint character \<longleftrightarrow> 32 \<le> character \<and> character \<le> 126"

definition tolower :: "int \<Rightarrow> int" where
  "tolower character = (if isupper character then character - 65 + 97 else character)"

definition toupper :: "int \<Rightarrow> int" where
  "toupper character = (if islower character then character - 97 + 65 else character)"

definition isspace :: "int \<Rightarrow> bool" where
  "isspace character \<longleftrightarrow> character \<in> {32, 12, 10, 13, 9, 11}"

section \<open>Strings\<close>

text \<open>\<^verbatim>\<open>~( ( size_t ) 0 )\<close>\<close>

definition SIZE_MAX :: nat where "SIZE_MAX = 18446744073709551615"

fun strncmp :: "u8 list \<Rightarrow> u8 list \<Rightarrow> nat \<Rightarrow> errno + int" where
  "strncmp first second mx =
     (if mx = 0 then Inr 0
      else case (first, second) of
        (a # first', b # second') \<Rightarrow>
          (let diff = int (unat a) - int (unat b)
           in if diff \<noteq> 0 then Inr diff
              else if a = 0 then Inr 0
              else strncmp first' second' (mx - 1))
      | _ \<Rightarrow> Inl EFAULT_OOB)"

definition strcmp :: "u8 list \<Rightarrow> u8 list \<Rightarrow> errno + int" where
  "strcmp first second = strncmp first second SIZE_MAX"

fun strcasecmp :: "u8 list \<Rightarrow> u8 list \<Rightarrow> errno + int" where
  "strcasecmp (a # first) (b # second) =
     (let diff = toupper (int (unat a)) - toupper (int (unat b))
      in if diff \<noteq> 0 then Inr diff else if a = 0 then Inr 0 else strcasecmp first second)"
| "strcasecmp _ _ = Inl EFAULT_OOB"

fun strnlen :: "u8 list \<Rightarrow> nat \<Rightarrow> errno + nat" where
  "strnlen src mx =
     (if mx = 0 then Inr 0
      else case src of
        [] \<Rightarrow> Inl EFAULT_OOB
      | c # src' \<Rightarrow> if c = 0 then Inr 0 else map_sum id Suc (strnlen src' (mx - 1)))"

definition strlen :: "u8 list \<Rightarrow> errno + nat" where
  "strlen src = strnlen src SIZE_MAX"

fun strchr :: "u8 list \<Rightarrow> int \<Rightarrow> errno + nat option" where
  "strchr [] character = Inl EFAULT_OOB"
| "strchr (c # src) character =
     (if int (unat c) = character then Inr (Some 0)
      else if c = 0 then Inr None
      else map_sum id (map_option Suc) (strchr src character))"

text \<open>The backward loop of \<^verbatim>\<open>strrchr()\<close>, with \<open>n\<close> bytes left before the current position.\<close>

fun strrchr_back :: "u8 list \<Rightarrow> int \<Rightarrow> nat \<Rightarrow> nat option" where
  "strrchr_back src character 0 = None"
| "strrchr_back src character (Suc n) =
     (if int (unat (src ! n)) = character then Some n else strrchr_back src character n)"

fun skip_to_nul :: "u8 list \<Rightarrow> errno + nat" where
  "skip_to_nul [] = Inl EFAULT_OOB"
| "skip_to_nul (c # src) = (if c = 0 then Inr 0 else map_sum id Suc (skip_to_nul src))"

definition strrchr :: "u8 list \<Rightarrow> int \<Rightarrow> errno + nat option" where
  "strrchr src character = map_sum id (strrchr_back src character) (skip_to_nul src)"

fun strstr_loop :: "u8 list \<Rightarrow> u8 list \<Rightarrow> nat \<Rightarrow> errno + nat option" where
  "strstr_loop [] needle len = Inl EFAULT_OOB"
| "strstr_loop (c # haystack) needle len =
     (if c = 0 then Inr None
      else bind_err (memcmp (c # haystack) needle len) (\<lambda>diff.
        if diff = 0 then Inr (Some 0)
        else map_sum id (map_option Suc) (strstr_loop haystack needle len)))"

definition strstr :: "u8 list \<Rightarrow> u8 list \<Rightarrow> errno + nat option" where
  "strstr haystack needle = bind_err (strlen needle) (strstr_loop haystack needle)"

fun strcpy :: "u8 list \<Rightarrow> u8 list \<Rightarrow> errno + u8 list" where
  "strcpy (d # dest) (c # src) = (if c = 0 then Inr (c # dest) else map_sum id ((#) c) (strcpy dest src))"
| "strcpy _ _ = Inl EFAULT_OOB"

fun strncpy :: "u8 list \<Rightarrow> u8 list \<Rightarrow> nat \<Rightarrow> errno + u8 list" where
  "strncpy dest src 0 = Inr dest"
| "strncpy (d # dest) (c # src) (Suc mx) =
     (if c = 0 then map_sum id ((#) 0) (write_list dest 0 (replicate mx 0))
      else map_sum id ((#) c) (strncpy dest src mx))"
| "strncpy _ _ (Suc mx) = Inl EFAULT_OOB"

definition strcat :: "u8 list \<Rightarrow> u8 list \<Rightarrow> errno + u8 list" where
  "strcat dest src =
     bind_err (strlen dest) (\<lambda>n. map_sum id (\<lambda>d. take n dest @ d) (strcpy (drop n dest) src))"

text \<open>
  Duplication allocates \<open>len + 1\<close> bytes; \<open>alloc\<close> says whether \<^verbatim>\<open>malloc()\<close> succeeds, and
  \<open>None\<close> is NULL.
\<close>

definition strndup :: "(nat \<Rightarrow> bool) \<Rightarrow> u8 list \<Rightarrow> nat \<Rightarrow> errno + u8 list option" where
  "strndup alloc src mx =
     bind_err (strnlen src mx) (\<lambda>len.
       if alloc (len + 1) then map_sum id (\<lambda>d. Some (d @ [0])) (read_list src 0 len) else Inr None)"

definition strdup :: "(nat \<Rightarrow> bool) \<Rightarrow> u8 list \<Rightarrow> errno + u8 list option" where
  "strdup alloc src = strndup alloc src SIZE_MAX"

section \<open>Numbers\<close>

definition digit_value :: "u32 \<Rightarrow> u32" where
  "digit_value character =
     (if character \<ge> 97 then character - (97 - 10)
      else if character \<ge> 65 then character - (65 - 10)
      else if character \<le> 57 then character - 48
      else character)"

text \<open>A \<^verbatim>\<open>char\<close> is signed, and is sign-extended when it is passed as an \<^verbatim>\<open>unsigned int\<close>.\<close>

definition char_arg :: "u8 \<Rightarrow> u32" where
  "char_arg c = scast c"

fun skip_space :: "u8 list \<Rightarrow> u8 list" where
  "skip_space [] = []"
| "skip_space (c # s) = (if isspace (sint c) then skip_space s else c # s)"

text \<open>The remaining string, whether to negate, and the base.\<close>

definition strtoul_pre :: "u8 list \<Rightarrow> nat \<Rightarrow> errno + u8 list \<times> bool \<times> nat" where
  "strtoul_pre str base =
     (let str = skip_space str
      in bind_err (rd str 0) (\<lambda>c.
         let negate = (c = 45);
             str = (if c = 45 \<or> c = 43 then drop 1 str else str)
         in if base = 0 then
              bind_err (rd str 0) (\<lambda>c.
                if c = 48 then
                  bind_err (rd str 1) (\<lambda>x.
                    if x AND NOT 0x20 = 88 then Inr (drop 2 str, negate, 16)
                    else Inr (drop 1 str, negate, 8))
                else Inr (str, negate, 10))
            else Inr (str, negate, base)))"

fun strtoul_digits :: "u8 list \<Rightarrow> nat \<Rightarrow> u64 \<Rightarrow> errno + u64 \<times> u8 list" where
  "strtoul_digits [] base value = Inl EFAULT_OOB"
| "strtoul_digits (c # s) base value =
     (let digit = digit_value (char_arg c)
      in if unat digit \<ge> base then Inr (value, c # s)
         else strtoul_digits s base (value * of_nat base + ucast digit))"

definition strtoul :: "u8 list \<Rightarrow> nat \<Rightarrow> errno + u64 \<times> u8 list" where
  "strtoul str base =
     bind_err (strtoul_pre str base) (\<lambda>(str, negate, base).
     bind_err (strtoul_digits str base 0) (\<lambda>(value, rest).
       Inr (if negate then - value else value, rest)))"

text \<open>\<^verbatim>\<open>unsigned long\<close> and \<^verbatim>\<open>unsigned long long\<close> have the same width here.\<close>

definition strtoull :: "u8 list \<Rightarrow> nat \<Rightarrow> errno + u64 \<times> u8 list" where
  "strtoull str base =
     bind_err (strtoul_pre str base) (\<lambda>(str, negate, base).
     bind_err (strtoul_digits str base 0) (\<lambda>(value, rest).
       Inr (if negate then - value else value, rest)))"

declare strncmp.simps [simp del] strnlen.simps [simp del]

section \<open>Block copies\<close>

text \<open>
  The copy of a whole block at once, which an overlap-safe copy is meant to be; \<open>d\<close> is the
  displacement from destination to source.
\<close>

definition block_copy :: "memory \<Rightarrow> u64 \<Rightarrow> u64 \<Rightarrow> nat \<Rightarrow> memory" where
  "block_copy m dest d len = (\<lambda>a. if unat (a - dest) < len then m (a + d) else m a)"

lemma unat_minus_one: "(x :: u64) \<noteq> 0 \<Longrightarrow> unat (x - 1) = unat x - 1"
  by (metis One_nat_def Suc_leI unat_1 unat_eq_zero unat_sub64 zero_less_iff_neq_zero)

lemma unat_minus_Suc_less:
  assumes "n < 18446744073709551616"
  shows "unat (a - (dest + 1) :: u64) < n \<longleftrightarrow> a \<noteq> dest \<and> unat (a - dest) < Suc n"
proof (cases "a = dest")
  case True
  have "unat (- 1 :: u64) = 18446744073709551615" by (simp add: unsigned_minus_1_eq_mask mask_eq_exp_minus_1)
  then show ?thesis using True assms by simp
next
  case False
  then have "0 < unat (a - dest)" by (simp add: unat_gt_0)
  moreover have "unat (a - (dest + 1)) = unat (a - dest) - 1"
    using False unat_minus_one [of "a - dest"] by (simp add: diff_diff_eq)
  ultimately show ?thesis using False by auto
qed

lemma memcpy_forward:
  assumes "unat d + n \<le> 18446744073709551616" "d \<noteq> 0"
  shows "generic_memcpy m dest (dest + d) n = block_copy m dest d n"
  using assms(1)
proof (induction n arbitrary: m dest)
  case 0
  then show ?case by (simp add: block_copy_def)
next
  case (Suc n)
  let ?m = "m(dest := m (dest + d))"
  have dn: "0 < unat d" using assms(2) by (simp add: unat_gt_0)
  then have n: "n < 18446744073709551616" using Suc.prems by simp
  have sw: "dest + d + 1 = dest + 1 + d" by simp
  have IH: "generic_memcpy m dest (dest + d) (Suc n) = block_copy ?m (dest + 1) d n"
    unfolding generic_memcpy.simps sw using Suc.prems by (intro Suc.IH) simp
  have ne: "a + d \<noteq> dest" if "unat (a - dest) < Suc n" for a
  proof
    assume "a + d = dest"
    then have "(a - dest) + d = 0" by (simp add: diff_add_eq)
    moreover have "unat ((a - dest) + d) = unat (a - dest) + unat d"
      using that Suc.prems by (intro unat_add64) simp
    ultimately show False using dn by simp
  qed
  show ?case
  proof
    fix a
    show "generic_memcpy m dest (dest + d) (Suc n) a = block_copy m dest d (Suc n) a"
      unfolding IH using ne [of a] by (auto simp: block_copy_def unat_minus_Suc_less [OF n])
  qed
qed

lemma memcpy_backward:
  assumes "unat e + n \<le> 18446744073709551616"
  shows "generic_memcpy_reverse m dest (dest - e) n = block_copy m dest (- e) n"
  using assms
proof (induction n arbitrary: m)
  case 0
  then show ?case by (simp add: block_copy_def)
next
  case (Suc n)
  let ?p = "dest + of_nat n"
  let ?m = "m(?p := m (dest - e + of_nat n))"
  have IH: "generic_memcpy_reverse ?m dest (dest - e) n = block_copy ?m dest (- e) n"
    using Suc.prems by (intro Suc.IH) simp
  have n: "unat (of_nat n :: u64) = n" using Suc.prems by (simp add: unat_of_nat)
  have ne: "a - e \<noteq> ?p" if "unat (a - dest) < n" for a
  proof
    assume "a - e = ?p"
    then have "a - dest = e + of_nat n" by (simp add: algebra_simps)
    moreover have "unat (e + of_nat n) = unat e + n"
      using Suc.prems n by (subst unat_add64) simp_all
    ultimately show False using that by simp
  qed
  have eq: "unat (a - dest) < Suc n \<longleftrightarrow> unat (a - dest) < n \<or> a = ?p" for a
  proof -
    have "unat (a - dest) = n \<longleftrightarrow> a = ?p"
      using n by (metis add_diff_cancel_left' diff_add_cancel add.commute word_unat_eq_iff)
    then show ?thesis by (auto simp: less_Suc_eq)
  qed
  show ?case
  proof
    fix a
    show "generic_memcpy_reverse m dest (dest - e) (Suc n) a = block_copy m dest (- e) (Suc n) a"
      using IH ne [of a] eq [of a] n by (auto simp: block_copy_def algebra_simps)
  qed
qed

text \<open>
  C13. \<^verbatim>\<open>memmove()\<close> copies overlapping regions correctly.  For any two regions that do not
  wrap around the address space, however they overlap, every byte of the destination gets
  the byte its source had before the call and nothing else changes.
\<close>

theorem generic_memmove_correct:
  assumes "unat dest + len \<le> 18446744073709551616" "unat src + len \<le> 18446744073709551616"
  shows "generic_memmove m dest src len =
    (\<lambda>a. if unat (a - dest) < len then m (src + (a - dest)) else m a)"
proof (cases "dest < src")
  case True
  then have "unat (src - dest) = unat src - unat dest"
    by (intro unat_sub64) (simp add: word_less_nat_alt)
  then show ?thesis
    using True assms(2) memcpy_forward [of "src - dest" len m dest]
    by (auto simp: generic_memmove_def block_copy_def algebra_simps)
next
  case False
  then have "unat (dest - src) = unat dest - unat src"
    by (intro unat_sub64) (simp add: word_less_nat_alt)
  then show ?thesis
    using False assms(1) memcpy_backward [of "dest - src" len m dest]
    by (auto simp: generic_memmove_def block_copy_def algebra_simps)
qed


section \<open>Strings\<close>

text \<open>A C string of at most \<open>SIZE_MAX\<close> bytes, and the bytes after it.\<close>

definition cstr :: "u8 list \<Rightarrow> u8 list \<Rightarrow> u8 list" where
  "cstr s rest = s @ 0 # rest"

lemma strnlen_cstr:
  assumes "0 \<notin> set s"
  shows "strnlen (cstr s rest) n = Inr (min n (length s))"
  using assms
proof (induction s arbitrary: n)
  case Nil
  then show ?case by (simp add: cstr_def strnlen.simps)
next
  case (Cons c s)
  then show ?case by (cases n) (auto simp: cstr_def strnlen.simps [of "c # _"])
qed

lemma strnlen_no_nul:
  assumes "0 \<notin> set s" "n \<le> length s"
  shows "strnlen (s @ rest) n = Inr n"
  using assms
proof (induction s arbitrary: n)
  case Nil
  then show ?case by (simp add: strnlen.simps)
next
  case (Cons c s)
  then show ?case by (cases n) (auto simp: strnlen.simps [of "c # _"] strnlen.simps [of _ 0])
qed

lemma strlen_cstr: "0 \<notin> set s \<Longrightarrow> length s \<le> SIZE_MAX \<Longrightarrow> strlen (cstr s rest) = Inr (length s)"
  by (simp add: strlen_def strnlen_cstr)

text \<open>Comparing with a string that holds no NUL stops at the end of the other one at the latest.\<close>

lemma memcmp_needle:
  assumes "0 \<notin> set h" "0 \<notin> set n"
  shows "\<exists>diff. memcmp (cstr h r) (n @ q) (length n) = Inr diff \<and> (diff = 0 \<longleftrightarrow> take (length n) h = n)"
  using assms
proof (induction n arbitrary: h)
  case Nil
  then show ?case by (simp add: cstr_def)
next
  case (Cons c n)
  show ?case
  proof (cases h)
    case Nil
    have "uint c \<noteq> 0" using Cons.prems(2) by (auto simp: uint_0_iff)
    then show ?thesis using Nil by (simp add: cstr_def)
  next
    case (Cons d h')
    then have "\<exists>diff. memcmp (cstr h' r) (n @ q) (length n) = Inr diff \<and> (diff = 0 \<longleftrightarrow> take (length n) h' = n)"
      using Cons.IH [of h'] Cons.prems by simp
    then show ?thesis using Cons by (auto simp: cstr_def Let_def dest: word_uint_eq_iff [THEN iffD2])
  qed
qed

lemma strstr_loop_cstr:
  assumes "0 \<notin> set h" "0 \<notin> set n" "n \<noteq> []"
  shows "case strstr_loop (cstr h r) (cstr n q) (length n) of
      Inl e \<Rightarrow> False
    | Inr None \<Rightarrow> \<forall>k. take (length n) (drop k h) \<noteq> n
    | Inr (Some k) \<Rightarrow> take (length n) (drop k h) = n \<and> (\<forall>j<k. take (length n) (drop j h) \<noteq> n)"
  using assms(1)
proof (induction h)
  case Nil
  then show ?case using assms(3) by (simp add: cstr_def)
next
  case (Cons c h)
  obtain diff where d: "memcmp (cstr (c # h) r) (cstr n q) (length n) = Inr diff"
      "diff = 0 \<longleftrightarrow> take (length n) (c # h) = n"
    using memcmp_needle [OF Cons.prems assms(2), of r "0 # q"] by (auto simp: cstr_def)
  have split: "(\<forall>k. P k) \<longleftrightarrow> P 0 \<and> (\<forall>k. P (Suc k))" for P :: "nat \<Rightarrow> bool"
    by (metis not0_implies_Suc)
  have c: "c \<noteq> 0" using Cons.prems by auto
  show ?case
  proof (cases "diff = 0")
    case True
    then show ?thesis using d c by (simp add: cstr_def)
  next
    case False
    have IH: "case strstr_loop (cstr h r) (cstr n q) (length n) of
        Inl e \<Rightarrow> False
      | Inr None \<Rightarrow> \<forall>k. take (length n) (drop k h) \<noteq> n
      | Inr (Some k) \<Rightarrow> take (length n) (drop k h) = n \<and> (\<forall>j<k. take (length n) (drop j h) \<noteq> n)"
      using Cons by simp
    have e: "strstr_loop (cstr (c # h) r) (cstr n q) (length n) =
        map_sum id (map_option Suc) (strstr_loop (cstr h r) (cstr n q) (length n))"
      using d False c by (simp add: cstr_def)
    show ?thesis
      using IH d False unfolding e
      by (auto simp: split [of "\<lambda>k. take (length n) (drop k (c # h)) \<noteq> n"] less_Suc_eq_0_disj
        split: sum.splits option.splits)
  qed
qed

text \<open>
  C14. \<^verbatim>\<open>strstr()\<close> finds the first occurrence.  On NUL-terminated strings and a non-empty
  needle it stays within both strings; the offset it returns is the first one at which the
  needle occurs, and NULL means that the needle does not occur.
\<close>

theorem strstr_correct:
  assumes "0 \<notin> set h" "0 \<notin> set n" "n \<noteq> []" "length n \<le> SIZE_MAX"
  shows "case strstr (cstr h r) (cstr n q) of
      Inl e \<Rightarrow> False
    | Inr None \<Rightarrow> \<forall>k. take (length n) (drop k h) \<noteq> n
    | Inr (Some k) \<Rightarrow> take (length n) (drop k h) = n \<and> (\<forall>j<k. take (length n) (drop j h) \<noteq> n)"
  using strstr_loop_cstr [OF assms(1-3), of r q] assms by (simp add: strstr_def strlen_cstr)

section \<open>Numbers\<close>

text \<open>The value of a \<^verbatim>\<open>char\<close> seen as an \<^verbatim>\<open>unsigned int\<close>.\<close>

lemma signed_take_bit_7:
  fixes k :: int
  assumes "0 \<le> k" "k < 256"
  shows "signed_take_bit 7 k = (if k < 128 then k else k - 256)"
proof (cases "k < 128")
  case True
  then show ?thesis using assms by (simp add: signed_take_bit_int_eq_self)
next
  case False
  have "take_bit (Suc 7) k = take_bit (Suc 7) (k - 256)"
    by (simp add: take_bit_eq_mod mod_diff_eq)
  then have "signed_take_bit 7 k = signed_take_bit 7 (k - 256)"
    by (simp only: signed_take_bit_eq_iff_take_bit_eq)
  then show ?thesis using False assms by (simp add: signed_take_bit_int_eq_self)
qed

lemma sint_u8: "sint (c :: u8) = (if unat c < 128 then uint c else uint c - 256)"
proof -
  have n: "unat c < 128 \<longleftrightarrow> uint c < 128"
    using of_nat_less_iff [of "unat c" 128, where ?'a = int] by simp
  have "sint c = signed_take_bit (LENGTH(8) - Suc 0) (uint c)" by (rule sint_uint)
  also have "LENGTH(8) - Suc 0 = 7" by simp
  also have "signed_take_bit 7 (uint c) = (if uint c < 128 then uint c else uint c - 256)"
    using uint_lt2p [of c] by (intro signed_take_bit_7) simp_all
  finally show ?thesis by (simp only: n)
qed

lemma sub_256_mod:
  fixes k :: int
  assumes "0 \<le> k" "k < 256"
  shows "(k - 256) mod 4294967296 = k + 4294967040"
proof -
  have "(k - 256) mod 4294967296 = (k - 256 + 4294967296) mod 4294967296"
    by (rule mod_add_self2 [symmetric])
  also have "\<dots> = k - 256 + 4294967296" using assms by (intro mod_pos_pos_trivial) auto
  finally show ?thesis by simp
qed

lemma unat_char_arg: "unat (char_arg c) = (if unat c < 128 then unat c else unat c + 4294967040)"
proof -
  have u: "uint c < 256" "0 \<le> uint c" using uint_lt2p [of c] by simp_all
  have "uint (char_arg c) = sint c mod 4294967296"
    unfolding char_arg_def scast_eq uint_word_of_int by simp
  also have "\<dots> = (if unat c < 128 then uint c else uint c + 4294967040)"
  proof (cases "unat c < 128")
    case True
    then show ?thesis using u by (simp add: sint_u8)
  next
    case False
    have "(uint c - 256) mod 4294967296 = uint c + 4294967040"
      using u by (rule sub_256_mod [rotated])
    then show ?thesis using False by (simp only: sint_u8 if_False)
  qed
  finally have "int (unat (char_arg c)) = int (if unat c < 128 then unat c else unat c + 4294967040)"
    by simp
  then show ?thesis by (simp only: of_nat_eq_iff)
qed

lemma unat_sub32: "unat b \<le> unat a \<Longrightarrow> unat (a - b :: u32) = unat a - unat b"
  by (simp add: unat_sub word_le_nat_alt)

lemma unat_sub32_wrap: "unat a < unat b \<Longrightarrow> unat (a - b :: u32) = unat a + 4294967296 - unat b"
  by (simp add: unat_sub_if_size word_size)

lemma digit_value_u8:
  "unat (digit_value (char_arg c)) =
     (if unat c < 48 then unat c + 4294967248
      else if unat c \<le> 57 then unat c - 48
      else if unat c < 65 then unat c
      else if unat c < 97 then unat c - 55
      else if unat c < 128 then unat c - 87
      else unat c + 4294966953)"
  by (simp add: digit_value_def word_le_nat_alt unat_char_arg unat_sub32 unat_sub32_wrap)

text \<open>
  The characters that stand for a digit: decimal digits, and letters of either case.
\<close>

definition is_digit_char :: "nat \<Rightarrow> u8 \<Rightarrow> bool" where
  "is_digit_char d c \<longleftrightarrow> d < 10 \<and> unat c = 48 + d \<or> 10 \<le> d \<and> (unat c = 55 + d \<or> unat c = 87 + d)"

lemma digit_value_iff:
  assumes "base \<le> 36" "d < base"
  shows "unat (digit_value (char_arg c)) = d \<longleftrightarrow> is_digit_char d c"
  using assms unat_lt8 [of c] by (auto simp: digit_value_u8 is_digit_char_def)

text \<open>
  Digits are recognised exactly.  For every base up to 36, a character has a value below
  the base exactly when it is a digit of that base, and then the value is that digit; any
  other character, including NUL and those with the top bit set, gives a value that is not
  below the base, which is what the end of every number relies on.
\<close>

theorem digit_value_correct:
  assumes "base \<le> 36"
  shows "if \<exists>d<base. is_digit_char d c then is_digit_char (unat (digit_value (char_arg c))) c
    else base \<le> unat (digit_value (char_arg c))"
  using digit_value_iff [OF assms, of _ c] by (metis not_le)

lemma of_nat_foldl_digits:
  "of_nat (foldl (\<lambda>v d. v * base + d) (unat (of_nat k :: u64)) ds) =
   (of_nat (foldl (\<lambda>v d. v * base + d) k ds) :: u64)"
  by (induction ds rule: rev_induct) simp_all

lemma strtoul_digits_spec:
  assumes "base \<le> 36" "list_all2 (\<lambda>d c. d < base \<and> is_digit_char d c) ds cs"
    and "\<forall>d < base. \<not> is_digit_char d stop"
  shows "strtoul_digits (cs @ stop # rest) base v =
    Inr (of_nat (foldl (\<lambda>v d. v * base + d) (unat v) ds), stop # rest)"
  using assms(2)
proof (induction ds cs arbitrary: v rule: list_all2_induct)
  case Nil
  have "\<not> unat (digit_value (char_arg stop)) < base"
    using assms(3) digit_value_iff [OF assms(1)] by metis
  then show ?case by (simp add: Let_def)
next
  case (Cons d ds c cs)
  have d: "unat (digit_value (char_arg c)) = d" "d < base"
    using Cons.hyps(1) digit_value_iff [OF assms(1), of d c] by blast+
  have "ucast (digit_value (char_arg c)) = (of_nat d :: u64)"
    unfolding d(1) [symmetric] by (rule of_nat_unat [symmetric])
  then have w: "v * of_nat base + ucast (digit_value (char_arg c)) = of_nat (unat v * base + d)"
    by simp
  have "strtoul_digits ((c # cs) @ stop # rest) base v =
      strtoul_digits (cs @ stop # rest) base (of_nat (unat v * base + d))"
    using d by (simp only: append_Cons strtoul_digits.simps Let_def w) simp
  then show ?case by (simp only: Cons.IH of_nat_foldl_digits foldl_Cons)
qed

section \<open>Instances\<close>

theorem generic_memmove_correct_witness:
  "generic_memmove (\<lambda>a. ucast a) 0x1002 0x1000 4 0x1005 = 3 \<and>
   generic_memmove (\<lambda>a. ucast a) 0x1002 0x1000 4 0x1006 = 6"
  using generic_memmove_correct [of "0x1002" 4 "0x1000" "\<lambda>a. ucast a"] by simp

theorem strstr_correct_witness:
  "strstr (cstr [97, 98, 99, 98, 99] []) (cstr [98, 99] []) = Inr (Some 1) \<and>
   take (length [98, 99 :: u8]) (drop 1 [97, 98, 99, 98, 99 :: u8]) = [98, 99]"
proof -
  have "strstr (cstr [97, 98, 99, 98, 99] []) (cstr [98, 99] []) = Inr (Some 1)"
    by (simp add: strstr_def strlen_cstr SIZE_MAX_def) (simp add: cstr_def)
  then show ?thesis
    using strstr_correct [of "[97, 98, 99, 98, 99]" "[98, 99]" "[]" "[]"] by (simp add: SIZE_MAX_def)
qed

theorem digit_value_correct_witness:
  "is_digit_char (unat (digit_value (char_arg 102))) 102"
proof -
  have "\<exists>d<16. is_digit_char d 102" by (intro exI [of _ 15]) (simp add: is_digit_char_def)
  then show ?thesis using digit_value_correct [of 16 102] by simp
qed
end
