(* ===== verification/Dhcpopts.thy ===== *)
theory Dhcpopts
  imports IPXE_Prelude
begin

text \<open>
  DHCP option blocks, \<^verbatim>\<open>net/dhcpopts.c\<close>.

  The memory behind \<^verbatim>\<open>options->data\<close> is the byte list \<open>opt_data\<close>; an access beyond its end
  yields \<open>EFAULT_OOB\<close>.  Option tags are natural numbers (\<^verbatim>\<open>unsigned int\<close>), an offset that C
  encodes as a negative error is the left summand of the result.  The \<^verbatim>\<open>realloc\<close> method of
  the block is a parameter of the operations that call it.
\<close>

section \<open>Data\<close>

record dhcp_options =
  opt_data :: "u8 list"
  used_len :: nat
  alloc_len :: nat

type_synonym 'a dhcp_realloc =
  "'a dhcp_options_scheme \<Rightarrow> nat \<Rightarrow> errno option \<times> 'a dhcp_options_scheme"

definition DHCP_PAD :: nat where "DHCP_PAD = 0"

definition DHCP_END :: nat where "DHCP_END = 255"

definition DHCP_MAX_OPTION :: nat where "DHCP_MAX_OPTION = 254"

definition DHCP_MAX_LEN :: nat where "DHCP_MAX_LEN = 255"

definition DHCP_OPTION_HEADER_LEN :: nat where "DHCP_OPTION_HEADER_LEN = 2"

definition DHCP_ENCAP_OPT :: "nat \<Rightarrow> nat \<Rightarrow> nat" where
  "DHCP_ENCAP_OPT encapsulator encapsulated = encapsulator * 256 + encapsulated"

definition DHCP_ENCAPSULATOR :: "nat \<Rightarrow> nat" where
  "DHCP_ENCAPSULATOR tag = tag div 256"

definition DHCP_ENCAPSULATED :: "nat \<Rightarrow> nat" where
  "DHCP_ENCAPSULATED tag = tag mod 256"

definition DHCP_IS_ENCAP_OPT :: "nat \<Rightarrow> bool" where
  "DHCP_IS_ENCAP_OPT tag \<longleftrightarrow> DHCP_ENCAPSULATOR tag \<noteq> 0"

lemmas dhcp_consts = DHCP_PAD_def DHCP_END_def DHCP_MAX_OPTION_def DHCP_MAX_LEN_def
  DHCP_OPTION_HEADER_LEN_def DHCP_ENCAP_OPT_def DHCP_ENCAPSULATOR_def DHCP_ENCAPSULATED_def
  DHCP_IS_ENCAP_OPT_def

section \<open>Operations\<close>

definition dhcp_option_len :: "u8 list \<Rightarrow> nat \<Rightarrow> errno + nat" where
  "dhcp_option_len d offset =
     bind_err (rd d offset) (\<lambda>tag.
       if unat tag = DHCP_END \<or> unat tag = DHCP_PAD then Inr 1
       else bind_err (rd d (offset + 1)) (\<lambda>len. Inr (unat len + DHCP_OPTION_HEADER_LEN)))"

lemma dhcp_option_len_pos: "dhcp_option_len d offset = Inr n \<Longrightarrow> 0 < n"
  by (auto simp: dhcp_option_len_def bind_err_eq_Inr dhcp_consts split: if_splits)

text \<open>
  The search loop; the result is the offset of the option and that of its encapsulator.
\<close>

function find_dhcp_option_loop ::
  "u8 list \<Rightarrow> nat \<Rightarrow> nat \<Rightarrow> nat \<Rightarrow> nat option \<Rightarrow> (errno + nat) \<times> nat option" where
  "find_dhcp_option_loop d tag offset remaining encap_offset =
     (if remaining = 0 then (Inl ENOENT, encap_offset)
      else case dhcp_option_len d offset of
        Inl e \<Rightarrow> (Inl e, encap_offset)
      | Inr option_len \<Rightarrow>
          (if remaining < option_len then (Inl ENOENT, encap_offset)
           else let option_tag = unat (d ! offset) in
             if option_tag = DHCP_END then
               (if tag = DHCP_END then Inr offset else Inl ENOENT, encap_offset)
             else if option_tag = tag then (Inr offset, encap_offset)
             else if DHCP_IS_ENCAP_OPT tag \<and> option_tag = DHCP_ENCAPSULATOR tag then
               find_dhcp_option_loop d (DHCP_ENCAPSULATED tag) (offset + DHCP_OPTION_HEADER_LEN)
                 option_len (Some offset)
             else
               find_dhcp_option_loop d tag (offset + option_len) (remaining - option_len)
                 encap_offset))"
  by pat_completeness auto
termination
  by (relation "measures [\<lambda>(d, tag, offset, remaining, e). if DHCP_IS_ENCAP_OPT tag then 1 else 0,
                          \<lambda>(d, tag, offset, remaining, e). remaining]")
     (auto simp: dhcp_consts dest: dhcp_option_len_pos)

definition find_dhcp_option_with_encap ::
  "'a dhcp_options_scheme \<Rightarrow> nat \<Rightarrow> nat option \<Rightarrow> (errno + nat) \<times> nat option" where
  "find_dhcp_option_with_encap options tag encap_offset =
     (if tag = DHCP_PAD then (Inl ENOENT, encap_offset)
      else find_dhcp_option_loop (opt_data options) tag 0 (used_len options) encap_offset)"

definition dhcpopt_no_realloc ::
  "'a dhcp_options_scheme \<Rightarrow> nat \<Rightarrow> errno option \<times> 'a dhcp_options_scheme" where
  "dhcpopt_no_realloc options len =
     (if len \<le> alloc_len options then None else Some ENOSPC, options)"

text \<open>The stages of \<^verbatim>\<open>resize_dhcp_option()\<close>: make room, adjust the encapsulator, move the rest.\<close>

definition expand_dhcp_block ::
  "'a dhcp_realloc \<Rightarrow> 'a dhcp_options_scheme \<Rightarrow> nat \<Rightarrow> errno option \<times> 'a dhcp_options_scheme" where
  "expand_dhcp_block realloc options new_used_len =
     (let old_alloc_len = alloc_len options
      in if new_used_len > old_alloc_len
         then case realloc options new_used_len of
                (Some e, o') \<Rightarrow> (Some e, o')
              | (None, o') \<Rightarrow>
                  (case write_list (opt_data o') old_alloc_len
                          (replicate (alloc_len o' - old_alloc_len) 0) of
                     Inl e \<Rightarrow> (Some e, o')
                   | Inr d \<Rightarrow> (None, o'\<lparr>opt_data := d\<rparr>))
         else (None, options))"

definition resize_encapsulator ::
  "'a dhcp_options_scheme \<Rightarrow> nat option \<Rightarrow> int \<Rightarrow> errno option \<times> 'a dhcp_options_scheme" where
  "resize_encapsulator options encap_offset delta =
     (case encap_offset of
        None \<Rightarrow> (None, options)
      | Some eo \<Rightarrow>
          (case rd (opt_data options) (eo + 1) of
             Inl e \<Rightarrow> (Some e, options)
           | Inr len \<Rightarrow>
               let new_encapsulator_len = size_t (int (unat len) + delta)
               in if new_encapsulator_len > DHCP_MAX_LEN then (Some ENOSPC, options)
                  else (None, options\<lparr>opt_data := (opt_data options)
                                     [eo + 1 := of_nat new_encapsulator_len]\<rparr>)))"

definition resize_dhcp_option ::
  "'a dhcp_realloc \<Rightarrow> 'a dhcp_options_scheme \<Rightarrow> nat \<Rightarrow> nat option \<Rightarrow> nat \<Rightarrow> nat
   \<Rightarrow> errno option \<times> 'a dhcp_options_scheme" where
  "resize_dhcp_option realloc options offset encap_offset old_len new_len =
     (let delta = int new_len - int old_len;
          new_used_len = size_t (int (used_len options) + delta)
      in if new_len > DHCP_MAX_LEN then (Some ENOSPC, options)
         else case expand_dhcp_block realloc options new_used_len of
           (Some e, o1) \<Rightarrow> (Some e, o1)
         | (None, o1) \<Rightarrow>
             (case resize_encapsulator o1 encap_offset delta of
                (Some e, o2) \<Rightarrow> (Some e, o2)
              | (None, o2) \<Rightarrow>
                  let o3 = o2\<lparr>used_len := new_used_len\<rparr>
                  in case memmove_list (opt_data o3) (offset + new_len) (offset + old_len)
                            (size_t (int new_used_len - int offset - int new_len)) of
                       Inl e \<Rightarrow> (Some e, o3)
                     | Inr d \<Rightarrow>
                         let o4 = o3\<lparr>opt_data := d\<rparr>
                         in if new_used_len < alloc_len o4 then realloc o4 new_used_len
                            else (None, o4)))"

text \<open>
  The middle of \<^verbatim>\<open>set_dhcp_option()\<close>: resize the option and copy in the new data.
\<close>

definition write_dhcp_option ::
  "'a dhcp_realloc \<Rightarrow> 'a dhcp_options_scheme \<Rightarrow> nat \<Rightarrow> nat option \<Rightarrow> nat \<Rightarrow> nat \<Rightarrow> u8 list
   \<Rightarrow> errno option \<times> 'a dhcp_options_scheme" where
  "write_dhcp_option realloc options offset encap_offset old_len tag data =
     (let len = length data;
          new_len = (if len \<noteq> 0 then len + DHCP_OPTION_HEADER_LEN else 0)
      in case resize_dhcp_option realloc options offset encap_offset old_len new_len of
           (Some e, o1) \<Rightarrow> (Some e, o1)
         | (None, o1) \<Rightarrow>
             if len \<noteq> 0
             then case write_list (opt_data o1) offset (of_nat tag # of_nat len # data) of
                    Inl e \<Rightarrow> (Some e, o1)
                  | Inr d \<Rightarrow> (None, o1\<lparr>opt_data := d\<rparr>)
             else (None, o1))"

text \<open>
  \<^verbatim>\<open>set_dhcp_option()\<close> calls itself to create a missing encapsulator and to delete one that
  has become empty.  An option that is not encapsulated has no encapsulator offset, so the
  test of \<open>encap_tag\<close> before the last call only serves the termination proof.
\<close>

function set_dhcp_option ::
  "'a dhcp_realloc \<Rightarrow> 'a dhcp_options_scheme \<Rightarrow> nat \<Rightarrow> u8 list
   \<Rightarrow> (errno + nat) \<times> 'a dhcp_options_scheme" where
  "set_dhcp_option realloc options tag data =
     (if tag = DHCP_PAD then (Inl ENOTTY, options)
      else
        let encap_tag = DHCP_ENCAPSULATOR tag;
            end_offset = fst (find_dhcp_option_with_encap options DHCP_END None);
            creation_offset = (case end_offset of Inl e \<Rightarrow> used_len options | Inr off \<Rightarrow> off);
            (found, encap_offset) = find_dhcp_option_with_encap options tag None;
            old_len = (case found of Inl e \<Rightarrow> Inr 0 | Inr off \<Rightarrow> dhcp_option_len (opt_data options) off)
        in if end_offset = Inl EFAULT_OOB \<or> found = Inl EFAULT_OOB \<or> old_len = Inl EFAULT_OOB
           then (Inl EFAULT_OOB, options)
           else
             let (encap, o1) =
                   (if encap_tag \<noteq> 0 \<and> encap_offset = None
                    then (case set_dhcp_option realloc options encap_tag [of_nat DHCP_END] of
                            (Inl e, o') \<Rightarrow> (Inl e, o')
                          | (Inr eo, o') \<Rightarrow> (Inr (Some eo), o'))
                    else (Inr encap_offset, options))
             in case encap of
                  Inl e \<Rightarrow> (Inl e, o1)
                | Inr encap_offset \<Rightarrow>
                    let creation_offset = (case encap_offset of
                            Some eo \<Rightarrow> eo + DHCP_OPTION_HEADER_LEN | None \<Rightarrow> creation_offset);
                        offset = (case found of Inl e \<Rightarrow> creation_offset | Inr off \<Rightarrow> off)
                    in case write_dhcp_option realloc o1 offset encap_offset (projr old_len) tag data of
                         (Some e, o2) \<Rightarrow> (Inl e, o2)
                       | (None, o2) \<Rightarrow>
                           (case encap_offset of
                              None \<Rightarrow> (Inr offset, o2)
                            | Some eo \<Rightarrow>
                                (case rd (opt_data o2) (eo + 1) of
                                   Inl e \<Rightarrow> (Inl e, o2)
                                 | Inr l \<Rightarrow>
                                     (Inr offset,
                                      if unat l \<le> 1 \<and> encap_tag \<noteq> 0
                                      then snd (set_dhcp_option realloc o2 encap_tag []) else o2))))"
  by pat_completeness auto
termination
  by (relation "measure (\<lambda>(realloc, options, tag, data). tag)") (auto simp: dhcp_consts)

definition dhcpopt_applies :: "nat \<Rightarrow> bool" where
  "dhcpopt_applies tag \<longleftrightarrow> tag \<noteq> 0 \<and> tag \<le> DHCP_ENCAP_OPT DHCP_MAX_OPTION DHCP_MAX_OPTION"

definition dhcpopt_store ::
  "'a dhcp_realloc \<Rightarrow> 'a dhcp_options_scheme \<Rightarrow> nat \<Rightarrow> u8 list
   \<Rightarrow> errno option \<times> 'a dhcp_options_scheme" where
  "dhcpopt_store realloc options tag data =
     (case set_dhcp_option realloc options tag data of
        (Inl e, o') \<Rightarrow> (Some e, o')
      | (Inr _, o') \<Rightarrow> (None, o'))"

text \<open>The result is the option's length and the bytes copied to a buffer of \<open>len\<close> bytes.\<close>

definition dhcpopt_fetch :: "'a dhcp_options_scheme \<Rightarrow> nat \<Rightarrow> nat \<Rightarrow> errno + nat \<times> u8 list" where
  "dhcpopt_fetch options tag len =
     bind_err (fst (find_dhcp_option_with_encap options tag None)) (\<lambda>offset.
     bind_err (rd (opt_data options) (offset + 1)) (\<lambda>option_len.
     bind_err (read_list (opt_data options) (offset + 2) (min len (unat option_len))) (\<lambda>d.
       Inr (unat option_len, d))))"

function update_used_len_loop :: "u8 list \<Rightarrow> nat \<Rightarrow> nat \<Rightarrow> nat \<Rightarrow> errno + nat" where
  "update_used_len_loop d offset remaining used =
     (if remaining = 0 then Inr used
      else case dhcp_option_len d offset of
        Inl e \<Rightarrow> Inl e
      | Inr option_len \<Rightarrow>
          if remaining < option_len then Inr used
          else update_used_len_loop d (offset + option_len) (remaining - option_len)
                 (if unat (d ! offset) \<noteq> DHCP_PAD then offset + option_len else used))"
  by pat_completeness auto
termination
  by (relation "measure (\<lambda>(d, offset, remaining, used). remaining)")
     (auto dest: dhcp_option_len_pos)

definition dhcpopt_update_used_len ::
  "'a dhcp_options_scheme \<Rightarrow> errno option \<times> 'a dhcp_options_scheme" where
  "dhcpopt_update_used_len options =
     (case update_used_len_loop (opt_data options) 0 (alloc_len options) 0 of
        Inl e \<Rightarrow> (Some e, options)
      | Inr used \<Rightarrow> (None, options\<lparr>used_len := used\<rparr>))"

definition dhcpopt_init ::
  "'a dhcp_options_scheme \<Rightarrow> u8 list \<Rightarrow> nat \<Rightarrow> errno option \<times> 'a dhcp_options_scheme" where
  "dhcpopt_init options data alen =
     dhcpopt_update_used_len (options\<lparr>opt_data := data, alloc_len := alen, used_len := 0\<rparr>)"

declare find_dhcp_option_loop.simps [simp del] set_dhcp_option.simps [simp del]
  update_used_len_loop.simps [simp del]

section \<open>The abstract view of an option block\<close>

text \<open>
  A well-formed block is the encoding of a list of options; pad and end markers are options
  without a value.
\<close>

type_synonym dhcp_opt = "u8 \<times> u8 list"

fun enc_opt :: "dhcp_opt \<Rightarrow> u8 list" where
  "enc_opt (t, v) = (if t = 0 \<or> t = 255 then [t] else t # of_nat (length v) # v)"

definition enc_opts :: "dhcp_opt list \<Rightarrow> u8 list" where
  "enc_opts opts = concat (map enc_opt opts)"

fun opt_valid :: "dhcp_opt \<Rightarrow> bool" where
  "opt_valid (t, v) \<longleftrightarrow> (if t = 0 \<or> t = 255 then v = [] else length v \<le> 255)"

definition opts_rep :: "'a dhcp_options_scheme \<Rightarrow> dhcp_opt list \<Rightarrow> bool" where
  "opts_rep options opts \<longleftrightarrow>
     list_all opt_valid opts \<and> used_len options \<le> length (opt_data options) \<and>
     take (used_len options) (opt_data options) = enc_opts opts"

definition opt_differs :: "nat \<Rightarrow> dhcp_opt \<Rightarrow> bool" where
  "opt_differs tag x \<longleftrightarrow> fst x \<noteq> 255 \<and> unat (fst x) \<noteq> tag"

definition opts_before :: "nat \<Rightarrow> dhcp_opt list \<Rightarrow> dhcp_opt list" where
  "opts_before tag opts = takeWhile (opt_differs tag) opts"

definition opts_from :: "nat \<Rightarrow> dhcp_opt list \<Rightarrow> dhcp_opt list" where
  "opts_from tag opts = dropWhile (opt_differs tag) opts"

text \<open>The value of the first option with a tag before the end marker.\<close>

fun opt_head :: "nat \<Rightarrow> dhcp_opt list \<Rightarrow> u8 list option" where
  "opt_head tag [] = None"
| "opt_head tag ((t, v) # _) = (if unat t = tag then Some v else None)"

definition opt_lookup :: "nat \<Rightarrow> dhcp_opt list \<Rightarrow> u8 list option" where
  "opt_lookup tag opts = opt_head tag (opts_from tag opts)"

text \<open>Replace the first option with a tag, or add one before the end marker; an empty value deletes.\<close>

definition opts_old :: "nat \<Rightarrow> dhcp_opt list \<Rightarrow> dhcp_opt list" where
  "opts_old tag opts = (case opt_lookup tag opts of None \<Rightarrow> [] | Some v \<Rightarrow> [(of_nat tag, v)])"

definition opts_rest :: "nat \<Rightarrow> dhcp_opt list \<Rightarrow> dhcp_opt list" where
  "opts_rest tag opts = (if opt_lookup tag opts = None then opts_from tag opts else tl (opts_from tag opts))"

definition opt_store :: "nat \<Rightarrow> u8 list \<Rightarrow> dhcp_opt list \<Rightarrow> dhcp_opt list" where
  "opt_store tag v opts =
     opts_before tag opts @ (if v = [] then [] else [(of_nat tag, v)]) @ opts_rest tag opts"

lemma enc_opts_simps [simp]:
  "enc_opts [] = []" "enc_opts (x # xs) = enc_opt x @ enc_opts xs"
  "enc_opts (xs @ ys) = enc_opts xs @ enc_opts ys"
  by (simp_all add: enc_opts_def)

lemma enc_opt_pos [simp]: "0 < length (enc_opt x)" "enc_opt x \<noteq> []"
  by (cases x; simp)+

lemma dhcp_option_len_enc:
  assumes "opt_valid x"
  shows "dhcp_option_len (pre @ enc_opt x @ post) (length pre) = Inr (length (enc_opt x))"
proof (cases x)
  case (Pair t v)
  with assms show ?thesis
    by (simp add: dhcp_option_len_def rd_def nth_append dhcp_consts unat8_eq split: if_splits)
qed

lemma opts_step [simp]:
  "opts_before tag [] = []" "opts_from tag [] = []"
  "opts_before tag (x # xs) = (if opt_differs tag x then x # opts_before tag xs else [])"
  "opts_from tag (x # xs) = (if opt_differs tag x then opts_from tag xs else x # xs)"
  by (simp_all add: opts_before_def opts_from_def)

lemma opts_before_from: "opts_before tag opts @ opts_from tag opts = opts"
  by (simp add: opts_before_def opts_from_def)

lemma opt_lookup_simps [simp]:
  "opt_lookup tag [] = None"
  "opt_lookup tag (x # xs) = (if opt_differs tag x then opt_lookup tag xs
     else if unat (fst x) = tag then Some (snd x) else None)"
  by (cases x; simp add: opt_lookup_def)+

lemma nth_enc [simp]: "(pre @ enc_opt x @ post) ! length pre = fst x"
  by (cases x) (simp add: nth_append)

lemma find_loop_step:
  assumes "opt_valid x" "length (enc_opt x) \<le> remaining"
  shows "find_dhcp_option_loop (pre @ enc_opt x @ post) tag (length pre) remaining e =
     (if fst x = 255 then (if tag = 255 then Inr (length pre) else Inl ENOENT, e)
      else if unat (fst x) = tag then (Inr (length pre), e)
      else if DHCP_IS_ENCAP_OPT tag \<and> unat (fst x) = DHCP_ENCAPSULATOR tag then
        find_dhcp_option_loop (pre @ enc_opt x @ post) (DHCP_ENCAPSULATED tag) (length pre + 2)
          (length (enc_opt x)) (Some (length pre))
      else find_dhcp_option_loop ((pre @ enc_opt x) @ post) tag (length (pre @ enc_opt x))
             (remaining - length (enc_opt x)) e)"
proof -
  have "0 < remaining" using assms(2) enc_opt_pos(1) [of x] by linarith
  then show ?thesis
    using assms
    by (subst find_dhcp_option_loop.simps)
       (simp add: dhcp_option_len_enc Let_def DHCP_END_def DHCP_OPTION_HEADER_LEN_def unat8_eq)
qed

lemma find_loop_enc:
  assumes "list_all opt_valid opts" "tag < 256" "opts_from tag opts \<noteq> [] \<or> k = 0"
  shows "find_dhcp_option_loop (pre @ enc_opts opts @ post) tag (length pre) (length (enc_opts opts) + k) e =
     (case opt_lookup tag opts of
        None \<Rightarrow> Inl ENOENT
      | Some v \<Rightarrow> Inr (length pre + length (enc_opts (opts_before tag opts))), e)"
  using assms
proof (induction opts arbitrary: pre)
  case Nil
  then show ?case by (subst find_dhcp_option_loop.simps) simp
next
  case (Cons x xs)
  have "opt_valid x" using Cons.prems by simp
  note step = find_loop_step [OF this, of "length (enc_opts (x # xs)) + k" pre "enc_opts xs @ post" tag e]
  have ne: "\<not> DHCP_IS_ENCAP_OPT tag" using Cons.prems(2) by (simp add: dhcp_consts)
  show ?case
  proof (cases "opt_differs tag x")
    case True
    then have "opts_from tag xs \<noteq> [] \<or> k = 0" using Cons.prems by simp
    note IH = Cons.IH [OF _ Cons.prems(2) this, of "pre @ enc_opt x"]
    show ?thesis using step IH Cons.prems True ne by (simp add: opt_differs_def split: option.splits)
  next
    case False
    then show ?thesis using step ne Cons.prems(2) by (auto simp: opt_differs_def)
  qed
qed

lemma find_loop_encap:
  assumes "list_all opt_valid opts" "DHCP_IS_ENCAP_OPT tag"
  shows "find_dhcp_option_loop (pre @ enc_opts opts @ post) tag (length pre) (length (enc_opts opts)) e =
     (case opt_lookup (DHCP_ENCAPSULATOR tag) opts of
        None \<Rightarrow> (Inl ENOENT, e)
      | Some v \<Rightarrow>
          let eo = length pre + length (enc_opts (opts_before (DHCP_ENCAPSULATOR tag) opts))
          in if DHCP_ENCAPSULATOR tag = 255 then (Inl ENOENT, e)
             else find_dhcp_option_loop (pre @ enc_opts opts @ post) (DHCP_ENCAPSULATED tag) (eo + 2)
                    (length v + 2) (Some eo))"
  using assms
proof (induction opts arbitrary: pre)
  case Nil
  then show ?case by (subst find_dhcp_option_loop.simps) simp
next
  case (Cons x xs)
  have "opt_valid x" using Cons.prems by simp
  note step = find_loop_step [OF this, of "length (enc_opts (x # xs))" pre "enc_opts xs @ post" tag e]
  have ne: "unat (fst x) \<noteq> tag" "tag \<noteq> 255" using assms(2) by (auto simp: dhcp_consts)
  have v: "length (enc_opt x) = length (snd x) + 2" if "unat (fst x) = DHCP_ENCAPSULATOR tag" "fst x \<noteq> 255"
    using that assms(2) Cons.prems(1) by (cases x) (auto simp: dhcp_consts)
  show ?case
  proof (cases "opt_differs (DHCP_ENCAPSULATOR tag) x")
    case True
    note IH = Cons.IH [of "pre @ enc_opt x"]
    show ?thesis using step IH Cons.prems True ne by (simp add: opt_differs_def Let_def add.assoc split: option.splits)
  next
    case False
    then show ?thesis using step ne Cons.prems(2) v by (auto simp: opt_differs_def Let_def unat8_eq)
  qed
qed

section \<open>Moving the rest of the block\<close>

definition adjust_encap :: "nat option \<Rightarrow> int \<Rightarrow> u8 list \<Rightarrow> u8 list" where
  "adjust_encap eo delta A =
     (case eo of
        None \<Rightarrow> A
      | Some i \<Rightarrow> A[i + 1 := of_nat (size_t (int (unat (A ! (i + 1))) + delta))])"

definition encap_fits :: "nat option \<Rightarrow> int \<Rightarrow> u8 list \<Rightarrow> bool" where
  "encap_fits eo delta A \<longleftrightarrow>
     (case eo of None \<Rightarrow> True | Some i \<Rightarrow> size_t (int (unat (A ! (i + 1))) + delta) \<le> 255)"

lemma length_adjust_encap [simp]: "length (adjust_encap eo delta A) = length A"
  by (simp add: adjust_encap_def split: option.splits)

lemma options_update_swap:
  "options\<lparr>used_len := n, opt_data := d\<rparr> = options\<lparr>opt_data := d, used_len := n\<rparr>"
  by simp

lemma memmove_rest:
  assumes d: "take n D = A @ B @ C" "n \<le> length D" and l: "length A + m + length C \<le> length D"
  shows "\<exists>X d. memmove_list D (length A + m) (length A + length B) (length C) = Inr d \<and>
    length X = m \<and> length d = length D \<and> take (length A + m + length C) d = A @ X @ C"
proof -
  have n: "n = length A + length B + length C"
    using d by (metis add.assoc append.assoc length_append length_take min_absorb2)
  have D: "D = A @ B @ C @ drop n D" by (metis append.assoc append_take_drop_id d(1))
  have "drop (length A + length B) D = C @ drop n D"
    by (metis D append.assoc append_eq_conv_conj length_append)
  then have C: "read_list D (length A + length B) (length C) = Inr C"
    using d(2) n by (simp add: read_list_ok)
  let ?d = "take (length A + m) D @ C @ drop (length A + m + length C) D"
  have w: "write_list D (length A + m) C = Inr ?d" using l by (simp add: write_list_ok)
  have A: "take (length A + m) D = A @ take m (drop (length A) D)"
    by (metis D append_eq_conv_conj take_add)
  have "length (take m (drop (length A) D)) = m" using l by simp
  then show ?thesis
    using C w A l by (intro exI [of _ "take m (drop (length A) D)"] exI [of _ ?d])
      (simp add: memmove_list_def take_add)
qed

lemma find_rep:
  assumes "opts_rep options opts" "0 < tag" "tag < 256"
  shows "find_dhcp_option_with_encap options tag e =
    (case opt_lookup tag opts of
        None \<Rightarrow> Inl ENOENT
      | Some v \<Rightarrow> Inr (length (enc_opts (opts_before tag opts))), e)"
proof -
  have d: "opt_data options = enc_opts opts @ drop (used_len options) (opt_data options)"
    using assms(1) by (metis append_take_drop_id opts_rep_def)
  have l: "used_len options = length (enc_opts opts)"
    using assms(1) by (metis length_take min_absorb2 opts_rep_def)
  have "find_dhcp_option_loop (opt_data options) tag 0 (used_len options) e =
     (case opt_lookup tag opts of
        None \<Rightarrow> Inl ENOENT
      | Some v \<Rightarrow> Inr (length (enc_opts (opts_before tag opts))), e)"
    using find_loop_enc [of opts tag 0 "[]" "drop (used_len options) (opt_data options)" e, simplified]
      assms l by (subst d) (simp add: opts_rep_def split: option.splits)
  then show ?thesis using assms(2) by (simp add: find_dhcp_option_with_encap_def DHCP_PAD_def)
qed

definition new_opt :: "nat \<Rightarrow> u8 list \<Rightarrow> u8 list" where
  "new_opt tag data = (if data = [] then [] else of_nat tag # of_nat (length data) # data)"

lemma write_dhcp_option_alt:
  "write_dhcp_option realloc options offset eo old_len tag data =
     (case resize_dhcp_option realloc options offset eo old_len (length (new_opt tag data)) of
        (Some e, o1) \<Rightarrow> (Some e, o1)
      | (None, o1) \<Rightarrow>
          (case write_list (opt_data o1) offset (new_opt tag data) of
             Inl e \<Rightarrow> (Some e, o1)
           | Inr d \<Rightarrow> (None, o1\<lparr>opt_data := d\<rparr>)))"
  by (cases "data = []")
     (simp_all add: write_dhcp_option_def new_opt_def Let_def DHCP_OPTION_HEADER_LEN_def write_list_def
       split: prod.splits option.splits)

section \<open>Abstract store and lookup\<close>

lemma opt_lookup_split:
  assumes "opt_lookup tag opts = Some v"
  shows "opts = opts_before tag opts @ (of_nat tag, v) # tl (opts_from tag opts)"
proof -
  obtain t xs where f: "opts_from tag opts = (t, v) # xs" "unat t = tag"
    using assms unfolding opt_lookup_def
    by (cases "(tag, opts_from tag opts)" rule: opt_head.cases) (auto split: if_splits)
  then have "t = of_nat tag" by auto
  with f show ?thesis using opts_before_from [of tag opts] by simp
qed

lemma opts_split: "opts_before tag opts @ opts_old tag opts @ opts_rest tag opts = opts"
  using opt_lookup_split [of tag opts, symmetric] opts_before_from [of tag opts]
  by (simp add: opts_old_def opts_rest_def split: option.splits)

lemma opt_lookup_valid:
  assumes "opt_lookup tag opts = Some v" "list_all opt_valid opts"
  shows "opt_valid (of_nat tag, v)"
proof -
  have "list_all opt_valid (opts_before tag opts @ opts_old tag opts @ opts_rest tag opts)"
    using assms(2) by (simp only: opts_split)
  then show ?thesis using assms(1) by (simp add: opts_old_def del: opt_valid.simps)
qed

lemma enc_opts_split:
  "enc_opts opts = enc_opts (opts_before tag opts) @ enc_opts (opts_old tag opts) @ enc_opts (opts_rest tag opts)"
  by (simp only: opts_split flip: enc_opts_simps)

lemma enc_opt_store:
  "0 < tag \<Longrightarrow> tag < 255 \<Longrightarrow> enc_opts (opt_store tag data opts) =
     enc_opts (opts_before tag opts) @ new_opt tag data @ enc_opts (opts_rest tag opts)"
  by (simp add: opt_store_def new_opt_def of_nat8_special)

lemma opt_lookup_None_split:
  assumes "opt_lookup tag opts = None" "tag \<noteq> 255"
  shows "opts_before 255 opts = opts_before tag opts"
    and "opts_from tag opts = [] \<longleftrightarrow> opt_lookup 255 opts = None"
  using assms by (induction opts) (auto simp: opt_differs_def unat8_eq split: if_splits)

lemma opts_before_differs: "x \<in> set (opts_before tag opts) \<Longrightarrow> opt_differs tag x"
  unfolding opts_before_def by (rule set_takeWhileD [THEN conjunct2])

lemma opts_before_append: "opts_before tag (xs @ ys) =
   (if list_all (opt_differs tag) xs then xs @ opts_before tag ys else opts_before tag xs)"
  by (induction xs) auto

lemma opt_lookup_append:
  "opt_lookup tag (xs @ ys) = (if list_all (opt_differs tag) xs then opt_lookup tag ys else opt_lookup tag xs)"
  by (induction xs) auto

lemma opt_valid_store:
  assumes "list_all opt_valid opts" "0 < tag" "tag < 255" "length v \<le> 255"
  shows "list_all opt_valid (opt_store tag v opts)"
proof -
  have "set (opts_before tag opts) \<subseteq> set opts" "set (opts_from tag opts) \<subseteq> set opts"
    unfolding opts_before_def opts_from_def by (auto dest: set_takeWhileD set_dropWhileD)
  moreover have "set (tl (opts_from tag opts)) \<subseteq> set (opts_from tag opts)"
    by (cases "opts_from tag opts") auto
  moreover have "opt_valid (of_nat tag, v)" using assms by (simp add: of_nat8_special)
  ultimately show ?thesis using assms(1) by (auto simp: opt_store_def opts_rest_def list_all_iff)
qed

lemma opt_lookup_store_same:
  assumes "v \<noteq> []" "tag < 256"
  shows "opt_lookup tag (opt_store tag v opts) = Some v"
proof -
  have "list_all (opt_differs tag) (opts_before tag opts)"
    by (simp add: list_all_iff opts_before_differs)
  then show ?thesis using assms by (simp add: opt_store_def opt_lookup_append opt_differs_def)
qed

lemma set_dhcp_option_write:
  assumes rep: "opts_rep options opts" and t: "0 < tag" "tag < 255"
  shows "set_dhcp_option realloc options tag data =
    (case write_dhcp_option realloc options (length (enc_opts (opts_before tag opts))) None
            (length (enc_opts (opts_old tag opts))) tag data of
       (Some e, o1) \<Rightarrow> (Inl e, o1)
     | (None, o1) \<Rightarrow> (Inr (length (enc_opts (opts_before tag opts))), o1))"
proof -
  let ?A = "enc_opts (opts_before tag opts)" and ?B = "enc_opts (opts_old tag opts)"
    and ?C = "enc_opts (opts_rest tag opts)" and ?D = "opt_data options"
  have d: "take (used_len options) ?D = ?A @ ?B @ ?C"
    using rep enc_opts_split [of opts tag] by (simp add: opts_rep_def)
  then have D: "?D = ?A @ ?B @ ?C @ drop (used_len options) ?D"
    by (metis append.assoc append_take_drop_id)
  have ul: "used_len options = length (?A @ ?B @ ?C)"
    using d rep by (metis length_take min_absorb2 opts_rep_def)
  have old: "(case opt_lookup tag opts of None \<Rightarrow> Inr 0 | Some v \<Rightarrow> dhcp_option_len ?D (length ?A)) = Inr (length ?B)"
  proof (cases "opt_lookup tag opts")
    case (Some v)
    have "opt_valid (of_nat tag, v)"
      using rep opt_lookup_valid [OF Some] by (simp add: opts_rep_def)
    from dhcp_option_len_enc [OF this, of ?A "?C @ drop (used_len options) ?D"]
    show ?thesis using Some D by (simp add: opts_old_def del: enc_opt.simps)
  qed (simp add: opts_old_def)
  have fe: "fst (find_dhcp_option_with_encap options 255 None) =
     (case opt_lookup 255 opts of None \<Rightarrow> Inl ENOENT | Some v \<Rightarrow> Inr (length (enc_opts (opts_before 255 opts))))"
    using find_rep [OF rep, of 255] by simp
  have off: "(case fst (find_dhcp_option_with_encap options 255 None) of Inl e \<Rightarrow> used_len options | Inr off \<Rightarrow> off) = length ?A"
    if "opt_lookup tag opts = None"
    using opt_lookup_None_split [OF that] t that
    by (auto simp: fe ul opts_old_def opts_rest_def split: option.splits)
  show ?thesis
  proof (cases "opt_lookup tag opts")
    case None
    then show ?thesis
      using t old off find_rep [OF rep t(1), of None] fe
      by (subst set_dhcp_option.simps) (simp add: dhcp_consts Let_def split: option.splits prod.splits)
  next
    case (Some v)
    then show ?thesis
      using t old find_rep [OF rep t(1), of None] fe
      by (subst set_dhcp_option.simps) (simp add: dhcp_consts Let_def split: option.splits prod.splits)
  qed
qed

section \<open>The reallocation contract\<close>

text \<open>
  What the option block relies on when it asks its owner for another size: the data that
  still fits is kept, and a refusal changes nothing.
\<close>

locale dhcp_reallocator =
  fixes realloc :: "'a dhcp_realloc"
    and blk_ok :: "'a dhcp_options_scheme \<Rightarrow> bool"
  assumes ok_len: "blk_ok options \<Longrightarrow> length (opt_data options) = alloc_len options \<and>
      used_len options \<le> alloc_len options \<and> alloc_len options < 9223372036854775808"
    and ok_update: "blk_ok options \<Longrightarrow> length d = alloc_len options \<Longrightarrow> n \<le> alloc_len options \<Longrightarrow>
      blk_ok (options\<lparr>opt_data := d, used_len := n\<rparr>)"
    and realloc_ok: "blk_ok options \<Longrightarrow> used_len options \<le> n \<Longrightarrow> realloc options n = (None, o') \<Longrightarrow>
      blk_ok o' \<and> n \<le> alloc_len o' \<and> used_len o' = used_len options \<and>
      take (min n (alloc_len options)) (opt_data o') = take (min n (alloc_len options)) (opt_data options)"
    and realloc_err: "blk_ok options \<Longrightarrow> used_len options \<le> n \<Longrightarrow> realloc options n = (Some e, o') \<Longrightarrow>
      e \<noteq> EFAULT_OOB \<and> o' = options"
begin

lemma expand_spec:
  assumes "blk_ok options" "expand_dhcp_block realloc options n = (rc, o')"
  shows "case rc of
      None \<Rightarrow> blk_ok o' \<and> n \<le> alloc_len o' \<and> used_len o' = used_len options \<and>
        take (alloc_len options) (opt_data o') = opt_data options
    | Some e \<Rightarrow> e \<noteq> EFAULT_OOB \<and> o' = options"
proof (cases "n > alloc_len options")
  case False
  then show ?thesis using assms ok_len by (auto simp: expand_dhcp_block_def Let_def)
next
  case True
  have u: "used_len options \<le> n" using True ok_len [OF assms(1)] by simp
  obtain rc1 o1 where r: "realloc options n = (rc1, o1)" by (cases "realloc options n")
  show ?thesis
  proof (cases rc1)
    case (Some e)
    then show ?thesis using assms True r realloc_err [OF assms(1) u] by (auto simp: expand_dhcp_block_def)
  next
    case None
    note s = realloc_ok [OF assms(1) u r [unfolded None]] and l = ok_len [OF assms(1)]
    have l1: "length (opt_data o1) = alloc_len o1" "alloc_len options \<le> alloc_len o1"
      using s True ok_len by auto
    let ?d = "take (alloc_len options) (opt_data o1) @ replicate (alloc_len o1 - alloc_len options) 0"
    have w: "write_list (opt_data o1) (alloc_len options) (replicate (alloc_len o1 - alloc_len options) 0) = Inr ?d"
      using l1 by (simp add: write_list_ok)
    have "blk_ok (o1\<lparr>opt_data := ?d, used_len := used_len o1\<rparr>)"
      using s l1 ok_len [of o1] by (intro ok_update) auto
    then have "blk_ok (o1\<lparr>opt_data := ?d\<rparr>)" by simp
    moreover have "o' = o1\<lparr>opt_data := ?d\<rparr>" "rc = None"
      using assms(2) True r None w by (auto simp: expand_dhcp_block_def Let_def)
    ultimately show ?thesis using s True l l1 by (simp add: min_def)
  qed
qed


lemma encap_spec:
  assumes ok: "blk_ok options" and d: "take n (opt_data options) = A @ R" and n: "n \<le> alloc_len options"
    and eo: "\<forall>i. eo = Some i \<longrightarrow> i + 1 < length A"
    and r: "resize_encapsulator options eo delta = (rc, o')"
  shows "case rc of
      None \<Rightarrow> blk_ok o' \<and> used_len o' = used_len options \<and> alloc_len o' = alloc_len options \<and>
        take n (opt_data o') = adjust_encap eo delta A @ R \<and> encap_fits eo delta A
    | Some e \<Rightarrow> e \<noteq> EFAULT_OOB \<and> o' = options"
proof (cases eo)
  case None
  then show ?thesis using assms by (auto simp: resize_encapsulator_def adjust_encap_def encap_fits_def)
next
  case (Some i)
  note l = ok_len [OF ok]
  have i: "i + 1 < length A" using eo Some by simp
  then have D: "opt_data options = A @ R @ drop n (opt_data options)"
    by (metis append.assoc append_take_drop_id d)
  have il: "i + 1 < length (opt_data options)" using i by (subst D) simp
  have nth: "opt_data options ! (i + 1) = A ! (i + 1)" using i by (subst D) (simp add: nth_append)
  let ?l = "size_t (int (unat (A ! (i + 1))) + delta)"
  let ?d = "(opt_data options)[i + 1 := of_nat ?l]"
  have t: "take n ?d = A[i + 1 := of_nat ?l] @ R"
    using i by (simp only: take_update_swap d list_update_append) simp
  have "blk_ok (options\<lparr>opt_data := ?d, used_len := used_len options\<rparr>)"
    using ok l by (intro ok_update) auto
  then have "blk_ok (options\<lparr>opt_data := ?d\<rparr>)" by simp
  then show ?thesis
    using r il t nth Some
    by (auto simp: resize_encapsulator_def adjust_encap_def encap_fits_def Let_def DHCP_MAX_LEN_def split: if_splits)
qed

lemma resize_spec:
  assumes ok: "blk_ok options" and d: "take (used_len options) (opt_data options) = A @ B @ C"
    and n: "m \<le> 255" and eo: "\<forall>i. eo = Some i \<longrightarrow> i + 1 < length A"
    and r: "resize_dhcp_option realloc options (length A) eo (length B) m = (rc, o')"
  shows "case rc of
      None \<Rightarrow> blk_ok o' \<and> used_len o' = length A + m + length C \<and>
        encap_fits eo (int m - int (length B)) A \<and>
        (\<exists>X. length X = m \<and> take (used_len o') (opt_data o') =
              adjust_encap eo (int m - int (length B)) A @ X @ C)
    | Some e \<Rightarrow> e \<noteq> EFAULT_OOB"
proof -
  let ?n = "length A + m + length C" and ?delta = "int m - int (length B)"
  note l = ok_len [OF ok]
  have u: "used_len options = length A + length B + length C"
    using d l by (metis add.assoc length_append length_take min_absorb2)
  have n1: "size_t (int (used_len options) + ?delta) = ?n"
    using u l n by (subst size_t_nat) auto
  have n2: "size_t (int ?n - int (length A) - int m) = length C"
    using u l by (subst size_t_nat) auto
  obtain rc1 o1 where x: "expand_dhcp_block realloc options ?n = (rc1, o1)"
    by (cases "expand_dhcp_block realloc options ?n")
  note s1 = expand_spec [OF ok x]
  show ?thesis
  proof (cases rc1)
    case (Some e)
    then show ?thesis using r n s1 x by (auto simp: resize_dhcp_option_def n1 DHCP_MAX_LEN_def)
  next
    case None
    have t1: "take (used_len options) (opt_data o1) = A @ B @ C"
      using s1 None l d by (simp) (metis min_absorb1 take_take)
    obtain rc2 o2 where y: "resize_encapsulator o1 eo ?delta = (rc2, o2)"
      by (cases "resize_encapsulator o1 eo ?delta")
    have ul: "used_len options \<le> alloc_len o1" using s1 None ok_len [of o1] by auto
    have s2: "case rc2 of
      None \<Rightarrow> blk_ok o2 \<and> used_len o2 = used_len o1 \<and> alloc_len o2 = alloc_len o1 \<and>
        take (used_len options) (opt_data o2) = adjust_encap eo ?delta A @ B @ C \<and> encap_fits eo ?delta A
      | Some e \<Rightarrow> e \<noteq> EFAULT_OOB \<and> o2 = o1"
      using s1 None t1 ul eo y by (intro encap_spec) auto
    show ?thesis
    proof (cases rc2)
      case (Some e)
      then show ?thesis using r n s2 x y None
        by (auto simp: resize_dhcp_option_def n1 DHCP_MAX_LEN_def)
    next
      case N2: None
      note k = s2 [unfolded N2, simplified] and k1 = s1 [unfolded None, simplified]
      have l2: "length (opt_data o2) = alloc_len o2" "alloc_len o2 < 9223372036854775808"
        using k ok_len [of o2] by auto
      obtain X dd where m: "memmove_list (opt_data o2) (length A + m) (length A + length B) (length C) = Inr dd"
        "length X = m" "length dd = length (opt_data o2)"
        "take ?n dd = adjust_encap eo ?delta A @ X @ C"
        using memmove_rest [of "used_len options" "opt_data o2" "adjust_encap eo ?delta A" B C m] k k1 l2 ul
        by auto
      let ?o4 = "o2\<lparr>opt_data := dd, used_len := ?n\<rparr>"
      have ok4: "blk_ok ?o4" using k k1 m l2 by (intro ok_update) auto
      have e: "resize_dhcp_option realloc options (length A) eo (length B) m =
          (if ?n < alloc_len o2 then realloc ?o4 ?n else (None, ?o4))"
        using n x None y N2 m(1) n2 by (simp add: resize_dhcp_option_def n1 DHCP_MAX_LEN_def Let_def options_update_swap)
      show ?thesis
      proof (cases "?n < alloc_len o2")
        case False
        then show ?thesis using e r ok4 m k by auto
      next
        case True
        have re: "realloc ?o4 ?n = (rc, o')" using e r True by simp
        show ?thesis
        proof (cases rc)
          case (Some e)
          then show ?thesis using realloc_err [OF ok4 _ re [unfolded Some]] by auto
        next
          case N3: None
          have "blk_ok o'" "used_len o' = ?n" "take ?n (opt_data o') = take ?n dd"
            using realloc_ok [OF ok4 _ re [unfolded N3]] True by (auto simp: min_def)
          then show ?thesis using N3 m k by auto
        qed
      qed
    qed
  qed
qed


lemma write_spec:
  assumes ok: "blk_ok options" and d: "take (used_len options) (opt_data options) = A @ B @ C"
    and eo: "\<forall>i. eo = Some i \<longrightarrow> i + 1 < length A"
    and r: "write_dhcp_option realloc options (length A) eo (length B) tag data = (rc, o')"
  shows "case rc of
      None \<Rightarrow> length data \<le> 253 \<and> blk_ok o' \<and>
        encap_fits eo (int (length (new_opt tag data)) - int (length B)) A \<and>
        take (used_len o') (opt_data o') =
          adjust_encap eo (int (length (new_opt tag data)) - int (length B)) A @ new_opt tag data @ C
    | Some e \<Rightarrow> e \<noteq> EFAULT_OOB"
proof -
  let ?N = "new_opt tag data"
  let ?m = "length ?N" and ?A = "adjust_encap eo (int (length ?N) - int (length B)) A"
  obtain rc1 o1 where x: "resize_dhcp_option realloc options (length A) eo (length B) ?m = (rc1, o1)"
    by (cases "resize_dhcp_option realloc options (length A) eo (length B) ?m")
  show ?thesis
  proof (cases "?m \<le> 255")
    case False
    then have "rc1 = Some ENOSPC" using x by (simp add: resize_dhcp_option_def DHCP_MAX_LEN_def)
    then show ?thesis using r x by (auto simp: write_dhcp_option_alt)
  next
    case True
    note s = resize_spec [OF ok d True eo x]
    show ?thesis
    proof (cases rc1)
      case (Some e)
      then show ?thesis using r x s by (auto simp: write_dhcp_option_alt)
    next
      case None
      then obtain X where X: "blk_ok o1" "used_len o1 = length A + ?m + length C" "length X = ?m"
          "take (used_len o1) (opt_data o1) = ?A @ X @ C"
          "encap_fits eo (int (length ?N) - int (length B)) A" using s by auto
      note l = ok_len [OF X(1)]
      let ?d = "take (length A) (opt_data o1) @ ?N @ drop (length A + ?m) (opt_data o1)"
      have w: "write_list (opt_data o1) (length A) ?N = Inr ?d"
        using X l by (simp add: write_list_ok)
      have D: "opt_data o1 = ?A @ X @ C @ drop (used_len o1) (opt_data o1)"
        by (metis X(4) append.assoc append_take_drop_id)
      have "take (length A) (opt_data o1) = ?A" "drop (length A + ?m) (opt_data o1) = C @ drop (used_len o1) (opt_data o1)"
        using X(3) by (metis D append_eq_conv_conj length_adjust_encap,
            metis D append.assoc append_eq_conv_conj length_adjust_encap length_append)
      then have t: "take (used_len o1) ?d = ?A @ ?N @ C" using X(2) by simp
      have "blk_ok (o1\<lparr>opt_data := ?d, used_len := used_len o1\<rparr>)"
        using X l by (intro ok_update) auto
      then have "blk_ok (o1\<lparr>opt_data := ?d\<rparr>)" by simp
      moreover have "rc = None" "o' = o1\<lparr>opt_data := ?d\<rparr>"
        using r x None w by (simp_all add: write_dhcp_option_alt)
      moreover have "length data \<le> 253" using True by (simp add: new_opt_def split: if_splits)
      ultimately show ?thesis using t X(5) by simp
    qed
  qed
qed

lemma set_spec:
  assumes ok: "blk_ok options" and rep: "opts_rep options opts" and t: "0 < tag" "tag < 255"
    and r: "set_dhcp_option realloc options tag data = (rc, o')"
  shows "case rc of
      Inr off \<Rightarrow> length data \<le> 253 \<and> blk_ok o' \<and> opts_rep o' (opt_store tag data opts) \<and>
        off = length (enc_opts (opts_before tag opts))
    | Inl e \<Rightarrow> e \<noteq> EFAULT_OOB"
proof -
  let ?A = "enc_opts (opts_before tag opts)" and ?B = "enc_opts (opts_old tag opts)"
  obtain rc1 o1 where w: "write_dhcp_option realloc options (length ?A) None (length ?B) tag data = (rc1, o1)"
    by (cases "write_dhcp_option realloc options (length ?A) None (length ?B) tag data")
  have d: "take (used_len options) (opt_data options) = ?A @ ?B @ enc_opts (opts_rest tag opts)"
    using rep enc_opts_split [of opts tag] by (simp add: opts_rep_def)
  note s = write_spec [OF ok d _ w]
  have rc: "(rc, o') = (case rc1 of Some e \<Rightarrow> (Inl e, o1) | None \<Rightarrow> (Inr (length ?A), o1))"
    using r w set_dhcp_option_write [OF rep t, of realloc data] by simp
  show ?thesis
  proof (cases rc1)
    case (Some e)
    then show ?thesis using rc s by simp
  next
    case None
    have "list_all opt_valid (opt_store tag data opts)"
      using s None rep t by (intro opt_valid_store) (auto simp: opts_rep_def)
    then show ?thesis
      using s None rc ok_len [of o1] t by (auto simp: opts_rep_def adjust_encap_def enc_opt_store)
  qed
qed

end

section \<open>Blocks of a fixed size\<close>

definition fixed_block :: "'a dhcp_options_scheme \<Rightarrow> bool" where
  "fixed_block options \<longleftrightarrow> length (opt_data options) = alloc_len options \<and>
     used_len options \<le> alloc_len options \<and> alloc_len options < 9223372036854775808"

interpretation fixed: dhcp_reallocator dhcpopt_no_realloc fixed_block
  by unfold_locales (auto simp: fixed_block_def dhcpopt_no_realloc_def split: if_splits)

lemma resize_fixed:
  assumes ok: "fixed_block options" and d: "take (used_len options) (opt_data options) = A @ B @ C"
    and m: "m \<le> 255"
  shows "length A + m + length C \<le> alloc_len options \<Longrightarrow>
     (\<exists>o'. resize_dhcp_option dhcpopt_no_realloc options (length A) None (length B) m = (None, o') \<and>
        alloc_len o' = alloc_len options \<and> used_len o' = length A + m + length C)"
    and "\<not> length A + m + length C \<le> alloc_len options \<Longrightarrow>
     resize_dhcp_option dhcpopt_no_realloc options (length A) eo (length B) m = (Some ENOSPC, options)"
proof -
  let ?n = "length A + m + length C"
  have u: "used_len options = length A + length B + length C"
    using d ok by (metis add.assoc fixed_block_def length_append length_take min_absorb2)
  have n1: "size_t (int (used_len options) + (int m - int (length B))) = ?n"
    using u ok m by (subst size_t_nat) (auto simp: fixed_block_def)
  have n2: "size_t (int ?n - int (length A) - int m) = length C"
    using u ok by (subst size_t_nat) (auto simp: fixed_block_def)
  show "\<exists>o'. resize_dhcp_option dhcpopt_no_realloc options (length A) None (length B) m = (None, o') \<and>
        alloc_len o' = alloc_len options \<and> used_len o' = ?n" if l: "?n \<le> alloc_len options"
  proof -
    obtain X dd where "memmove_list (opt_data options) (length A + m) (length A + length B) (length C) = Inr dd"
      using memmove_rest [OF d, of m] ok l by (auto simp: fixed_block_def)
    then show ?thesis
      using m l n1 n2 by (simp add: resize_dhcp_option_def expand_dhcp_block_def resize_encapsulator_def
          dhcpopt_no_realloc_def DHCP_MAX_LEN_def Let_def)
  qed
  show "resize_dhcp_option dhcpopt_no_realloc options (length A) eo (length B) m = (Some ENOSPC, options)"
    if "\<not> ?n \<le> alloc_len options"
    using that m n1 by (simp add: resize_dhcp_option_def expand_dhcp_block_def dhcpopt_no_realloc_def
        DHCP_MAX_LEN_def Let_def)
qed

lemma write_fixed:
  assumes ok: "fixed_block options" and d: "take (used_len options) (opt_data options) = A @ B @ C"
  shows "if length data \<le> 253 \<and> length A + length (new_opt tag data) + length C \<le> alloc_len options
    then \<exists>o'. write_dhcp_option dhcpopt_no_realloc options (length A) None (length B) tag data = (None, o') \<and>
      alloc_len o' = alloc_len options
    else write_dhcp_option dhcpopt_no_realloc options (length A) None (length B) tag data = (Some ENOSPC, options)"
proof -
  let ?m = "length (new_opt tag data)"
  have m: "length data \<le> 253 \<longleftrightarrow> ?m \<le> 255" by (simp add: new_opt_def)
  obtain rc o' where w: "write_dhcp_option dhcpopt_no_realloc options (length A) None (length B) tag data = (rc, o')"
    by (cases "write_dhcp_option dhcpopt_no_realloc options (length A) None (length B) tag data")
  note s = fixed.write_spec [OF ok d _ w]
  show ?thesis
  proof (cases "?m \<le> 255 \<and> length A + ?m + length C \<le> alloc_len options")
    case True
    then obtain o1 where "resize_dhcp_option dhcpopt_no_realloc options (length A) None (length B) ?m = (None, o1)"
        "alloc_len o1 = alloc_len options" "used_len o1 = length A + ?m + length C"
      using resize_fixed(1) [OF ok d] by blast
    then show ?thesis using w s True m
      by (auto simp: write_dhcp_option_alt write_list_def split: sum.splits if_splits)
  next
    case False
    then have "resize_dhcp_option dhcpopt_no_realloc options (length A) None (length B) ?m = (Some ENOSPC, options)"
      using resize_fixed(2) [OF ok d] by (cases "?m \<le> 255") (auto simp: resize_dhcp_option_def DHCP_MAX_LEN_def)
    then show ?thesis using False m by (auto simp: write_dhcp_option_alt)
  qed
qed

lemma opt_lookup_data:
  assumes "opts_rep options opts" "0 < tag" "tag < 255" "opt_lookup tag opts = Some v"
  obtains R where "length v \<le> 255" "opt_data options =
    enc_opts (opts_before tag opts) @ of_nat tag # of_nat (length v) # v @ enc_opts (opts_rest tag opts) @ R"
proof
  show "length v \<le> 255"
    using opt_lookup_valid [OF assms(4)] assms by (simp add: opts_rep_def of_nat8_special)
  have "enc_opts opts = enc_opts (opts_before tag opts) @ of_nat tag # of_nat (length v) # v @ enc_opts (opts_rest tag opts)"
    using enc_opts_split [of opts tag] assms by (simp add: opts_old_def of_nat8_special)
  moreover have "opt_data options = enc_opts opts @ drop (used_len options) (opt_data options)"
    using assms(1) by (metis append_take_drop_id opts_rep_def)
  ultimately show "opt_data options =
    enc_opts (opts_before tag opts) @ of_nat tag # of_nat (length v) # v @ enc_opts (opts_rest tag opts) @
      drop (used_len options) (opt_data options)" by simp
qed

lemma fetch_at:
  assumes "fst (find_dhcp_option_with_encap options tag None) = Inr (length A)"
    "opt_data options = A @ t # of_nat (length v) # v @ R" "length v \<le> 255"
  shows "dhcpopt_fetch options tag len = Inr (length v, take len v)"
proof -
  have 1: "opt_data options ! Suc (length A) = of_nat (length v)" using assms(2) by (simp add: nth_append)
  have 2: "take (min len (length v)) (drop (length A + 2) (opt_data options)) = take len v"
    by (simp add: assms(2) min_def)
  have 3: "length A + 2 + length v \<le> length (opt_data options)" by (simp add: assms(2))
  show ?thesis
    using assms(1,3) 1 2 3 by (simp add: dhcpopt_fetch_def read_list_ok)
qed

lemma dhcpopt_fetch_rep:
  assumes "opts_rep options opts" "0 < tag" "tag < 255"
  shows "dhcpopt_fetch options tag len =
    (case opt_lookup tag opts of
       None \<Rightarrow> Inl ENOENT
     | Some v \<Rightarrow> Inr (length v, take len v))"
proof (cases "opt_lookup tag opts")
  case None
  then show ?thesis using find_rep [OF assms(1,2), of None] assms(3) by (simp add: dhcpopt_fetch_def)
next
  case (Some v)
  obtain R where d: "length v \<le> 255" "opt_data options =
    enc_opts (opts_before tag opts) @ of_nat tag # of_nat (length v) # v @ enc_opts (opts_rest tag opts) @ R"
    using opt_lookup_data [OF assms Some] .
  have "fst (find_dhcp_option_with_encap options tag None) = Inr (length (enc_opts (opts_before tag opts)))"
    using find_rep [OF assms(1,2), of None] assms(3) Some by simp
  then show ?thesis using Some fetch_at [OF _ d(2,1)] by simp
qed

lemma set_fixed:
  assumes ok: "fixed_block options" and rep: "opts_rep options opts" and t: "0 < tag" "tag < 255"
  shows "if length data \<le> 253 \<and> length (enc_opts (opt_store tag data opts)) \<le> alloc_len options
    then \<exists>o'. set_dhcp_option dhcpopt_no_realloc options tag data =
             (Inr (length (enc_opts (opts_before tag opts))), o') \<and>
           fixed_block o' \<and> alloc_len o' = alloc_len options \<and> opts_rep o' (opt_store tag data opts)
    else set_dhcp_option dhcpopt_no_realloc options tag data = (Inl ENOSPC, options)"
proof -
  let ?A = "enc_opts (opts_before tag opts)" and ?B = "enc_opts (opts_old tag opts)"
  have d: "take (used_len options) (opt_data options) = ?A @ ?B @ enc_opts (opts_rest tag opts)"
    using rep enc_opts_split [of opts tag] by (simp add: opts_rep_def)
  have l: "length (enc_opts (opt_store tag data opts)) =
      length ?A + length (new_opt tag data) + length (enc_opts (opts_rest tag opts))"
    using t by (simp add: enc_opt_store)
  note w = write_fixed [OF ok d, of data tag, folded l]
    and e = set_dhcp_option_write [OF rep t, of dhcpopt_no_realloc data]
  show ?thesis
  proof (cases "length data \<le> 253 \<and> length (enc_opts (opt_store tag data opts)) \<le> alloc_len options")
    case True
    then obtain o' where o': "write_dhcp_option dhcpopt_no_realloc options (length ?A) None (length ?B) tag data = (None, o')"
        "alloc_len o' = alloc_len options" using w by auto
    then have s: "set_dhcp_option dhcpopt_no_realloc options tag data = (Inr (length ?A), o')" using e by simp
    show ?thesis using True s o' fixed.set_spec [OF ok rep t s] by simp
  next
    case False
    then show ?thesis using e w by (simp split: if_splits)
  qed
qed

text \<open>
  C5. The option block implements a list of options.  Storing a value under a plain tag in a
  block of fixed size replaces the first option with that tag, or adds one before the end
  marker, or deletes it when the value is empty, and keeps every other byte of the encoded
  list; it fails with \<open>ENOSPC\<close>, leaving the block as it was, exactly when the value is longer
  than 253 bytes or the new list does not fit.
\<close>

theorem dhcpopt_store_refines:
  assumes "fixed_block options" "opts_rep options opts" "0 < tag" "tag < 255"
  shows "if length data \<le> 253 \<and> length (enc_opts (opt_store tag data opts)) \<le> alloc_len options
    then \<exists>o'. dhcpopt_store dhcpopt_no_realloc options tag data = (None, o') \<and> fixed_block o' \<and>
           alloc_len o' = alloc_len options \<and> opts_rep o' (opt_store tag data opts)
    else dhcpopt_store dhcpopt_no_realloc options tag data = (Some ENOSPC, options)"
  using set_fixed [OF assms, of data]
  by (auto simp: dhcpopt_store_def split: if_split_asm)

text \<open>
  C10. Fetching reads the list of options.  For a plain tag, \<open>dhcpopt_fetch\<close> on a well-formed
  block returns the length of the first option with that tag before the end marker and
  copies as much of its value as fits the buffer, and fails with \<open>ENOENT\<close> when there is
  none; it never leaves the block.
\<close>

theorem dhcpopt_fetch_refines:
  assumes "opts_rep options opts" "0 < tag" "tag < 255"
  shows "dhcpopt_fetch options tag len =
    (case opt_lookup tag opts of
       None \<Rightarrow> Inl ENOENT
     | Some v \<Rightarrow> Inr (length v, take len v))"
  using assms by (rule dhcpopt_fetch_rep)

section \<open>Initialisation\<close>

lemma dhcp_option_len_split:
  assumes "dhcp_option_len d offset = Inr n" "offset + n \<le> length d"
  shows "\<exists>x. opt_valid x \<and> take n (drop offset d) = enc_opt x \<and> length (enc_opt x) = n"
proof -
  have o: "offset < length d" using assms(1) by (auto simp: dhcp_option_len_def rd_def bind_err_eq_Inr split: if_splits)
  then have d: "drop offset d = d ! offset # drop (Suc offset) d" by (simp add: Cons_nth_drop_Suc)
  show ?thesis
  proof (cases "d ! offset = 0 \<or> d ! offset = 255")
    case True
    then have "n = 1" using assms(1) o by (auto simp: dhcp_option_len_def dhcp_consts)
    then show ?thesis using True d by (intro exI [of _ "(d ! offset, [])"]) auto
  next
    case False
    then have n: "n = unat (d ! Suc offset) + 2" "Suc offset < length d"
      using assms(1) o by (auto simp: dhcp_option_len_def dhcp_consts unat8_eq rd_def split: if_splits)
    let ?v = "take (unat (d ! Suc offset)) (drop (Suc (Suc offset)) d)"
    have "drop (Suc offset) d = d ! Suc offset # drop (Suc (Suc offset)) d"
      using n(2) by (simp add: Cons_nth_drop_Suc)
    moreover have l: "length ?v = unat (d ! Suc offset)" using assms(2) n by simp
    moreover have "unat (d ! Suc offset) \<le> 255" using unat_lt8 [of "d ! Suc offset"] by linarith
    ultimately show ?thesis using False d n(1) by (intro exI [of _ "(d ! offset, ?v)"]) auto
  qed
qed

lemma update_used_len_rep:
  assumes "update_used_len_loop d offset remaining used = Inr u"
    "list_all opt_valid opts" "take offset d = enc_opts opts" "offset + remaining \<le> length d"
    "\<exists>opts'. list_all opt_valid opts' \<and> take used d = enc_opts opts'" "used \<le> offset"
  shows "u \<le> offset + remaining \<and> (\<exists>opts'. list_all opt_valid opts' \<and> take u d = enc_opts opts')"
  using assms
proof (induction d offset remaining used arbitrary: opts rule: update_used_len_loop.induct)
  case (1 d offset remaining used)
  show ?case
  proof (cases "remaining = 0")
    case True
    then show ?thesis using "1.prems" by (auto simp: update_used_len_loop.simps)
  next
    case False
    then obtain n where n: "dhcp_option_len d offset = Inr n"
      using "1.prems"(1) by (subst (asm) update_used_len_loop.simps) (auto split: sum.splits)
    show ?thesis
    proof (cases "remaining < n")
      case True
      then show ?thesis using "1.prems" False n by (auto simp: update_used_len_loop.simps [of _ _ remaining])
    next
      case nl: False
      obtain x where x: "opt_valid x" "take n (drop offset d) = enc_opt x"
        using dhcp_option_len_split [OF n] nl "1.prems"(4) by auto
      have t: "take (offset + n) d = enc_opts (opts @ [x])" using x(2) "1.prems"(3) by (simp add: take_add)
      have v: "list_all opt_valid (opts @ [x])" using x(1) "1.prems"(2) by simp
      have "update_used_len_loop d (offset + n) (remaining - n)
          (if unat (d ! offset) \<noteq> DHCP_PAD then offset + n else used) = Inr u"
        using "1.prems"(1) False n nl by (simp add: update_used_len_loop.simps [of _ _ remaining])
      moreover have "\<exists>opts'. list_all opt_valid opts' \<and>
          take (if unat (d ! offset) \<noteq> DHCP_PAD then offset + n else used) d = enc_opts opts'"
      proof (cases "unat (d ! offset) = DHCP_PAD")
        case True
        then show ?thesis using "1.prems"(5) by simp
      next
        case False
        then show ?thesis using t v by (intro exI [of _ "opts @ [x]"]) simp
      qed
      ultimately show ?thesis
        using "1.IH" [OF False n nl, of "opts @ [x]"] t v nl "1.prems"(4,6) by auto
    qed
  qed
qed

text \<open>
  C11. Whatever the received bytes are, initialising an option block without running off its
  end leaves a well-formed block: the used part is a list of complete options, so that later
  searches for plain tags stay within it.
\<close>

theorem dhcpopt_init_wf:
  assumes "dhcpopt_init options data (length data) = (None, o')" "length data < 9223372036854775808"
  shows "fixed_block o' \<and> opt_data o' = data \<and> (\<exists>opts. opts_rep o' opts)"
proof -
  obtain u where u: "update_used_len_loop data 0 (length data) 0 = Inr u"
    and o': "o' = options\<lparr>opt_data := data, alloc_len := length data, used_len := u\<rparr>"
    using assms(1) by (auto simp: dhcpopt_init_def dhcpopt_update_used_len_def split: sum.splits)
  have "u \<le> length data \<and> (\<exists>opts'. list_all opt_valid opts' \<and> take u data = enc_opts opts')"
    using update_used_len_rep [OF u, of "[]"] exI [of "\<lambda>x. list_all opt_valid x \<and> [] = enc_opts x" "[]"] by simp
  then show ?thesis using assms(2) by (auto simp: o' fixed_block_def opts_rep_def)
qed

section \<open>Encapsulated options\<close>

lemma opts_before_store: "opts_before tag (opt_store tag v opts) = opts_before tag opts"
  if "v \<noteq> []" "tag < 255"
proof -
  have "list_all (opt_differs tag) (opts_before tag opts)" by (simp add: list_all_iff opts_before_differs)
  then show ?thesis using that by (simp add: opt_store_def opts_before_append opt_differs_def)
qed

lemma opts_from_append:
  "list_all (opt_differs tag) xs \<Longrightarrow> opts_from tag (xs @ ys) = opts_from tag ys"
  by (induction xs) auto

lemma opt_store_store:
  assumes "v \<noteq> []" "tag < 255"
  shows "opt_store tag w (opt_store tag v opts) = opt_store tag w opts"
proof -
  have p: "list_all (opt_differs tag) (opts_before tag opts)" by (simp add: list_all_iff opts_before_differs)
  have "opts_from tag (opt_store tag v opts) = (of_nat tag, v) # opts_rest tag opts"
    using assms by (simp add: opt_store_def opts_from_append [OF p] opt_differs_def)
  then have "opts_rest tag (opt_store tag v opts) = opts_rest tag opts"
    using assms opt_lookup_store_same [of v tag opts]
    by (simp add: opts_rest_def [of _ "opt_store tag v opts"])
  then show ?thesis using opts_before_store [OF assms] by (simp add: opt_store_def [of _ w])
qed

lemma opt_lookup_store_other:
  assumes "e < 255" "tag \<noteq> e"
  shows "opt_lookup tag (opt_store e v opts) = opt_lookup tag opts"
proof -
  have n: "list_all (opt_differs tag) (opts_old e opts)"
      "list_all (opt_differs tag) (if v = [] then [] else [(of_nat e, v)])"
    using assms by (auto simp: opts_old_def opt_differs_def of_nat8_special split: option.splits)
  have "opt_lookup tag opts = opt_lookup tag (opts_before e opts @ opts_old e opts @ opts_rest e opts)"
    by (simp only: opts_split)
  then show ?thesis using n by (simp only: opt_store_def opt_lookup_append simp_thms if_True)
qed

text \<open>
  An encapsulator's value is itself a list of options that holds an end marker.
\<close>

definition encap_rep :: "u8 list \<Rightarrow> dhcp_opt list \<Rightarrow> bool" where
  "encap_rep v inner \<longleftrightarrow> v = enc_opts inner \<and> list_all opt_valid inner \<and> opt_lookup 255 inner \<noteq> None"

lemma opts_from_terminated: "opt_lookup 255 inner \<noteq> None \<Longrightarrow> opts_from tag inner \<noteq> []"
  by (induction inner) (auto simp: opt_differs_def unat8_eq)

lemma encap_tag [simp]:
  "i < 256 \<Longrightarrow> DHCP_ENCAPSULATOR (DHCP_ENCAP_OPT e i) = e" "i < 256 \<Longrightarrow> DHCP_ENCAPSULATED (DHCP_ENCAP_OPT e i) = i"
  "i < 256 \<Longrightarrow> 0 < e \<Longrightarrow> DHCP_IS_ENCAP_OPT (DHCP_ENCAP_OPT e i)"
  "0 < e \<Longrightarrow> DHCP_ENCAP_OPT e i \<noteq> DHCP_PAD" "0 < e \<Longrightarrow> DHCP_ENCAP_OPT e i \<noteq> 0"
  by (simp_all add: dhcp_consts)

lemma find_encap_None:
  assumes rep: "opts_rep options opts" and t: "0 < e" "e < 255" "i < 256" and l: "opt_lookup e opts = None"
  shows "find_dhcp_option_with_encap options (DHCP_ENCAP_OPT e i) eo = (Inl ENOENT, eo)"
proof -
  have d: "opt_data options = enc_opts opts @ drop (used_len options) (opt_data options)"
    using rep by (metis append_take_drop_id opts_rep_def)
  have u: "used_len options = length (enc_opts opts)"
    using rep by (metis length_take min_absorb2 opts_rep_def)
  have v: "list_all opt_valid opts" using rep by (simp add: opts_rep_def)
  show ?thesis
    using find_loop_encap [OF v, of "DHCP_ENCAP_OPT e i" "[]" "drop (used_len options) (opt_data options)" eo] t l d u
    by (simp add: find_dhcp_option_with_encap_def)
qed

lemma find_encap_Some:
  assumes rep: "opts_rep options opts" and t: "0 < e" "e < 255" "i < 256"
    and l: "opt_lookup e opts = Some v" and v: "encap_rep v inner"
  shows "find_dhcp_option_with_encap options (DHCP_ENCAP_OPT e i) eo =
    (case opt_lookup i inner of
       None \<Rightarrow> Inl ENOENT
     | Some w \<Rightarrow> Inr (length (enc_opts (opts_before e opts)) + 2 + length (enc_opts (opts_before i inner))),
     Some (length (enc_opts (opts_before e opts))))"
proof -
  let ?A = "enc_opts (opts_before e opts)"
  obtain R where d: "opt_data options = ?A @ of_nat e # of_nat (length v) # v @ enc_opts (opts_rest e opts) @ R"
    using opt_lookup_data [OF rep t(1,2) l] by metis
  have D: "opt_data options = enc_opts opts @ drop (used_len options) (opt_data options)"
    using rep by (metis append_take_drop_id opts_rep_def)
  have u: "used_len options = length (enc_opts opts)"
    using rep by (metis length_take min_absorb2 opts_rep_def)
  have val: "list_all opt_valid opts" using rep by (simp add: opts_rep_def)
  have "find_dhcp_option_with_encap options (DHCP_ENCAP_OPT e i) eo =
      find_dhcp_option_loop (opt_data options) i (length ?A + 2) (length v + 2) (Some (length ?A))"
    using find_loop_encap [OF val, of "DHCP_ENCAP_OPT e i" "[]" "drop (used_len options) (opt_data options)" eo] t l D u
    by (simp add: find_dhcp_option_with_encap_def Let_def)
  also have "\<dots> = find_dhcp_option_loop ((?A @ [of_nat e, of_nat (length v)]) @ enc_opts inner @ enc_opts (opts_rest e opts) @ R)
      i (length (?A @ [of_nat e, of_nat (length v)])) (length (enc_opts inner) + 2) (Some (length ?A))"
    using v by (simp add: d encap_rep_def)
  also have "\<dots> = (case opt_lookup i inner of
       None \<Rightarrow> Inl ENOENT
     | Some w \<Rightarrow> Inr (length (?A @ [of_nat e, of_nat (length v)]) + length (enc_opts (opts_before i inner))),
     Some (length ?A))"
    using v t opts_from_terminated [of inner i] by (intro find_loop_enc) (auto simp: encap_rep_def)
  finally show ?thesis by (simp split: option.splits)
qed

lemma dhcpopt_fetch_encap:
  assumes rep: "opts_rep options opts" and t: "0 < e" "e < 255" "0 < i" "i < 255"
    and l: "opt_lookup e opts = Some v" and v: "encap_rep v inner"
  shows "dhcpopt_fetch options (DHCP_ENCAP_OPT e i) len =
    (case opt_lookup i inner of
       None \<Rightarrow> Inl ENOENT
     | Some w \<Rightarrow> Inr (length w, take len w))"
proof (cases "opt_lookup i inner")
  case None
  then show ?thesis using find_encap_Some [OF rep t(1,2) _ l v, of i None] t by (simp add: dhcpopt_fetch_def)
next
  case (Some w)
  let ?A = "enc_opts (opts_before e opts)" and ?I = "enc_opts (opts_before i inner)"
  obtain R where d: "opt_data options = ?A @ of_nat e # of_nat (length v) # v @ enc_opts (opts_rest e opts) @ R"
    using opt_lookup_data [OF rep t(1,2) l] by metis
  have "v = ?I @ of_nat i # of_nat (length w) # w @ enc_opts (opts_rest i inner)"
    using v enc_opts_split [of inner i] Some t by (simp add: encap_rep_def opts_old_def of_nat8_special)
  with d have D: "opt_data options = (?A @ [of_nat e, of_nat (length v)] @ ?I) @ of_nat i # of_nat (length w) # w @
      enc_opts (opts_rest i inner) @ enc_opts (opts_rest e opts) @ R" by simp
  have lw: "length w \<le> 255"
    using opt_lookup_valid [OF Some] v t by (simp add: encap_rep_def of_nat8_special)
  have "fst (find_dhcp_option_with_encap options (DHCP_ENCAP_OPT e i) None) =
      Inr (length (?A @ [of_nat e, of_nat (length v) :: u8] @ ?I))"
    using find_encap_Some [OF rep t(1,2) _ l v, of i None] t Some by simp
  from fetch_at [OF this D lw] show ?thesis using Some by simp
qed

definition encap_before :: "nat \<Rightarrow> dhcp_opt list \<Rightarrow> dhcp_opt list" where
  "encap_before i inner = (if opt_lookup i inner = None then [] else opts_before i inner)"

definition encap_rest :: "nat \<Rightarrow> dhcp_opt list \<Rightarrow> dhcp_opt list" where
  "encap_rest i inner = (if opt_lookup i inner = None then inner else opts_rest i inner)"

text \<open>A new encapsulated option becomes the first one of its encapsulator.\<close>

definition encap_store :: "nat \<Rightarrow> u8 list \<Rightarrow> dhcp_opt list \<Rightarrow> dhcp_opt list" where
  "encap_store i data inner =
     encap_before i inner @ (if data = [] then [] else [(of_nat i, data)]) @ encap_rest i inner"

lemma enc_encap_split:
  "enc_opts inner = enc_opts (encap_before i inner) @ enc_opts (opts_old i inner) @ enc_opts (encap_rest i inner)"
  using enc_opts_split [of inner i]
  by (auto simp: encap_before_def encap_rest_def opts_old_def)

lemma set_encap:
  assumes rep: "opts_rep options opts" and t: "0 < e" "e < 255" "0 < i" "i < 255"
    and l: "opt_lookup e opts = Some v" and v: "encap_rep v inner"
  shows "set_dhcp_option realloc options (DHCP_ENCAP_OPT e i) data =
    (let eo = length (enc_opts (opts_before e opts));
         off = eo + 2 + length (enc_opts (encap_before i inner))
     in case write_dhcp_option realloc options off (Some eo) (length (enc_opts (opts_old i inner)))
               (DHCP_ENCAP_OPT e i) data of
          (Some err, o2) \<Rightarrow> (Inl err, o2)
        | (None, o2) \<Rightarrow>
            (case rd (opt_data o2) (eo + 1) of
               Inl err \<Rightarrow> (Inl err, o2)
             | Inr l \<Rightarrow> (Inr off, if unat l \<le> 1 then snd (set_dhcp_option realloc o2 e []) else o2)))"
proof -
  let ?A = "enc_opts (opts_before e opts)"
  obtain R where d: "opt_data options = ?A @ of_nat e # of_nat (length v) # v @ enc_opts (opts_rest e opts) @ R"
    using opt_lookup_data [OF rep t(1,2) l] by metis
  have old: "dhcp_option_len (opt_data options) (length ?A + 2 + length (enc_opts (opts_before i inner))) =
      Inr (length (enc_opts (opts_old i inner)))" if w: "opt_lookup i inner = Some w" for w
  proof -
    have "opt_data options = (?A @ [of_nat e, of_nat (length v)] @ enc_opts (opts_before i inner)) @
        enc_opt (of_nat i, w) @ enc_opts (opts_rest i inner) @ enc_opts (opts_rest e opts) @ R"
      using v enc_opts_split [of inner i] w by (simp add: d encap_rep_def opts_old_def del: enc_opt.simps)
    moreover have "opt_valid (of_nat i, w)" using opt_lookup_valid [OF w] v by (simp add: encap_rep_def)
    ultimately show ?thesis
      using dhcp_option_len_enc [of "(of_nat i, w)" "?A @ [of_nat e, of_nat (length v)] @ enc_opts (opts_before i inner)"] w
      by (simp add: opts_old_def del: enc_opt.simps)
  qed
  have fe: "fst (find_dhcp_option_with_encap options 255 None) \<noteq> Inl EFAULT_OOB"
    using find_rep [OF rep, of 255] by (simp split: option.splits)
  note f = find_encap_Some [OF rep t(1,2) _ l v, of i None]
  show ?thesis
  proof (cases "opt_lookup i inner")
    case None
    then show ?thesis using t f fe
      by (subst set_dhcp_option.simps)
         (simp add: Let_def encap_before_def opts_old_def DHCP_END_def DHCP_OPTION_HEADER_LEN_def
            split: option.splits prod.splits sum.splits)
  next
    case (Some w)
    then show ?thesis using t f fe old [OF Some]
      by (subst set_dhcp_option.simps)
         (simp add: Let_def encap_before_def DHCP_END_def DHCP_OPTION_HEADER_LEN_def
            split: option.splits prod.splits sum.splits)
  qed
qed

lemma set_encap_create:
  assumes rep: "opts_rep options opts" and t: "0 < e" "e < 255" "0 < i" "i < 255"
    and l: "opt_lookup e opts = None"
    and s: "set_dhcp_option realloc options e [255] = (rc, o1)"
    and ok: "\<And>off. rc = Inr off \<Longrightarrow> opts_rep o1 (opt_store e [255] opts) \<and> off = length (enc_opts (opts_before e opts))"
  shows "set_dhcp_option realloc options (DHCP_ENCAP_OPT e i) data =
    (case rc of Inl err \<Rightarrow> (Inl err, o1) | Inr _ \<Rightarrow> set_dhcp_option realloc o1 (DHCP_ENCAP_OPT e i) data)"
proof -
  have fe: "fst (find_dhcp_option_with_encap options 255 None) \<noteq> Inl EFAULT_OOB"
    using find_rep [OF rep, of 255] by (simp split: option.splits)
  note f = find_encap_None [OF rep t(1,2) _ l, of i None]
  show ?thesis
  proof (cases rc)
    case (Inl err)
    then show ?thesis using t f fe s
      by (subst set_dhcp_option.simps) (simp add: Let_def DHCP_END_def)
  next
    case (Inr off)
    have l1: "opt_lookup e (opt_store e [255] opts) = Some [255]"
      using t by (intro opt_lookup_store_same) auto
    have v1: "encap_rep [255] [(255, [])]" by (simp add: encap_rep_def opt_differs_def)
    have i: "opt_lookup i [(255, [])] = None" using t by (simp add: opt_differs_def)
    have b: "opts_before e (opt_store e [255] opts) = opts_before e opts"
      using t by (intro opts_before_store) auto
    show ?thesis using t f fe s Inr ok [OF Inr] set_encap [OF _ t l1 v1, of o1 realloc data] i
      by (subst set_dhcp_option.simps)
         (simp add: Let_def DHCP_END_def DHCP_OPTION_HEADER_LEN_def b encap_before_def opts_old_def
           split: option.splits prod.splits sum.splits)
  qed
qed

lemma new_opt_encap [simp]: "new_opt (DHCP_ENCAP_OPT e i) data = new_opt i data"
proof -
  have "(256 :: u8) = 0" by simp
  then have "of_nat (DHCP_ENCAP_OPT e i) = (of_nat i :: u8)"
    by (simp only: DHCP_ENCAP_OPT_def of_nat_add of_nat_mult of_nat_numeral) simp
  then show ?thesis by (simp add: new_opt_def)
qed

lemma enc_encap_store:
  assumes "0 < i" "i < 255"
  shows "enc_opts (encap_store i data inner) =
    enc_opts (encap_before i inner) @ new_opt i data @ enc_opts (encap_rest i inner)"
  using assms by (simp add: encap_store_def new_opt_def of_nat8_special)

lemma encap_store_alt:
  "encap_store i data inner =
     (if opt_lookup i inner = None then (if data = [] then [] else [(of_nat i, data)]) @ inner
      else opt_store i data inner)"
  by (simp add: encap_store_def encap_before_def encap_rest_def opt_store_def)

lemma encap_store_rep:
  assumes "encap_rep v inner" "0 < i" "i < 255" "length data \<le> 253"
  shows "encap_rep (enc_opts (encap_store i data inner)) (encap_store i data inner)"
proof -
  have "list_all opt_valid (opt_store i data inner)"
    using assms by (intro opt_valid_store) (auto simp: encap_rep_def)
  then show ?thesis
    using assms opt_lookup_store_other [of i 255 data inner]
    by (auto simp: encap_rep_def encap_store_alt opt_differs_def of_nat8_special)
qed

lemma opt_lookup_encap_store:
  assumes "data \<noteq> []" "i < 255"
  shows "opt_lookup i (encap_store i data inner) = Some data"
  using assms opt_lookup_store_same [of data i inner]
  by (auto simp: encap_store_alt opt_differs_def)

lemma set_encap_fixed:
  assumes ok: "fixed_block options" and rep: "opts_rep options opts" and t: "0 < e" "e < 255" "0 < i" "i < 255"
    and l: "opt_lookup e opts = Some v" and v: "encap_rep v inner"
    and s: "set_dhcp_option dhcpopt_no_realloc options (DHCP_ENCAP_OPT e i) data = (rc, o')"
  shows "case rc of
      Inl err \<Rightarrow> err \<noteq> EFAULT_OOB
    | Inr off \<Rightarrow> length data \<le> 253 \<and> fixed_block o' \<and>
        (let v' = enc_opts (encap_store i data inner)
         in opts_rep o' (opt_store e (if length v' \<le> 1 then [] else v') opts))"
proof -
  let ?P = "enc_opts (opts_before e opts)" and ?I = "enc_opts (encap_before i inner)"
    and ?B = "enc_opts (opts_old i inner)" and ?Q = "enc_opts (opts_rest e opts)"
  let ?A = "?P @ of_nat e # of_nat (length v) # ?I" and ?C = "enc_opts (encap_rest i inner) @ ?Q"
  let ?v' = "enc_opts (encap_store i data inner)" and ?delta = "int (length (new_opt i data)) - int (length ?B)"
  have vv: "v = ?I @ ?B @ enc_opts (encap_rest i inner)"
    using v enc_encap_split [of inner i] by (simp add: encap_rep_def)
  have lv: "length v \<le> 255"
    using opt_lookup_valid [OF l] rep t by (simp add: opts_rep_def of_nat8_special)
  have d: "take (used_len options) (opt_data options) = ?A @ ?B @ ?C"
    using rep enc_opts_split [of opts e] l t vv by (simp add: opts_rep_def opts_old_def of_nat8_special)
  obtain rc2 o2 where w: "write_dhcp_option dhcpopt_no_realloc options (length ?A) (Some (length ?P)) (length ?B)
      (DHCP_ENCAP_OPT e i) data = (rc2, o2)"
    by (cases "write_dhcp_option dhcpopt_no_realloc options (length ?A) (Some (length ?P)) (length ?B)
      (DHCP_ENCAP_OPT e i) data")
  note ws = fixed.write_spec [OF ok d _ w]
  have off: "length ?A = length ?P + 2 + length ?I" by simp
  note se = set_encap [OF rep t l v, of dhcpopt_no_realloc data, unfolded Let_def, folded off, unfolded w s]
  show ?thesis
  proof (cases rc2)
    case (Some err)
    then show ?thesis using se ws by simp
  next
    case None
    then have k: "length data \<le> 253" "fixed_block o2" "encap_fits (Some (length ?P)) ?delta ?A"
      "take (used_len o2) (opt_data o2) = adjust_encap (Some (length ?P)) ?delta ?A @ new_opt i data @ ?C"
      using ws by simp_all
    have n: "length v = length ?I + length ?B + length (enc_opts (encap_rest i inner))"
      using arg_cong [OF vv, of length] by simp
    have n': "length ?v' = length ?I + length (new_opt i data) + length (enc_opts (encap_rest i inner))"
      using t by (simp add: enc_encap_store)
    have nth: "unat (?A ! (length ?P + 1)) = length v" using lv by (simp add: nth_append)
    have len: "int (unat (?A ! (length ?P + 1))) + ?delta = int (length ?v')"
      unfolding nth unfolding n n' by simp
    have sz: "size_t (int (length ?v')) = length ?v'"
      using n n' lv k(1) by (intro size_t_of_nat) (simp add: new_opt_def)
    have lv': "length ?v' \<le> 255" using k(3) by (simp only: encap_fits_def option.case len sz)
    have v': "encap_rep ?v' (encap_store i data inner)" using encap_store_rep [OF v t(3,4) k(1)] .
    then have ne: "?v' \<noteq> []"
      by (cases "encap_store i data inner") (auto simp: encap_rep_def)
    have "adjust_encap (Some (length ?P)) ?delta ?A = ?P @ of_nat e # of_nat (length ?v') # ?I"
      unfolding adjust_encap_def option.case len sz by (simp add: list_update_append)
    then have d2: "take (used_len o2) (opt_data o2) = ?P @ of_nat e # of_nat (length ?v') # ?v' @ ?Q"
      using k(4) t by (simp add: enc_encap_store)
    have rep2: "opts_rep o2 (opt_store e ?v' opts)"
    proof -
      have "list_all opt_valid (opt_store e ?v' opts)"
        using rep t lv' by (intro opt_valid_store) (auto simp: opts_rep_def)
      then show ?thesis using k(2) d2 ne t by (auto simp: opts_rep_def fixed_block_def enc_opt_store new_opt_def)
    qed
    have "length ?P + 1 < length (take (used_len o2) (opt_data o2))"
      "take (used_len o2) (opt_data o2) ! (length ?P + 1) = of_nat (length ?v')"
      by (simp_all add: d2 nth_append)
    then have rd: "rd (opt_data o2) (length ?P + 1) = Inr (of_nat (length ?v'))" by (simp add: rd_def)
    have fin: "o' = (if length ?v' \<le> 1 then snd (set_dhcp_option dhcpopt_no_realloc o2 e []) else o2)"
        "\<exists>off. rc = Inr off"
      using se rd lv' None by auto
    show ?thesis
    proof (cases "length ?v' \<le> 1")
      case False
      then show ?thesis using fin k rep2 by auto
    next
      case True
      have "length (enc_opts (opt_store e [] (opt_store e ?v' opts))) \<le> alloc_len o2"
        using rep2 k(2) ne t unfolding opt_store_store [OF ne t(2)]
        by (auto simp: opts_rep_def fixed_block_def enc_opt_store new_opt_def dest!: arg_cong [where f = length])
      then show ?thesis
        using set_fixed [OF k(2) rep2 t(1,2), of "[]"] fin k True opt_store_store [OF ne t(2)] by auto
    qed
  qed
qed

lemma set_encap_result:
  assumes ok: "fixed_block options" and rep: "opts_rep options opts" and t: "0 < e" "e < 255" "0 < i" "i < 255"
    and v: "\<And>v. opt_lookup e opts = Some v \<Longrightarrow> \<exists>inner. encap_rep v inner"
    and s: "set_dhcp_option dhcpopt_no_realloc options (DHCP_ENCAP_OPT e i) data = (Inr off, o')"
  obtains inner where "encap_rep (enc_opts (encap_store i data inner)) (encap_store i data inner)"
    "fixed_block o'"
    "opts_rep o' (opt_store e (if length (enc_opts (encap_store i data inner)) \<le> 1 then []
                               else enc_opts (encap_store i data inner)) opts)"
proof (cases "opt_lookup e opts")
  case (Some v0)
  then obtain inner where "encap_rep v0 inner" using v by blast
  with set_encap_fixed [OF ok rep t Some this s] encap_store_rep [OF this t(3,4)]
  show thesis by (intro that [of inner]) (auto simp: Let_def)
next
  case None
  obtain rc o1 where s1: "set_dhcp_option dhcpopt_no_realloc options e [255] = (rc, o1)"
    by (cases "set_dhcp_option dhcpopt_no_realloc options e [255]")
  note f = set_fixed [OF ok rep t(1,2), of "[255]"]
  have "rc \<noteq> Inl err" for err
    using set_encap_create [OF rep t None s1, of data] f s s1 by (auto split: if_splits)
  then have o1: "fixed_block o1" "opts_rep o1 (opt_store e [255] opts)"
      "rc = Inr (length (enc_opts (opts_before e opts)))"
    using f s1 by (auto split: if_splits)
  have s2: "set_dhcp_option dhcpopt_no_realloc o1 (DHCP_ENCAP_OPT e i) data = (Inr off, o')"
    using set_encap_create [OF rep t None s1, of data] o1 s by simp
  have v1: "encap_rep [255] [(255, [])]" by (simp add: encap_rep_def opt_differs_def)
  have l1: "opt_lookup e (opt_store e [255] opts) = Some [255]"
    using t by (intro opt_lookup_store_same) auto
  show thesis
    using set_encap_fixed [OF o1(1,2) t l1 v1 s2] encap_store_rep [OF v1 t(3,4)] t
    by (intro that [of "[(255, [])]"]) (auto simp: Let_def opt_store_store)
qed


section \<open>Out-of-range accesses\<close>

text \<open>
  Three places where the code reads beyond what it was given: the length of an option whose
  tag is the last byte of the block, the two bytes after an encapsulator's value, and the
  length field an end marker does not have.
\<close>

definition options_of :: "u8 list \<Rightarrow> dhcp_options" where
  "options_of d = \<lparr>opt_data = d, used_len = length d, alloc_len = length d\<rparr>"

lemma update_used_len_overrun:
  "dhcpopt_update_used_len (options_of [53]) = (Some EFAULT_OOB, options_of [53])"
  by (simp add: dhcpopt_update_used_len_def update_used_len_loop.simps dhcp_option_len_def rd_def
      options_of_def dhcp_consts)

lemma find_encap_overrun:
  "fst (find_dhcp_option_with_encap (options_of [43, 0]) (DHCP_ENCAP_OPT 43 6) None) = Inl EFAULT_OOB"
  "find_dhcp_option_with_encap (options_of [43, 0, 6, 0]) (DHCP_ENCAP_OPT 43 6) None = (Inr 2, Some 0)"
  by (simp_all add: find_dhcp_option_with_encap_def find_dhcp_option_loop.simps dhcp_option_len_def rd_def
      options_of_def dhcp_consts)

lemma fetch_end_overrun:
  "dhcpopt_applies DHCP_END \<and> dhcpopt_fetch (options_of [255]) DHCP_END 64 = Inl EFAULT_OOB"
  by (simp add: dhcpopt_applies_def dhcpopt_fetch_def find_dhcp_option_with_encap_def
      find_dhcp_option_loop.simps dhcp_option_len_def rd_def options_of_def dhcp_consts)

section \<open>Instances\<close>

definition demo_opts :: "dhcp_opt list" where
  "demo_opts = [(53, [5]), (0, []), (54, [192, 168, 0, 1]), (255, [])]"

definition demo_options :: dhcp_options where
  "demo_options = \<lparr>opt_data = [53, 1, 5, 0, 54, 4, 192, 168, 0, 1, 255, 0, 0, 0, 0, 0, 0, 0, 0, 0],
     used_len = 11, alloc_len = 20\<rparr>"

lemma demo_options_rep: "opts_rep demo_options demo_opts" "fixed_block demo_options"
  by (simp_all add: opts_rep_def fixed_block_def demo_options_def demo_opts_def)

theorem dhcpopt_store_refines_witness:
  "\<exists>o'. dhcpopt_store dhcpopt_no_realloc demo_options 54 [10, 0, 0, 7, 9] = (None, o') \<and>
     opts_rep o' [(53, [5]), (0, []), (54, [10, 0, 0, 7, 9]), (255, [])]"
  using dhcpopt_store_refines [OF demo_options_rep(2,1), of 54 "[10, 0, 0, 7, 9]"]
  by (simp add: demo_opts_def demo_options_def opt_store_def opts_rest_def opt_differs_def) blast

theorem dhcpopt_fetch_refines_witness:
  "dhcpopt_fetch demo_options 54 2 = Inr (4, [192, 168])"
  using dhcpopt_fetch_refines [OF demo_options_rep(1), of 54 2] by (simp add: demo_opts_def opt_differs_def)

theorem dhcpopt_init_wf_witness:
  "\<exists>o'. dhcpopt_init (options_of []) [53, 1, 5, 255, 0, 0] (length [53, 1, 5, 255, 0, 0 :: u8]) = (None, o') \<and> used_len o' = 4 \<and> fixed_block o' \<and>
     (\<exists>opts. opts_rep o' opts)"
proof -
  have "dhcpopt_init (options_of []) [53, 1, 5, 255, 0, 0] (length [53, 1, 5, 255, 0, 0 :: u8]) =
      (None, \<lparr>opt_data = [53, 1, 5, 255, 0, 0], used_len = 4, alloc_len = 6\<rparr>)"
    by (simp add: dhcpopt_init_def dhcpopt_update_used_len_def update_used_len_loop.simps dhcp_option_len_def
        rd_def options_of_def dhcp_consts)
  from dhcpopt_init_wf [OF this] this show ?thesis by simp
qed

lemmas option_eval = find_dhcp_option_with_encap_def find_dhcp_option_loop.simps dhcp_option_len_def rd_def
  write_dhcp_option_def resize_dhcp_option_def expand_dhcp_block_def resize_encapsulator_def
  dhcpopt_no_realloc_def size_t_def memmove_list_def read_list_def write_list_def dhcp_consts Let_def

lemma demo_create_encap:
  "set_dhcp_option dhcpopt_no_realloc demo_options 43 [255] =
     (Inr 10, demo_options\<lparr>opt_data := [53, 1, 5, 0, 54, 4, 192, 168, 0, 1, 43, 1, 255, 255, 0, 0, 0, 0, 0, 0],
                           used_len := 14\<rparr>)"
  by (subst set_dhcp_option.simps) (simp add: demo_options_def option_eval)

lemma demo_store_encap:
  "set_dhcp_option dhcpopt_no_realloc demo_options (DHCP_ENCAP_OPT 43 6) [3] =
     (Inr 12, demo_options\<lparr>opt_data := [53, 1, 5, 0, 54, 4, 192, 168, 0, 1, 43, 4, 6, 1, 3, 255, 255, 0, 0, 0],
                           used_len := 17\<rparr>)"
  using demo_create_encap by (subst set_dhcp_option.simps) (simp add: demo_options_def option_eval)


text \<open>
  An owner that cannot shrink its block: the store fails although the option existed, and the
  option is not left with its original value.
\<close>

definition no_shrink :: "dhcp_options \<Rightarrow> nat \<Rightarrow> errno option \<times> dhcp_options" where
  "no_shrink options n = (if n < alloc_len options then (Some ENOMEM, options) else (None, options))"

lemma store_shrink_failure:
  "let (rc, o') = dhcpopt_store no_shrink (options_of [12, 3, 1, 2, 3, 54, 1, 9]) 12 [7]
   in rc = Some ENOMEM \<and> dhcpopt_fetch (options_of [12, 3, 1, 2, 3, 54, 1, 9]) 12 8 = Inr (3, [1, 2, 3]) \<and>
      dhcpopt_fetch o' 12 8 = Inr (3, [1, 54, 1])"
proof -
  have "set_dhcp_option no_shrink (options_of [12, 3, 1, 2, 3, 54, 1, 9]) 12 [7] =
      (Inl ENOMEM, \<lparr>opt_data = [12, 3, 1, 54, 1, 9, 1, 9], used_len = 6, alloc_len = 8\<rparr>)"
    by (subst set_dhcp_option.simps) (simp add: option_eval no_shrink_def options_of_def)
  then show ?thesis
    by (simp add: dhcpopt_store_def dhcpopt_fetch_def option_eval options_of_def)
qed
end
