(* ===== verification/Dhcppkt.thy ===== *)
theory Dhcppkt
  imports Dhcpopts Strings
begin

text \<open>
  DHCP packets, \<^verbatim>\<open>net/dhcppkt.c\<close>: settings that live in dedicated header fields and
  settings that live in the option block behind the header.

  The packet buffer is split where \<^verbatim>\<open>options->data\<close> points: \<open>pkt_hdr\<close> holds the bytes of
  \<^verbatim>\<open>struct dhcphdr\<close> before its \<^verbatim>\<open>options\<close> member, and the option block holds the rest.  The
  fields never reach beyond the header, so the two parts do not overlap.  Reference counting
  and the registration of the settings block are not modelled.
\<close>

section \<open>Data\<close>

record dhcp_packet =
  pkt_hdr :: "u8 list"
  pkt_options :: dhcp_options

definition used_len_ipv4 :: "u8 list \<Rightarrow> nat \<Rightarrow> errno + nat" where
  "used_len_ipv4 data len =
     map_sum id (\<lambda>s_addr. if \<exists>b \<in> set s_addr. b \<noteq> 0 then 4 else 0) (read_list data 0 4)"

definition used_len_string :: "u8 list \<Rightarrow> nat \<Rightarrow> errno + nat" where
  "used_len_string data len = strnlen data len"

record dhcp_packet_field_desc =
  field_tag :: nat
  field_offset :: nat
  field_len :: nat
  field_used_len :: "u8 list \<Rightarrow> nat \<Rightarrow> errno + nat"

definition DHCP_EB_ENCAP :: nat where "DHCP_EB_ENCAP = 175"

definition DHCP_EB_YIADDR :: nat where "DHCP_EB_YIADDR = DHCP_ENCAP_OPT DHCP_EB_ENCAP 2"

definition DHCP_EB_SIADDR :: nat where "DHCP_EB_SIADDR = DHCP_ENCAP_OPT DHCP_EB_ENCAP 3"

definition DHCP_TFTP_SERVER_NAME :: nat where "DHCP_TFTP_SERVER_NAME = 66"

definition DHCP_BOOTFILE_NAME :: nat where "DHCP_BOOTFILE_NAME = 67"

text \<open>\<^verbatim>\<open>offsetof ( struct dhcphdr, options )\<close>\<close>

definition dhcphdr_len :: nat where "dhcphdr_len = 240"

definition dhcp_packet_fields :: "dhcp_packet_field_desc list" where
  "dhcp_packet_fields =
    [\<lparr>field_tag = DHCP_EB_YIADDR, field_offset = 16, field_len = 4, field_used_len = used_len_ipv4\<rparr>,
     \<lparr>field_tag = DHCP_EB_SIADDR, field_offset = 20, field_len = 4, field_used_len = used_len_ipv4\<rparr>,
     \<lparr>field_tag = DHCP_TFTP_SERVER_NAME, field_offset = 44, field_len = 64, field_used_len = used_len_string\<rparr>,
     \<lparr>field_tag = DHCP_BOOTFILE_NAME, field_offset = 108, field_len = 128, field_used_len = used_len_string\<rparr>]"

section \<open>Operations\<close>

definition find_dhcp_packet_field :: "nat \<Rightarrow> dhcp_packet_field_desc option" where
  "find_dhcp_packet_field tag = List.find (\<lambda>field. field_tag field = tag) dhcp_packet_fields"

definition dhcp_packet_field :: "u8 list \<Rightarrow> dhcp_packet_field_desc \<Rightarrow> u8 list" where
  "dhcp_packet_field hdr field = drop (field_offset field) hdr"

definition dhcppkt_applies :: "nat \<Rightarrow> bool" where
  "dhcppkt_applies tag = dhcpopt_applies tag"

definition dhcppkt_store ::
  "dhcp_packet \<Rightarrow> nat \<Rightarrow> u8 list \<Rightarrow> errno option \<times> dhcp_packet" where
  "dhcppkt_store pkt tag data =
     (case find_dhcp_packet_field tag of
        Some field \<Rightarrow>
          if length data > field_len field then (Some ENOSPC, pkt)
          else (case bind_err (write_list (pkt_hdr pkt) (field_offset field) (replicate (field_len field) 0))
                       (\<lambda>hdr. write_list hdr (field_offset field) data) of
                  Inl e \<Rightarrow> (Some e, pkt)
                | Inr hdr \<Rightarrow>
                    (None, pkt\<lparr>pkt_hdr := hdr,
                               pkt_options := snd (dhcpopt_store dhcpopt_no_realloc (pkt_options pkt) tag [])\<rparr>))
      | None \<Rightarrow>
          (case dhcpopt_store dhcpopt_no_realloc (pkt_options pkt) tag data of
             (rc, options) \<Rightarrow> (rc, pkt\<lparr>pkt_options := options\<rparr>)))"

definition dhcppkt_fetch :: "dhcp_packet \<Rightarrow> nat \<Rightarrow> nat \<Rightarrow> errno + nat \<times> u8 list" where
  "dhcppkt_fetch pkt tag len =
     bind_err
       (case find_dhcp_packet_field tag of
          Some field \<Rightarrow>
            (let field_data = dhcp_packet_field (pkt_hdr pkt) field
             in map_sum id (\<lambda>n. (field_data, n)) (field_used_len field field_data (field_len field)))
        | None \<Rightarrow> Inr ([], 0))
       (\<lambda>(field_data, flen).
          if flen \<noteq> 0 then
            map_sum id (\<lambda>d. (flen, d)) (read_list field_data 0 (if len > flen then flen else len))
          else dhcpopt_fetch (pkt_options pkt) tag len)"

text \<open>The settings interface of a packet: only settings without a scope apply.\<close>

record setting =
  setting_tag :: nat
  setting_scoped :: bool

definition dhcppkt_settings_applies :: "setting \<Rightarrow> bool" where
  "dhcppkt_settings_applies setting \<longleftrightarrow> \<not> setting_scoped setting \<and> dhcppkt_applies (setting_tag setting)"

definition dhcppkt_settings_store ::
  "dhcp_packet \<Rightarrow> setting \<Rightarrow> u8 list \<Rightarrow> errno option \<times> dhcp_packet" where
  "dhcppkt_settings_store pkt setting data = dhcppkt_store pkt (setting_tag setting) data"

definition dhcppkt_settings_fetch ::
  "dhcp_packet \<Rightarrow> setting \<Rightarrow> nat \<Rightarrow> errno + nat \<times> u8 list" where
  "dhcppkt_settings_fetch pkt setting len = dhcppkt_fetch pkt (setting_tag setting) len"

definition dhcppkt_init :: "dhcp_packet \<Rightarrow> u8 list \<Rightarrow> errno option \<times> dhcp_packet" where
  "dhcppkt_init pkt data =
     (case dhcpopt_init (pkt_options pkt) (drop dhcphdr_len data)
             (size_t (int (length data) - int dhcphdr_len)) of
        (rc, options) \<Rightarrow> (rc, pkt\<lparr>pkt_hdr := take dhcphdr_len data, pkt_options := options\<rparr>))"

definition dhcppkt_len :: "dhcp_packet \<Rightarrow> nat" where
  "dhcppkt_len pkt = dhcphdr_len + used_len (pkt_options pkt)"

section \<open>Fetching\<close>

lemma strnlen_takeWhile:
  "n \<le> length s \<Longrightarrow> strnlen s n = Inr (length (takeWhile (\<lambda>c. c \<noteq> 0) (take n s)))"
proof (induction s arbitrary: n)
  case Nil
  then show ?case by (simp add: strnlen.simps)
next
  case (Cons c s)
  then show ?case by (cases n) (auto simp: strnlen.simps [of "c # s"])
qed

lemmas packet_consts = DHCP_EB_YIADDR_def DHCP_EB_SIADDR_def DHCP_EB_ENCAP_def DHCP_TFTP_SERVER_NAME_def
  DHCP_BOOTFILE_NAME_def DHCP_ENCAP_OPT_def dhcphdr_len_def

lemma find_dhcp_packet_field_simps:
  "find_dhcp_packet_field tag =
     (if tag = 44802 then Some \<lparr>field_tag = 44802, field_offset = 16, field_len = 4, field_used_len = used_len_ipv4\<rparr>
      else if tag = 44803 then Some \<lparr>field_tag = 44803, field_offset = 20, field_len = 4, field_used_len = used_len_ipv4\<rparr>
      else if tag = 66 then Some \<lparr>field_tag = 66, field_offset = 44, field_len = 64, field_used_len = used_len_string\<rparr>
      else if tag = 67 then Some \<lparr>field_tag = 67, field_offset = 108, field_len = 128, field_used_len = used_len_string\<rparr>
      else None)"
  by (auto simp: find_dhcp_packet_field_def dhcp_packet_fields_def packet_consts)

text \<open>
  The abstract view of the header: the value of a setting that has a dedicated field, when
  the field is populated.
\<close>

definition field_bytes :: "u8 list \<Rightarrow> nat \<Rightarrow> nat \<Rightarrow> u8 list" where
  "field_bytes hdr offset len = take len (drop offset hdr)"

definition ipv4_value :: "u8 list \<Rightarrow> u8 list option" where
  "ipv4_value v = (if \<exists>b \<in> set v. b \<noteq> 0 then Some v else None)"

definition string_value :: "u8 list \<Rightarrow> u8 list option" where
  "string_value v = (let s = takeWhile (\<lambda>c. c \<noteq> 0) v in if s = [] then None else Some s)"

definition field_value :: "u8 list \<Rightarrow> nat \<Rightarrow> u8 list option" where
  "field_value hdr tag =
     (if tag = DHCP_EB_YIADDR then ipv4_value (field_bytes hdr 16 4)
      else if tag = DHCP_EB_SIADDR then ipv4_value (field_bytes hdr 20 4)
      else if tag = DHCP_TFTP_SERVER_NAME then string_value (field_bytes hdr 44 64)
      else if tag = DHCP_BOOTFILE_NAME then string_value (field_bytes hdr 108 128)
      else None)"

lemma fetch_ipv4_field:
  assumes "offset + 4 \<le> length hdr"
  shows "bind_err (map_sum id (\<lambda>n. (drop offset hdr, n)) (used_len_ipv4 (drop offset hdr) 4))
      (\<lambda>(d, flen). if flen \<noteq> 0 then map_sum id (\<lambda>d. (flen, d)) (read_list d 0 (if len > flen then flen else len))
                   else other) =
    (case ipv4_value (field_bytes hdr offset 4) of Some v \<Rightarrow> Inr (length v, take len v) | None \<Rightarrow> other)"
  using assms
  by (auto simp: used_len_ipv4_def ipv4_value_def field_bytes_def read_list_ok min_def)

lemma fetch_string_field:
  assumes "offset + n \<le> length hdr"
  shows "bind_err (map_sum id (\<lambda>n. (drop offset hdr, n)) (used_len_string (drop offset hdr) n))
      (\<lambda>(d, flen). if flen \<noteq> 0 then map_sum id (\<lambda>d. (flen, d)) (read_list d 0 (if len > flen then flen else len))
                   else other) =
    (case string_value (field_bytes hdr offset n) of Some v \<Rightarrow> Inr (length v, take len v) | None \<Rightarrow> other)"
proof -
  let ?v = "takeWhile (\<lambda>c. c \<noteq> 0) (take n (drop offset hdr))"
  have l: "length ?v \<le> n" using length_takeWhile_le [of "\<lambda>c. c \<noteq> 0" "take n (drop offset hdr)"] by simp
  have "?v = take (length ?v) (take n (drop offset hdr))" by (rule takeWhile_eq_take)
  also have "\<dots> = take (length ?v) (drop offset hdr)" using l by (simp add: min_def)
  finally have v: "take (length ?v) (drop offset hdr) = ?v" by simp
  then have "take len ?v = take (min len (length ?v)) (drop offset hdr)" by (metis take_take)
  then show ?thesis
    using assms l v
    by (auto simp: used_len_string_def string_value_def field_bytes_def strnlen_takeWhile read_list_ok min_def Let_def)
qed

lemma fetch_field:
  assumes "length (pkt_hdr pkt) = dhcphdr_len"
  shows "dhcppkt_fetch pkt tag len =
    (case field_value (pkt_hdr pkt) tag of
       Some v \<Rightarrow> Inr (length v, take len v)
     | None \<Rightarrow> dhcpopt_fetch (pkt_options pkt) tag len)"
  using assms
  by (simp add: dhcppkt_fetch_def find_dhcp_packet_field_simps field_value_def dhcp_packet_field_def Let_def
      fetch_ipv4_field [simplified] fetch_string_field [simplified] packet_consts)

text \<open>
  C15. A packet setting is read from its dedicated header field when that is populated, and
  from the option block otherwise; the reads stay within the header.
\<close>

theorem dhcppkt_fetch_correct:
  assumes "length (pkt_hdr pkt) = dhcphdr_len"
  shows "dhcppkt_fetch pkt tag len =
    (case field_value (pkt_hdr pkt) tag of
       Some v \<Rightarrow> Inr (length v, take len v)
     | None \<Rightarrow> dhcpopt_fetch (pkt_options pkt) tag len)"
  using assms by (rule fetch_field)

section \<open>Storing\<close>

text \<open>The values a dedicated field can hold: they come back as they were stored.\<close>

definition field_storable :: "nat \<Rightarrow> u8 list \<Rightarrow> bool" where
  "field_storable tag data \<longleftrightarrow>
     (tag = DHCP_EB_YIADDR \<or> tag = DHCP_EB_SIADDR) \<and> length data = 4 \<and> (\<exists>b \<in> set data. b \<noteq> 0) \<or>
     tag = DHCP_TFTP_SERVER_NAME \<and> data \<noteq> [] \<and> 0 \<notin> set data \<and> length data \<le> 64 \<or>
     tag = DHCP_BOOTFILE_NAME \<and> data \<noteq> [] \<and> 0 \<notin> set data \<and> length data \<le> 128"

lemma field_storableE:
  assumes "field_storable tag data"
  obtains "tag = DHCP_EB_YIADDR" "length data = 4" "\<exists>b \<in> set data. b \<noteq> 0"
    | "tag = DHCP_EB_SIADDR" "length data = 4" "\<exists>b \<in> set data. b \<noteq> 0"
    | "tag = DHCP_TFTP_SERVER_NAME" "data \<noteq> []" "0 \<notin> set data" "length data \<le> 64"
    | "tag = DHCP_BOOTFILE_NAME" "data \<noteq> []" "0 \<notin> set data" "length data \<le> 128"
  using assms by (auto simp: field_storable_def)

lemma store_field:
  assumes "offset + n \<le> length hdr" "length data \<le> n"
  shows "bind_err (write_list hdr offset (replicate n 0)) (\<lambda>h. write_list h offset data) =
    Inr (take offset hdr @ data @ replicate (n - length data) 0 @ drop (offset + n) hdr)"
  using assms by (simp add: write_list_ok)

lemma field_bytes_store:
  assumes "offset + n \<le> length hdr" "length data \<le> n"
    and h: "h = take offset hdr @ data @ replicate (n - length data) 0 @ drop (offset + n) hdr"
  shows "field_bytes h offset n = data @ replicate (n - length data) 0"
    and "off' + m \<le> offset \<or> offset + n \<le> off' \<Longrightarrow> field_bytes h off' m = field_bytes hdr off' m"
proof -
  show "field_bytes h offset n = data @ replicate (n - length data) 0"
    using assms by (simp add: field_bytes_def)
  assume "off' + m \<le> offset \<or> offset + n \<le> off'"
  then show "field_bytes h off' m = field_bytes hdr off' m"
  proof
    assume o: "off' + m \<le> offset"
    have "drop off' h = take (offset - off') (drop off' hdr) @ data @ replicate (n - length data) 0 @ drop (offset + n) hdr"
      using o assms by (simp add: drop_take)
    then show ?thesis using o assms by (simp add: field_bytes_def)
  next
    assume o: "offset + n \<le> off'"
    have "drop off' h = drop (off' - (offset + n)) (drop (offset + n) hdr)"
      using o assms by simp
    also have "\<dots> = drop off' hdr" using o by simp
    finally show ?thesis by (simp add: field_bytes_def)
  qed
qed

lemma string_value_padded:
  "data \<noteq> [] \<Longrightarrow> 0 \<notin> set data \<Longrightarrow> string_value (data @ replicate k 0) = Some data"
proof -
  assume a: "data \<noteq> []" "0 \<notin> set data"
  then have "takeWhile (\<lambda>c. c \<noteq> 0) (data @ replicate k 0) = data"
    by (subst takeWhile_append2) (auto simp: takeWhile_replicate)
  then show ?thesis using a by (simp add: string_value_def)
qed

text \<open>
  C16. A value stored in a dedicated header field is read back, and the other fields keep
  their values: storing an address or a string without NUL that fits the field succeeds,
  a later fetch returns it, and no other field of the header changes.
\<close>

theorem dhcppkt_field_roundtrip:
  assumes hdr: "length (pkt_hdr pkt) = dhcphdr_len" and data: "field_storable tag data"
  shows "\<exists>pkt'. dhcppkt_store pkt tag data = (None, pkt') \<and> length (pkt_hdr pkt') = dhcphdr_len \<and>
    dhcppkt_fetch pkt' tag len = Inr (length data, take len data) \<and>
    (\<forall>tag'. tag' \<noteq> tag \<longrightarrow> field_value (pkt_hdr pkt') tag' = field_value (pkt_hdr pkt) tag')"
proof -
  obtain field where f: "find_dhcp_packet_field tag = Some field" "length data \<le> field_len field"
      "field_offset field + field_len field \<le> length (pkt_hdr pkt)"
    using data hdr by (auto simp: field_storable_def find_dhcp_packet_field_simps packet_consts)
  let ?h = "take (field_offset field) (pkt_hdr pkt) @ data @ replicate (field_len field - length data) 0 @
      drop (field_offset field + field_len field) (pkt_hdr pkt)"
  obtain pkt' where s: "dhcppkt_store pkt tag data = (None, pkt')" "pkt_hdr pkt' = ?h"
    using f store_field [OF f(3,2)] by (simp add: dhcppkt_store_def)
  have l: "length (pkt_hdr pkt') = dhcphdr_len" using f hdr by (simp add: s(2))
  note b = field_bytes_store [OF f(3,2) s(2)]
  have v: "field_value (pkt_hdr pkt') tag = Some data"
    using data f(1,2) b(1)
    by (elim field_storableE) (auto simp: find_dhcp_packet_field_simps field_value_def packet_consts
      ipv4_value_def string_value_padded)
  have o: "field_value (pkt_hdr pkt') tag' = field_value (pkt_hdr pkt) tag'" if "tag' \<noteq> tag" for tag'
    using that f(1) b(2)
    by (auto simp: find_dhcp_packet_field_simps field_value_def packet_consts split: if_split_asm)
  show ?thesis
    using s(1) l v o fetch_field [OF l, of tag len] by auto
qed

section \<open>Instances\<close>

definition demo_packet :: dhcp_packet where
  "demo_packet = \<lparr>pkt_hdr = replicate 108 0 @ [105, 112, 120, 101] @ replicate 128 0,
                  pkt_options = demo_options\<rparr>"

lemma demo_packet_hdr: "length (pkt_hdr demo_packet) = dhcphdr_len"
  by (simp add: demo_packet_def dhcphdr_len_def)

theorem dhcppkt_fetch_correct_witness:
  "dhcppkt_fetch demo_packet DHCP_BOOTFILE_NAME 3 = Inr (4, [105, 112, 120]) \<and>
   dhcppkt_fetch demo_packet DHCP_TFTP_SERVER_NAME 3 = dhcpopt_fetch demo_options DHCP_TFTP_SERVER_NAME 3"
  using dhcppkt_fetch_correct [OF demo_packet_hdr, of DHCP_BOOTFILE_NAME 3]
    dhcppkt_fetch_correct [OF demo_packet_hdr, of DHCP_TFTP_SERVER_NAME 3]
  by (simp add: demo_packet_def field_value_def packet_consts field_bytes_def string_value_def takeWhile_replicate)

theorem dhcppkt_field_roundtrip_witness:
  "\<exists>pkt'. dhcppkt_store demo_packet DHCP_EB_YIADDR [10, 0, 0, 9] = (None, pkt') \<and>
     dhcppkt_fetch pkt' DHCP_EB_YIADDR 8 = Inr (4, [10, 0, 0, 9])"
  using dhcppkt_field_roundtrip [OF demo_packet_hdr, of DHCP_EB_YIADDR "[10, 0, 0, 9]" 8]
  by (auto simp: field_storable_def)
end
