(* ===== verification/Nvo.thy ===== *)
theory Nvo
  imports Dhcppkt
begin

text \<open>
  Non-volatile stored options, \<^verbatim>\<open>core/nvo.c\<close>: an option block kept, behind a checksum byte,
  in a non-volatile storage device.

  \<^verbatim>\<open>nvo->data\<close> is the checksum byte followed by the memory of the option block, so it is
  \<open>nvo_csum # opt_data\<close> when \<open>nvo_len\<close> is not zero and empty otherwise.  The storage device
  (\<open>nvs_read\<close>, \<open>nvs_write\<close>), the owner's \<^verbatim>\<open>resize\<close> method, the success of \<^verbatim>\<open>realloc()\<close> and
  the bytes of freshly allocated memory are parameters.
\<close>

section \<open>Data\<close>

record nvo_block = dhcp_options +
  nvo_csum :: u8
  nvo_len :: nat

type_synonym nvo_resize = "(nat \<Rightarrow> errno option) option"

definition nvo_data :: "nvo_block \<Rightarrow> u8 list" where
  "nvo_data nvo = (if nvo_len nvo = 0 then [] else nvo_csum nvo # opt_data nvo)"

section \<open>Operations\<close>

fun nvo_checksum_loop :: "u8 list \<Rightarrow> u8 \<Rightarrow> u8" where
  "nvo_checksum_loop [] acc = acc"
| "nvo_checksum_loop (b # data) acc = nvo_checksum_loop data (acc + b)"

definition nvo_checksum :: "nvo_block \<Rightarrow> u8" where
  "nvo_checksum nvo = nvo_checksum_loop (nvo_data nvo) 0"

definition nvo_set_data :: "u8 list \<Rightarrow> nvo_block \<Rightarrow> nvo_block" where
  "nvo_set_data d nvo = (if d = [] then nvo else nvo\<lparr>nvo_csum := hd d, opt_data := tl d\<rparr>)"

definition nvo_realloc ::
  "(nat \<Rightarrow> bool) \<Rightarrow> (nat \<Rightarrow> u8) \<Rightarrow> nvo_block \<Rightarrow> nat \<Rightarrow> errno option \<times> nvo_block" where
  "nvo_realloc alloc fresh nvo len =
     (if \<not> alloc len then (Some ENOMEM, nvo)
      else
        let new_data = take len (nvo_data nvo) @ map fresh [length (nvo_data nvo)..<len];
            nvo1 = (nvo_set_data new_data nvo)\<lparr>nvo_len := len\<rparr>
        in (None, if len \<noteq> 0 then nvo1\<lparr>alloc_len := len - 1\<rparr>
                  else nvo1\<lparr>opt_data := [], used_len := 0, alloc_len := 0\<rparr>))"

definition nvo_realloc_dhcpopt ::
  "nvo_resize \<Rightarrow> (nat \<Rightarrow> bool) \<Rightarrow> (nat \<Rightarrow> u8) \<Rightarrow> nvo_block \<Rightarrow> nat \<Rightarrow> errno option \<times> nvo_block" where
  "nvo_realloc_dhcpopt resize alloc fresh nvo len =
     (case resize of
        None \<Rightarrow> dhcpopt_no_realloc nvo len
      | Some rs \<Rightarrow>
          let len = (if len \<noteq> 0 then len + 1 else len)
          in case rs len of
               Some e \<Rightarrow> (Some e, nvo)
             | None \<Rightarrow> nvo_realloc alloc fresh nvo len)"

definition nvo_load :: "(nat \<Rightarrow> errno + u8 list) \<Rightarrow> nvo_block \<Rightarrow> errno option \<times> nvo_block" where
  "nvo_load nvs_read nvo =
     (if nvo_len nvo = 0 then (None, nvo)
      else case nvs_read (nvo_len nvo) of
        Inl e \<Rightarrow> (Some e, nvo)
      | Inr d \<Rightarrow>
          let nvo1 = nvo_set_data d nvo
          in case rd (opt_data nvo1) 0 of
               Inl e \<Rightarrow> (Some e, nvo1)
             | Inr b \<Rightarrow>
                 let nvo2 = (if nvo_checksum nvo1 \<noteq> 0 \<or> b = 0
                             then nvo_set_data (replicate (nvo_len nvo1) 0) nvo1 else nvo1)
                 in dhcpopt_update_used_len nvo2)"

text \<open>The second component of the result is the block, the third what was written.\<close>

definition nvo_save ::
  "(u8 list \<Rightarrow> errno option) \<Rightarrow> nvo_block \<Rightarrow> errno option \<times> nvo_block \<times> u8 list" where
  "nvo_save nvs_write nvo =
     (let nvo1 = (if nvo_len nvo > 0 then nvo\<lparr>nvo_csum := nvo_csum nvo - nvo_checksum nvo\<rparr> else nvo)
      in (nvs_write (nvo_data nvo1), nvo1, nvo_data nvo1))"

definition nvo_applies :: "setting \<Rightarrow> bool" where
  "nvo_applies setting \<longleftrightarrow> \<not> setting_scoped setting \<and> dhcpopt_applies (setting_tag setting)"

definition nvo_store ::
  "nvo_resize \<Rightarrow> (nat \<Rightarrow> bool) \<Rightarrow> (nat \<Rightarrow> u8) \<Rightarrow> (u8 list \<Rightarrow> errno option) \<Rightarrow> nvo_block \<Rightarrow> setting \<Rightarrow> u8 list
   \<Rightarrow> errno option \<times> nvo_block" where
  "nvo_store resize alloc fresh nvs_write nvo setting data =
     (case dhcpopt_store (nvo_realloc_dhcpopt resize alloc fresh) nvo (setting_tag setting) data of
        (Some e, nvo1) \<Rightarrow> (Some e, nvo1)
      | (None, nvo1) \<Rightarrow> (case nvo_save nvs_write nvo1 of (rc, nvo2, _) \<Rightarrow> (rc, nvo2)))"

definition nvo_fetch :: "nvo_block \<Rightarrow> setting \<Rightarrow> nat \<Rightarrow> errno + nat \<times> u8 list" where
  "nvo_fetch nvo setting len = dhcpopt_fetch nvo (setting_tag setting) len"

definition nvo_init :: "nvo_block \<Rightarrow> nat \<Rightarrow> errno option \<times> nvo_block" where
  "nvo_init nvo len = dhcpopt_init (nvo\<lparr>nvo_len := len\<rparr>) [] 0"

text \<open>
  \<open>reg\<close> is the result of \<^verbatim>\<open>register_settings()\<close>.  Before registration the block has a length but
  no data yet.
\<close>

definition register_nvo ::
  "(nat \<Rightarrow> bool) \<Rightarrow> (nat \<Rightarrow> u8) \<Rightarrow> (nat \<Rightarrow> errno + u8 list) \<Rightarrow> errno option \<Rightarrow> nvo_block
   \<Rightarrow> errno option \<times> nvo_block" where
  "register_nvo alloc fresh nvs_read reg nvo =
     (case nvo_realloc alloc fresh (nvo\<lparr>nvo_len := 0\<rparr>) (nvo_len nvo) of
        (Some e, _) \<Rightarrow> (Some e, nvo)
      | (None, nvo1) \<Rightarrow>
          (case nvo_load nvs_read nvo1 of
             (Some e, nvo2) \<Rightarrow> (Some e, snd (nvo_realloc alloc fresh nvo2 0))
           | (None, nvo2) \<Rightarrow>
               (case reg of
                  Some e \<Rightarrow> (Some e, snd (nvo_realloc alloc fresh nvo2 0))
                | None \<Rightarrow> (None, nvo2))))"

definition unregister_nvo ::
  "(nat \<Rightarrow> bool) \<Rightarrow> (nat \<Rightarrow> u8) \<Rightarrow> nvo_block \<Rightarrow> nvo_block" where
  "unregister_nvo alloc fresh nvo = snd (nvo_realloc alloc fresh nvo 0)"

section \<open>The option block on top of the storage\<close>

definition nvo_ok :: "nvo_block \<Rightarrow> bool" where
  "nvo_ok nvo \<longleftrightarrow> length (opt_data nvo) = alloc_len nvo \<and> used_len nvo \<le> alloc_len nvo \<and>
     alloc_len nvo < 9223372036854775808 \<and>
     (if nvo_len nvo = 0 then alloc_len nvo = 0 else nvo_len nvo = alloc_len nvo + 1)"

lemma nvo_realloc_ok:
  assumes "nvo_ok nvo" "used_len nvo \<le> n" "n < 9223372036854775808"
    "nvo_realloc alloc fresh nvo (if n \<noteq> 0 then n + 1 else n) = (None, o')"
  shows "nvo_ok o' \<and> n \<le> alloc_len o' \<and> used_len o' = used_len nvo \<and>
      take (min n (alloc_len nvo)) (opt_data o') = take (min n (alloc_len nvo)) (opt_data nvo)"
  using assms
  by (auto simp: nvo_ok_def nvo_realloc_def nvo_set_data_def nvo_data_def Let_def min_def split: if_splits)

text \<open>
  What the environment provides: the allocator never hands out half of the address space or
  more, and the owner's resize method fails with a genuine error number.
\<close>

definition nvo_env :: "nvo_resize \<Rightarrow> (nat \<Rightarrow> bool) \<Rightarrow> bool" where
  "nvo_env resize alloc \<longleftrightarrow> (\<forall>n. alloc n \<longrightarrow> n < 9223372036854775808) \<and>
     (\<forall>rs n. resize = Some rs \<longrightarrow> rs n \<noteq> Some EFAULT_OOB)"

text \<open>The option code's contract holds for the reallocation method of a stored block.\<close>

lemma nvo_reallocator:
  assumes env: "nvo_env resize alloc"
  shows "dhcp_reallocator (nvo_realloc_dhcpopt resize alloc fresh) nvo_ok"
proof
  fix options :: nvo_block and n o' e d
  assume ok: "nvo_ok options"
  show "length (opt_data options) = alloc_len options \<and> used_len options \<le> alloc_len options \<and>
      alloc_len options < 9223372036854775808"
    using ok by (simp add: nvo_ok_def)
  show "length d = alloc_len options \<Longrightarrow> n \<le> alloc_len options \<Longrightarrow>
      nvo_ok (options\<lparr>opt_data := d, used_len := n\<rparr>)"
    using ok by (auto simp: nvo_ok_def)
  assume u: "used_len options \<le> n"
  show "nvo_realloc_dhcpopt resize alloc fresh options n = (None, o') \<Longrightarrow>
      nvo_ok o' \<and> n \<le> alloc_len o' \<and> used_len o' = used_len options \<and>
      take (min n (alloc_len options)) (opt_data o') = take (min n (alloc_len options)) (opt_data options)"
  proof (cases resize)
    case None
    assume "nvo_realloc_dhcpopt resize alloc fresh options n = (None, o')"
    then show ?thesis using ok None
      by (auto simp: nvo_realloc_dhcpopt_def dhcpopt_no_realloc_def split: if_splits)
  next
    case (Some rs)
    assume r: "nvo_realloc_dhcpopt resize alloc fresh options n = (None, o')"
    then have r': "nvo_realloc alloc fresh options (if n \<noteq> 0 then n + 1 else n) = (None, o')"
      using Some by (auto simp: nvo_realloc_dhcpopt_def Let_def split: option.splits)
    then have "alloc (if n \<noteq> 0 then n + 1 else n)" by (simp add: nvo_realloc_def split: if_splits)
    then have "(if n \<noteq> 0 then n + 1 else n) < 9223372036854775808" using env unfolding nvo_env_def by blast
    then have "n < 9223372036854775808" by (simp split: if_splits)
    from nvo_realloc_ok [OF ok u this r'] show ?thesis .
  qed
  show "nvo_realloc_dhcpopt resize alloc fresh options n = (Some e, o') \<Longrightarrow> e \<noteq> EFAULT_OOB \<and> o' = options"
    using env
    by (auto simp: nvo_env_def nvo_realloc_dhcpopt_def dhcpopt_no_realloc_def nvo_realloc_def Let_def
        split: option.splits if_splits)
qed

lemma checksum_loop_add: "nvo_checksum_loop d s = s + nvo_checksum_loop d 0"
proof (induction d arbitrary: s)
  case (Cons b d)
  show ?case using Cons [of "s + b"] Cons [of b] by (simp add: add.assoc)
qed simp

lemma checksum_fixed:
  "0 < nvo_len nvo \<Longrightarrow> nvo_checksum (nvo\<lparr>nvo_csum := nvo_csum nvo - nvo_checksum nvo\<rparr>) = 0"
  by (simp add: nvo_checksum_def nvo_data_def checksum_loop_add [of _ "nvo_csum nvo"]
      checksum_loop_add [of "opt_data nvo" "- nvo_checksum_loop (opt_data nvo) 0"])

lemma fetch_cong:
  "opt_data a = opt_data b \<Longrightarrow> used_len a = used_len b \<Longrightarrow> dhcpopt_fetch a tag len = dhcpopt_fetch b tag len"
  by (simp add: dhcpopt_fetch_def find_dhcp_option_with_encap_def)

text \<open>
  C17. A stored setting survives.  When storing a non-empty value under a plain tag in the
  non-volatile options succeeds, it can be fetched again, the block is consistent, and the
  bytes written to the storage device sum to zero, so that loading will accept them.
\<close>

theorem nvo_store_fetch:
  assumes env: "nvo_env resize alloc" and ok: "nvo_ok nvo" and rep: "opts_rep nvo opts"
    and t: "0 < setting_tag s" "setting_tag s < 255" and d: "data \<noteq> []"
    and st: "nvo_store resize alloc fresh nvs_write nvo s data = (None, nvo')"
  shows "nvo_fetch nvo' s len = Inr (length data, take len data) \<and> nvo_ok nvo' \<and>
    nvs_write (nvo_data nvo') = None \<and> nvo_checksum nvo' = 0"
proof -
  let ?r = "nvo_realloc_dhcpopt resize alloc fresh"
  obtain nvo1 off where s1: "set_dhcp_option ?r nvo (setting_tag s) data = (Inr off, nvo1)"
      "nvo_save nvs_write nvo1 = (None, nvo', nvo_data nvo')"
    using st by (auto simp: nvo_store_def dhcpopt_store_def nvo_save_def Let_def split: prod.splits sum.splits)
  note sp = dhcp_reallocator.set_spec [OF nvo_reallocator [OF env] ok rep t s1(1)]
  have o1: "nvo_ok nvo1" "opts_rep nvo1 (opt_store (setting_tag s) data opts)" using sp by simp_all
  have "dhcpopt_fetch nvo1 (setting_tag s) len = Inr (length data, take len data)"
    using dhcpopt_fetch_rep [OF o1(2) t] opt_lookup_store_same [OF d, of "setting_tag s" opts] t by simp
  moreover have "0 < nvo_len nvo1"
  proof (rule ccontr)
    assume "\<not> ?thesis"
    then have "opt_data nvo1 = []" using o1(1) by (auto simp: nvo_ok_def)
    then have "enc_opts (opt_store (setting_tag s) data opts) = []" using o1(2) by (simp add: opts_rep_def)
    then show False using t d by (simp add: enc_opt_store new_opt_def)
  qed
  moreover have "opt_data nvo' = opt_data nvo1" "used_len nvo' = used_len nvo1"
    using s1(2) by (auto simp: nvo_save_def Let_def split: if_splits)
  ultimately show ?thesis
    using s1(2) o1(1) checksum_fixed [of nvo1] fetch_cong [of nvo' nvo1]
    by (auto simp: nvo_save_def nvo_fetch_def nvo_ok_def Let_def)
qed

text \<open>
  Saving and loading agree.  What a block that starts with a real option writes to the
  storage device, a freshly loaded block of the same size accepts as valid: it takes over
  exactly the saved option bytes and recomputes a well-formed used part, unless the saved
  bytes themselves end in the middle of an option.
\<close>

theorem nvo_load_saved:
  assumes "nvo_ok nvo" "0 < alloc_len nvo" "opt_data nvo ! 0 \<noteq> 0"
    and "nvo_save nvs_write nvo = (rc, saved, bytes)"
    and "nvo_ok fresh_nvo" "nvo_len fresh_nvo = nvo_len nvo"
    and "nvo_load (\<lambda>n. Inr bytes) fresh_nvo = (None, loaded)"
  shows "opt_data loaded = opt_data nvo \<and> nvo_csum loaded = nvo_csum saved \<and> (\<exists>opts. opts_rep loaded opts)"
proof -
  let ?n = "nvo_set_data bytes fresh_nvo"
  have l: "0 < nvo_len nvo" "nvo_len nvo = alloc_len nvo + 1" "length (opt_data nvo) = alloc_len nvo"
    using assms(1,2) by (auto simp: nvo_ok_def split: if_splits)
  have b: "bytes = nvo_csum saved # opt_data nvo" "saved = nvo\<lparr>nvo_csum := nvo_csum nvo - nvo_checksum nvo\<rparr>"
    using assms(4) l by (auto simp: nvo_save_def nvo_data_def Let_def)
  have c: "nvo_checksum ?n = 0"
    using checksum_fixed [OF l(1)] l assms(6) b by (simp add: nvo_checksum_def nvo_data_def nvo_set_data_def)
  have n: "opt_data ?n = opt_data nvo" "nvo_csum ?n = nvo_csum saved" "alloc_len ?n = length (opt_data nvo)"
    using b(1) assms(5,6) l by (auto simp: nvo_set_data_def nvo_ok_def split: if_splits)
  have ne: "opt_data nvo \<noteq> []" using l assms(2) by auto
  have "dhcpopt_update_used_len ?n = (None, loaded)"
    using assms(3,6,7) l c n(1) ne by (simp add: nvo_load_def Let_def rd_def)
  then obtain u where u: "update_used_len_loop (opt_data nvo) 0 (length (opt_data nvo)) 0 = Inr u"
      "loaded = ?n\<lparr>used_len := u\<rparr>"
    using n by (auto simp: dhcpopt_update_used_len_def split: sum.splits)
  have "u \<le> length (opt_data nvo) \<and> (\<exists>opts'. list_all opt_valid opts' \<and> take u (opt_data nvo) = enc_opts opts')"
    using update_used_len_rep [OF u(1), of "[]"] exI [of "\<lambda>x. list_all opt_valid x \<and> [] = enc_opts x" "[]"] by simp
  then show ?thesis using u(2) n by (auto simp: opts_rep_def)
qed

section \<open>Instances\<close>

definition demo_nvo :: nvo_block where
  "demo_nvo = \<lparr>opt_data = [], used_len = 0, alloc_len = 0, nvo_csum = 0, nvo_len = 0\<rparr>"

definition demo_stored :: nvo_block where
  "demo_stored = \<lparr>opt_data = [12, 2, 1, 7], used_len = 4, alloc_len = 4, nvo_csum = 234, nvo_len = 5\<rparr>"

definition demo_setting :: setting where
  "demo_setting = \<lparr>setting_tag = 12, setting_scoped = False\<rparr>"

lemma demo_nvo_ok: "nvo_ok demo_nvo" "opts_rep demo_nvo []" "nvo_ok demo_stored"
  "nvo_env (Some (\<lambda>_. None)) (\<lambda>n. n < 1000)"
  by (simp_all add: demo_nvo_def demo_stored_def nvo_ok_def opts_rep_def nvo_env_def)

lemmas nvo_eval = nvo_realloc_dhcpopt_def nvo_realloc_def nvo_set_data_def nvo_data_def nvo_checksum_def

lemma demo_nvo_set:
  "set_dhcp_option (nvo_realloc_dhcpopt (Some (\<lambda>_. None)) (\<lambda>n. n < 1000) (\<lambda>_. 170)) demo_nvo 12 [1, 7] =
     (Inr 0, \<lparr>opt_data = [12, 2, 1, 7], used_len = 4, alloc_len = 4, nvo_csum = 170, nvo_len = 5\<rparr>)"
  by (subst set_dhcp_option.simps) (simp add: option_eval nvo_eval demo_nvo_def upt_rec)

lemma demo_nvo_store:
  "nvo_store (Some (\<lambda>_. None)) (\<lambda>n. n < 1000) (\<lambda>_. 170) (\<lambda>_. None) demo_nvo demo_setting [1, 7] =
     (None, demo_stored)"
  by (simp add: nvo_store_def dhcpopt_store_def demo_setting_def demo_nvo_set nvo_save_def nvo_eval demo_stored_def)

theorem nvo_store_fetch_witness:
  "nvo_fetch demo_stored demo_setting 16 = Inr (2, [1, 7]) \<and> nvo_checksum demo_stored = 0"
  using nvo_store_fetch [OF demo_nvo_ok(4,1,2) _ _ _ demo_nvo_store, of 16]
  by (simp add: demo_setting_def)

theorem nvo_load_saved_witness:
  "\<exists>loaded. nvo_load (\<lambda>n. Inr [234, 12, 2, 1, 7]) (demo_stored\<lparr>opt_data := [0, 0, 0, 0], used_len := 0\<rparr>) =
     (None, loaded) \<and> opt_data loaded = [12, 2, 1, 7]"
proof -
  have s: "nvo_save (\<lambda>_. None) demo_stored = (None, demo_stored, [234, 12, 2, 1, 7])"
    by (simp add: nvo_save_def nvo_eval demo_stored_def)
  have f: "nvo_ok (demo_stored\<lparr>opt_data := [0, 0, 0, 0], used_len := 0\<rparr>)"
    by (simp add: nvo_ok_def demo_stored_def)
  obtain loaded where "nvo_load (\<lambda>n. Inr [234, 12, 2, 1, 7])
      (demo_stored\<lparr>opt_data := [0, 0, 0, 0], used_len := 0\<rparr>) = (None, loaded)"
    by (simp add: nvo_load_def nvo_eval demo_stored_def dhcpopt_update_used_len_def update_used_len_loop.simps
        dhcp_option_len_def rd_def dhcp_consts Let_def)
  with nvo_load_saved [OF demo_nvo_ok(3) _ _ s f _ this] show ?thesis by (simp add: demo_stored_def)
qed
end
