(* ===== verification/Tcpip.thy ===== *)
theory Tcpip
  imports IPXE_Prelude
begin

text \<open>
  The interface between transport and network layers, \<^verbatim>\<open>net/tcpip.c\<close>: dispatch of packets,
  the Internet checksum and the choice of a local port.

  The protocol tables, which the linker collects, are list parameters; a protocol's methods
  are functions.  Ports are kept in host byte order.  \<^verbatim>\<open>random()\<close> and the port-availability check are parameters of
  \<open>tcpip_bind\<close>.
\<close>

section \<open>Protocols\<close>

record sockaddr_tcpip =
  st_family :: u16
  st_flags :: u16
  st_port :: u16
  st_scope_id :: u16
  st_pad :: "u8 list"

record ip_statistics =
  in_receives :: u64
  in_octets :: u64
  in_hdr_errors :: u64
  in_addr_errors :: u64
  in_unknown_protos :: u64
  in_truncated_pkts :: u64
  reasm_reqds :: u64
  reasm_oks :: u64
  reasm_fails :: u64
  in_delivers :: u64
  out_requests :: u64
  out_no_routes :: u64
  out_transmits :: u64
  out_octets :: u64
  in_mcast_pkts :: u64
  out_mcast_pkts :: u64
  in_bcast_pkts :: u64
  out_bcast_pkts :: u64

record net_device =
  netdev_mtu :: u64

record ('iob, 'r) tcpip_protocol =
  tcpip_name :: string
  tcpip_proto_rx :: "'iob \<Rightarrow> net_device \<Rightarrow> sockaddr_tcpip \<Rightarrow> sockaddr_tcpip \<Rightarrow> u16 \<Rightarrow> 'r"
  zero_csum :: u16
  tcpip_proto :: u8

text \<open>The checksum to complete is given by its offset in the packet.\<close>

record ('iob, 'r) tcpip_net_protocol =
  tcpip_net_name :: string
  sa_family :: u16
  header_len :: u64
  tcpip_net_tx :: "'iob \<Rightarrow> ('iob, 'r) tcpip_protocol \<Rightarrow> sockaddr_tcpip option \<Rightarrow> sockaddr_tcpip
    \<Rightarrow> net_device option \<Rightarrow> nat option \<Rightarrow> 'r"
  tcpip_net_netdev :: "sockaddr_tcpip \<Rightarrow> net_device option"

text \<open>
  What became of a packet: handed to a protocol, whose result it is, or freed with an error.
\<close>

datatype 'r handed = Handed 'r | Freed errno

fun tcpip_rx ::
  "('iob, 'r) tcpip_protocol list \<Rightarrow> 'iob \<Rightarrow> net_device \<Rightarrow> u8 \<Rightarrow> sockaddr_tcpip \<Rightarrow> sockaddr_tcpip \<Rightarrow> u16
   \<Rightarrow> ip_statistics \<Rightarrow> 'r handed \<times> ip_statistics" where
  "tcpip_rx [] iobuf netdev proto st_src st_dest pshdr_csum stats =
     (Freed EPROTONOSUPPORT, stats\<lparr>in_unknown_protos := in_unknown_protos stats + 1\<rparr>)"
| "tcpip_rx (tcpip # table) iobuf netdev proto st_src st_dest pshdr_csum stats =
     (if tcpip_proto tcpip = proto
      then (Handed (tcpip_proto_rx tcpip iobuf netdev st_src st_dest pshdr_csum),
            stats\<lparr>in_delivers := in_delivers stats + 1\<rparr>)
      else tcpip_rx table iobuf netdev proto st_src st_dest pshdr_csum stats)"

fun find_tcpip_net_protocol ::
  "('iob, 'r) tcpip_net_protocol list \<Rightarrow> u16 \<Rightarrow> ('iob, 'r) tcpip_net_protocol option" where
  "find_tcpip_net_protocol [] family = None"
| "find_tcpip_net_protocol (tcpip_net # table) family =
     (if sa_family tcpip_net = family then Some tcpip_net else find_tcpip_net_protocol table family)"

definition tcpip_tx ::
  "('iob, 'r) tcpip_net_protocol list \<Rightarrow> 'iob \<Rightarrow> ('iob, 'r) tcpip_protocol \<Rightarrow> sockaddr_tcpip option
   \<Rightarrow> sockaddr_tcpip \<Rightarrow> net_device option \<Rightarrow> nat option \<Rightarrow> 'r handed" where
  "tcpip_tx table iobuf tcpip_protocol st_src st_dest netdev trans_csum =
     (case find_tcpip_net_protocol table (st_family st_dest) of
        Some tcpip_net \<Rightarrow> Handed (tcpip_net_tx tcpip_net iobuf tcpip_protocol st_src st_dest netdev trans_csum)
      | None \<Rightarrow> Freed EAFNOSUPPORT)"

definition tcpip_netdev :: "('iob, 'r) tcpip_net_protocol list \<Rightarrow> sockaddr_tcpip \<Rightarrow> net_device option" where
  "tcpip_netdev table st_dest =
     (case find_tcpip_net_protocol table (st_family st_dest) of
        Some tcpip_net \<Rightarrow> tcpip_net_netdev tcpip_net st_dest
      | None \<Rightarrow> None)"

definition tcpip_mtu :: "('iob, 'r) tcpip_net_protocol list \<Rightarrow> sockaddr_tcpip \<Rightarrow> u64" where
  "tcpip_mtu table st_dest =
     (case find_tcpip_net_protocol table (st_family st_dest) of
        None \<Rightarrow> 0
      | Some tcpip_net \<Rightarrow>
          (case tcpip_net_netdev tcpip_net st_dest of
             None \<Rightarrow> 0
           | Some netdev \<Rightarrow> netdev_mtu netdev - header_len tcpip_net))"

section \<open>The checksum\<close>

definition TCPIP_EMPTY_CSUM :: u16 where "TCPIP_EMPTY_CSUM = 0"

text \<open>The loop, at an even (\<open>swap = False\<close>) or odd index, on a little-endian machine.\<close>

fun chksum_loop :: "u8 list \<Rightarrow> bool \<Rightarrow> u32 \<Rightarrow> u32" where
  "chksum_loop [] swap cksum = cksum"
| "chksum_loop (b # data) swap cksum =
     (let val = (if swap then push_bit 8 (ucast b) else ucast b);
          cksum = cksum + val
      in chksum_loop data (\<not> swap) (if cksum > 0xffff then cksum - 0xffff else cksum))"

definition generic_tcpip_continue_chksum :: "u16 \<Rightarrow> u8 list \<Rightarrow> u16" where
  "generic_tcpip_continue_chksum partial data =
     ucast (NOT (chksum_loop data False (ucast (NOT partial))))"

definition tcpip_chksum :: "u8 list \<Rightarrow> u16" where
  "tcpip_chksum data = generic_tcpip_continue_chksum TCPIP_EMPTY_CSUM data"

section \<open>Local ports\<close>

definition TCPIP_BIND_PRIVILEGED :: u16 where "TCPIP_BIND_PRIVILEGED = 0x0400"

text \<open>The search loop with \<open>n\<close> iterations left; the check returns an error or some value.\<close>

fun tcpip_bind_loop ::
  "(u16 \<Rightarrow> errno + u16) \<Rightarrow> u16 \<Rightarrow> u16 \<Rightarrow> u32 \<Rightarrow> u32 \<Rightarrow> nat \<Rightarrow> errno + u16" where
  "tcpip_bind_loop available min_port max_port offset i 0 = Inl EADDRINUSE"
| "tcpip_bind_loop available min_port max_port offset i (Suc n) =
     (let try_port = ucast (i + offset) AND max_port
      in if try_port < min_port then tcpip_bind_loop available min_port max_port offset (i + 1) n
         else case available try_port of
           Inl e \<Rightarrow> tcpip_bind_loop available min_port max_port offset (i + 1) n
         | Inr _ \<Rightarrow> Inr try_port)"

definition tcpip_bind ::
  "(u16 \<Rightarrow> errno + u16) \<Rightarrow> u32 \<Rightarrow> sockaddr_tcpip option \<Rightarrow> errno + u16" where
  "tcpip_bind available random st_local =
     (let (flags, try_port) = (case st_local of None \<Rightarrow> (0, 0) | Some st \<Rightarrow> (st_flags st, st_port st))
      in if try_port \<noteq> 0 then available try_port
         else
           let min_port = (NOT flags AND TCPIP_BIND_PRIVILEGED) + 1;
               max_port = (flags AND TCPIP_BIND_PRIVILEGED) - 1
           in tcpip_bind_loop available min_port max_port random 0 (unat max_port + 1))"

section \<open>The checksum as one's complement sum\<close>

text \<open>
  The reference: the sum of the little-endian 16-bit words, reduced modulo 65535 to the
  range 1 to 65535, with 0 only for the sum 0.
\<close>

fun wsum :: "u8 list \<Rightarrow> bool \<Rightarrow> nat" where
  "wsum [] swap = 0"
| "wsum (b # data) swap = (if swap then 256 * unat b else unat b) + wsum data (\<not> swap)"

definition ones_complement :: "nat \<Rightarrow> nat" where
  "ones_complement n = (if n = 0 then 0 else (n - 1) mod 65535 + 1)"

lemma unat_ucast_u8: "unat (ucast (b :: u8) :: u32) = unat b"
proof -
  have "unat b < 2 ^ 32" using unat_lt8 [of b] by (rule less_trans) simp
  then show ?thesis by (simp only: unsigned_ucast_eq take_bit_nat_eq_self_iff) (simp add: take_bit_nat_eq_self)
qed

lemma wsum_append: "wsum (a @ b) swap = wsum a swap + wsum b (if even (length a) then swap else \<not> swap)"
  by (induction a arbitrary: swap) auto

lemma ones_complement_le: "ones_complement n \<le> 65535"
proof -
  have "(n - 1) mod 65535 < 65535" by (rule mod_less_divisor) simp
  then show ?thesis by (auto simp: ones_complement_def)
qed

lemma ones_complement_id: "n \<le> 65535 \<Longrightarrow> ones_complement n = n"
  by (auto simp: ones_complement_def)

lemma ones_complement_add: "ones_complement (ones_complement a + b) = ones_complement (a + b)"
proof (cases "a = 0")
  case True
  then show ?thesis by (simp add: ones_complement_def)
next
  case False
  have "((a - 1) mod 65535 + b) mod 65535 = ((a - 1) + b) mod 65535" by (rule mod_add_left_eq)
  then show ?thesis using False by (simp add: ones_complement_def Suc_diff_Suc)
qed

lemma ones_complement_reduce:
  assumes "n \<le> 131070"
  shows "(if n > 65535 then n - 65535 else n) = ones_complement n"
proof (cases "n > 65535")
  case True
  then have "(n - 1) mod 65535 = n - 1 - 65535"
    using assms by (simp add: le_mod_geq)
  then show ?thesis using True by (simp add: ones_complement_def)
next
  case False
  then show ?thesis by (simp add: ones_complement_id)
qed

lemma unat_chksum_loop:
  assumes "unat c \<le> 65535"
  shows "unat (chksum_loop data swap c) = ones_complement (unat c + wsum data swap)"
  using assms
proof (induction data arbitrary: swap c)
  case Nil
  then show ?case by (simp add: ones_complement_id)
next
  case (Cons b data)
  let ?v = "if swap then push_bit 8 (ucast b) else ucast b :: u32"
  let ?n = "if swap then 256 * unat b else unat b"
  let ?c = "if c + ?v > 0xffff then c + ?v - 0xffff else c + ?v"
  have b: "unat b < 256" by simp
  have v: "unat ?v = ?n"
  proof (cases swap)
    case True
    have u: "unat (ucast b :: u32) = unat b" by (rule unat_ucast_u8)
    have "unat (push_bit 8 (ucast b) :: u32) = (256 * unat b) mod 4294967296"
      by (simp add: push_bit_eq_mult unat_word_ariths mult.commute u)
    then show ?thesis using True b by simp
  next
    case False
    then show ?thesis by (simp add: unat_ucast_u8)
  qed
  have "unat b \<le> 255" using unat_lt8 [of b] by linarith
  then have n: "?n \<le> 65280" by simp
  have a: "unat (c + ?v) = unat c + ?n"
    using Cons.prems n v by (subst unat_word_ariths) simp
  have c: "unat ?c = ones_complement (unat c + ?n)"
  proof -
    have "unat ?c = (if unat c + ?n > 65535 then unat c + ?n - 65535 else unat c + ?n)"
      using a by (simp add: word_less_nat_alt unat_sub word_le_nat_alt)
    then show ?thesis using Cons.prems n ones_complement_reduce [of "unat c + ?n"] by simp
  qed
  have "unat (chksum_loop (b # data) swap c) = unat (chksum_loop data (\<not> swap) ?c)"
    by (simp add: Let_def)
  also have "\<dots> = ones_complement (ones_complement (unat c + ?n) + wsum data (\<not> swap))"
    using Cons.IH [of ?c "\<not> swap"] c ones_complement_le by simp
  finally show ?case by (simp add: ones_complement_add add.assoc)
qed

lemma unat_not16: "unat (NOT x :: u16) = 65535 - unat x"
proof -
  have "NOT x = - 1 - x" by (simp add: not_eq_complement)
  moreover have "unat (- 1 :: u16) = 65535" by (simp add: unsigned_minus_1_eq_mask mask_eq_exp_minus_1)
  moreover have "unat (- 1 - x) = unat (- 1 :: u16) - unat x"
    by (rule unat_sub) (simp add: word_order.extremum)
  ultimately show ?thesis by simp
qed

lemma continue_chksum_unat:
  "unat (NOT (generic_tcpip_continue_chksum partial data)) =
     ones_complement (unat (NOT partial) + wsum data False)"
proof -
  let ?c = "chksum_loop data False (ucast (NOT partial))"
  have u: "unat (ucast (NOT partial) :: u32) = unat (NOT partial)"
    by (simp add: unsigned_ucast_eq take_bit_nat_eq_self unat_lt16 [THEN less_trans])
  have l: "unat (NOT partial) \<le> 65535" using unat_lt16 [of "NOT partial"] by linarith
  have c: "unat ?c = ones_complement (unat (NOT partial) + wsum data False)"
    using unat_chksum_loop [of "ucast (NOT partial)" data False] u l by simp
  have "NOT (generic_tcpip_continue_chksum partial data) = ucast ?c"
    by (rule bit_eqI) (auto simp: generic_tcpip_continue_chksum_def bit_simps)
  moreover have "unat (ucast ?c :: u16) = unat ?c"
    using c ones_complement_le [of "unat (NOT partial) + wsum data False"]
    by (simp add: unsigned_ucast_eq take_bit_nat_eq_self)
  ultimately show ?thesis using c by simp
qed

text \<open>
  C18. The checksum is the one's complement sum.  For any data and any partial checksum the
  byte-wise loop computes the complement of the one's complement sum of the 16-bit words:
  the carry never gets lost, and no intermediate value overflows.
\<close>

theorem continue_chksum_correct:
  "unat (generic_tcpip_continue_chksum partial data) =
     65535 - ones_complement (65535 - unat partial + wsum data False)"
proof -
  have "unat c = 65535 - unat (NOT c)" for c :: u16
    unfolding unat_not16 using unat_lt16 [of c] by linarith
  then show ?thesis using continue_chksum_unat [of partial data] unat_not16 [of partial] by metis
qed

text \<open>
  Checksums can be computed in parts.  Continuing the checksum of a first block of even
  length over a second block gives the checksum of both together, and the checksum of any
  data is never the negative zero \<open>0xffff\<close>, as the header file promises.
\<close>

theorem chksum_incremental:
  "(even (length a) \<longrightarrow> generic_tcpip_continue_chksum (tcpip_chksum a) b = tcpip_chksum (a @ b)) \<and>
   tcpip_chksum a \<noteq> 0xffff"
proof -
  have inj: "x = y" if "unat (NOT x) = unat (NOT y)" for x y :: u16
    using that by (metis bit.double_compl word_unat_eq_iff)
  have z: "unat (NOT (tcpip_chksum d)) = ones_complement (65535 + wsum d False)" for d
    using continue_chksum_unat [of 0 d] unat_not16 [of 0]
    by (simp only: tcpip_chksum_def TCPIP_EMPTY_CSUM_def unsigned_0) simp
  have "generic_tcpip_continue_chksum (tcpip_chksum a) b = tcpip_chksum (a @ b)" if "even (length a)"
    by (rule inj) (use that in \<open>simp only: continue_chksum_unat z wsum_append ones_complement_add if_True add.assoc\<close>)
  moreover have "unat (NOT (tcpip_chksum a)) \<noteq> 0" unfolding z by (simp add: ones_complement_def)
  then have "tcpip_chksum a \<noteq> 0xffff" by auto
  ultimately show ?thesis by blast
qed

text \<open>The two bytes of a checksum as they are stored in a packet.\<close>

definition csum_bytes :: "u16 \<Rightarrow> u8 list" where
  "csum_bytes c = [ucast c, ucast (drop_bit 8 c)]"

text \<open>
  C19. A packet whose checksum field was filled in from the checksum of the packet with a
  zero field verifies: the receiver's checksum over all of it is zero.
\<close>

theorem chksum_verifies:
  assumes "even (length hdr)"
  shows "tcpip_chksum (hdr @ csum_bytes (tcpip_chksum (hdr @ [0, 0] @ rest)) @ rest) = 0"
proof -
  let ?c = "tcpip_chksum (hdr @ [0, 0] @ rest)" and ?S = "wsum (hdr @ [0, 0] @ rest) False"
  have z: "unat (NOT (tcpip_chksum d)) = ones_complement (65535 + wsum d False)" for d
    using continue_chksum_unat [of 0 d] unat_not16 [of 0]
    by (simp only: tcpip_chksum_def TCPIP_EMPTY_CSUM_def unsigned_0) simp
  have w: "wsum (csum_bytes c) False = unat c" for c
  proof -
    have "unat (ucast c :: u8) = unat c mod 256" "unat (ucast (drop_bit 8 c) :: u8) = unat c div 256 mod 256"
      by (simp_all add: unsigned_ucast_eq take_bit_eq_mod drop_bit_eq_div unat_div)
    moreover have "unat c div 256 < 256" by (rule less_mult_imp_div_less) (use unat_lt16 [of c] in linarith)
    ultimately show ?thesis by (simp add: csum_bytes_def)
  qed
  have t: "wsum (hdr @ csum_bytes ?c @ rest) False = ?S + unat ?c"
    using assms w [of ?c] by (simp add: wsum_append csum_bytes_def)
  have oc: "ones_complement (65535 + ?S) = 65535 - unat ?c" using z [of "hdr @ [0, 0] @ rest"] unat_not16 [of ?c] by simp
  then have "ones_complement (65535 + ?S + unat ?c) = ones_complement (65535 - unat ?c + unat ?c)"
    by (metis ones_complement_add)
  also have "65535 - unat ?c + unat ?c = 65535" using unat_lt16 [of ?c] by linarith
  also have "ones_complement 65535 = 65535" by (rule ones_complement_id) simp
  finally have "unat (NOT (tcpip_chksum (hdr @ csum_bytes ?c @ rest))) = 65535"
    unfolding z t by (simp add: add.assoc)
  then have "unat (tcpip_chksum (hdr @ csum_bytes ?c @ rest)) = 0"
    using unat_not16 [of "tcpip_chksum (hdr @ csum_bytes ?c @ rest)"]
      unat_lt16 [of "tcpip_chksum (hdr @ csum_bytes ?c @ rest)"] by linarith
  then show ?thesis
    using word_unat_eq_iff [of "tcpip_chksum (hdr @ csum_bytes ?c @ rest)" 0] by simp
qed

section \<open>Local ports\<close>

lemma and_single_bit: "(x :: 'a::len word) AND push_bit n 1 = (if bit x n then push_bit n 1 else 0)"
  by (rule bit_eqI) (auto simp: bit_simps)

lemma bind_range:
  "(NOT flags AND TCPIP_BIND_PRIVILEGED) + 1 = (if flags AND TCPIP_BIND_PRIVILEGED = 0 then 1025 else 1)"
  "(flags AND TCPIP_BIND_PRIVILEGED) - 1 = (if flags AND TCPIP_BIND_PRIVILEGED = 0 then mask 16 else mask 10)"
proof -
  have p: "TCPIP_BIND_PRIVILEGED = push_bit 10 1" by (simp add: TCPIP_BIND_PRIVILEGED_def)
  show "(NOT flags AND TCPIP_BIND_PRIVILEGED) + 1 = (if flags AND TCPIP_BIND_PRIVILEGED = 0 then 1025 else 1)"
    "(flags AND TCPIP_BIND_PRIVILEGED) - 1 = (if flags AND TCPIP_BIND_PRIVILEGED = 0 then mask 16 else mask 10)"
    unfolding p and_single_bit by (simp_all add: bit_not_iff mask_eq_exp_minus_1)
qed

lemma bind_loop_sound:
  "tcpip_bind_loop available lo hi offset i n = Inr p \<Longrightarrow>
     lo \<le> p \<and> p AND hi = p \<and> (\<exists>v. available p = Inr v)"
  by (induction n arbitrary: i) (auto simp: Let_def and.assoc split: if_splits sum.splits)

lemma bind_loop_error: "tcpip_bind_loop available lo hi offset i n = Inl e \<Longrightarrow> e = EADDRINUSE"
  by (induction n arbitrary: i) (auto simp: Let_def split: if_splits sum.splits)

lemma bind_loop_complete:
  assumes "tcpip_bind_loop available lo hi offset i n = Inl e" "k < n"
    "p = ucast (i + of_nat k + offset) AND hi" "lo \<le> p"
  shows "\<exists>e'. available p = Inl e'"
  using assms
proof (induction n arbitrary: i k)
  case (Suc n)
  have e: "tcpip_bind_loop available lo hi offset (i + 1) n = Inl e"
    using Suc.prems(1) by (auto simp: Let_def split: if_splits sum.splits)
  show ?case
  proof (cases k)
    case 0
    then show ?thesis using Suc.prems by (auto simp: Let_def split: if_splits sum.splits)
  next
    case (Suc k')
    show ?thesis using Suc.IH [OF e, of k'] Suc.prems Suc by (simp add: add.assoc)
  qed
qed simp

text \<open>The loop visits every port of the range, whatever the random offset.\<close>

lemma bind_visits:
  fixes p :: u16 and offset :: u32
  assumes "p AND mask w = p" "unat (mask w :: u16) = 2 ^ w - 1"
  shows "\<exists>k \<le> unat (mask w :: u16). p = ucast (0 + of_nat k + offset) AND mask w"
proof -
  let ?k = "(ucast p - offset) AND mask w :: u32"
  have m: "(?k + offset) AND mask w = ucast p AND mask w"
  proof -
    have "(?k + offset) AND mask w = (ucast p - offset + offset) AND mask w" by (simp only: mask_eqs)
    then show ?thesis by simp
  qed
  have "ucast (?k + offset) AND mask w = (ucast ((?k + offset) AND mask w) :: u16)"
    by (rule bit_eqI) (auto simp: bit_simps)
  also have "\<dots> = p AND mask w" unfolding m by (rule bit_eqI) (auto simp: bit_simps)
  finally have v: "p = ucast (0 + of_nat (unat ?k) + offset) AND mask w" using assms(1) by simp
  have "unat ?k < 2 ^ w" by (simp add: unat_and_mask)
  then show ?thesis using v assms(2) by (intro exI [of _ "unat ?k"]) simp
qed

definition bind_privileged :: "sockaddr_tcpip option \<Rightarrow> bool" where
  "bind_privileged st_local \<longleftrightarrow>
     (case st_local of None \<Rightarrow> False | Some st \<Rightarrow> st_flags st AND TCPIP_BIND_PRIVILEGED \<noteq> 0)"

definition bind_port_ok :: "sockaddr_tcpip option \<Rightarrow> u16 \<Rightarrow> bool" where
  "bind_port_ok st_local p \<longleftrightarrow>
     (if bind_privileged st_local then 1 \<le> unat p \<and> unat p \<le> 1023 else 1025 \<le> unat p)"

lemma bind_port_ok_alt:
  "bind_port_ok st_local p \<longleftrightarrow>
     (if bind_privileged st_local then 1 \<le> p \<and> p AND mask 10 = p else 1025 \<le> p \<and> p AND mask 16 = p)"
proof -
  have "p AND mask 16 = p" by (rule bit_eqI) (auto simp: bit_simps)
  moreover have "p AND mask 10 = p \<longleftrightarrow> unat p \<le> 1023"
    using word_unat_eq_iff [of "p AND mask 10" p] by (auto simp: unat_and_mask mod_eq_self_iff_div_eq_0 div_eq_0_iff)
  ultimately show ?thesis by (auto simp: bind_port_ok_def word_le_nat_alt)
qed

text \<open>
  C20. Choosing a local port.  With no explicit port, \<open>tcpip_bind\<close> returns an available port
  of the right range -- 1 to 1023 for a privileged port, 1025 to 65535 otherwise -- and it
  reports \<open>EADDRINUSE\<close> only when no port of the range is available.
\<close>

theorem tcpip_bind_correct:
  assumes "case st_local of None \<Rightarrow> True | Some st \<Rightarrow> st_port st = 0"
  shows "case tcpip_bind available random st_local of
      Inr p \<Rightarrow> bind_port_ok st_local p \<and> (\<exists>v. available p = Inr v)
    | Inl e \<Rightarrow> e = EADDRINUSE \<and> (\<forall>p. bind_port_ok st_local p \<longrightarrow> (\<exists>e'. available p = Inl e'))"
proof -
  define lo hi w where "lo = (if bind_privileged st_local then 1 else 1025 :: u16)"
    and "hi = (if bind_privileged st_local then mask 10 else mask 16 :: u16)"
    and "w = (if bind_privileged st_local then 10 else 16 :: nat)"
  have b: "tcpip_bind available random st_local = tcpip_bind_loop available lo hi random 0 (unat hi + 1)"
  proof -
    define flags where "flags = (case st_local of None \<Rightarrow> 0 | Some st \<Rightarrow> st_flags st)"
    have f: "bind_privileged st_local \<longleftrightarrow> flags AND TCPIP_BIND_PRIVILEGED \<noteq> 0"
      by (simp add: bind_privileged_def flags_def split: option.splits)
    have "tcpip_bind available random st_local =
        tcpip_bind_loop available ((NOT flags AND TCPIP_BIND_PRIVILEGED) + 1)
          ((flags AND TCPIP_BIND_PRIVILEGED) - 1) random 0
          (unat ((flags AND TCPIP_BIND_PRIVILEGED) - 1) + 1)"
      using assms by (cases st_local) (simp_all add: tcpip_bind_def Let_def flags_def del: tcpip_bind_loop.simps)
    then show ?thesis unfolding bind_range lo_def hi_def f
      by (cases "flags AND TCPIP_BIND_PRIVILEGED = 0") (simp_all only: simp_thms if_True if_False)
  qed
  have ok: "bind_port_ok st_local p \<longleftrightarrow> lo \<le> p \<and> p AND hi = p" for p
    by (simp add: bind_port_ok_alt lo_def hi_def)
  have hw: "hi = mask w" "unat (mask w :: u16) = 2 ^ w - 1"
    by (simp_all add: hi_def w_def mask_eq_exp_minus_1 unsigned_minus_1_eq_mask)
  show ?thesis
  proof (cases "tcpip_bind_loop available lo hi random 0 (unat hi + 1)")
    case (Inl e)
    have "\<exists>e'. available p = Inl e'" if lp: "lo \<le> p" and pm: "p AND hi = p" for p
    proof -
      obtain k where "k \<le> unat hi" "p = ucast (0 + of_nat k + random) AND hi"
        using bind_visits [OF pm [unfolded hw(1)] hw(2), of random] unfolding hw(1) by blast
      then show ?thesis using bind_loop_complete [OF Inl, of k p] lp by simp
    qed
    then show ?thesis using Inl bind_loop_error [OF Inl] by (simp add: b ok)
  next
    case (Inr p)
    then show ?thesis using bind_loop_sound [OF Inr] by (simp add: b ok)
  qed
qed

section \<open>Instances\<close>

theorem chksum_incremental_witness:
  "generic_tcpip_continue_chksum (tcpip_chksum [0x45, 0x00, 0x12, 0x34]) [0x40] =
     tcpip_chksum [0x45, 0x00, 0x12, 0x34, 0x40]"
  using chksum_incremental [of "[0x45, 0x00, 0x12, 0x34]" "[0x40]"] by simp

theorem chksum_verifies_witness:
  "tcpip_chksum ([1, 2] @ csum_bytes (tcpip_chksum ([1, 2] @ [0, 0] @ [3])) @ [3]) = 0"
  using chksum_verifies [of "[1, 2]" "[3]"] by simp

theorem tcpip_bind_correct_witness:
  "tcpip_bind (\<lambda>p. if p = 1030 then Inr 0 else Inl EADDRINUSE) 1024 None = Inr 1030 \<and> bind_port_ok None 1030"
proof -
  let ?a = "\<lambda>p :: u16. if p = 1030 then Inr 0 else Inl EADDRINUSE :: errno + u16"
  have "tcpip_bind ?a 1024 None = Inr 1030 \<or> (\<exists>e. tcpip_bind ?a 1024 None = Inl e)"
    using tcpip_bind_correct [of None ?a 1024] by (auto split: sum.splits if_splits)
  moreover have "bind_port_ok None 1030" by (simp add: bind_port_ok_def bind_privileged_def)
  ultimately show ?thesis
    using tcpip_bind_correct [of None ?a 1024] by (auto split: sum.splits)
qed
end
