(* ===== verification/Objects.thy ===== *)
theory Objects
  imports IPXE_Prelude
begin

text \<open>
  The services every object of the program uses: reference counting
  (\<^verbatim>\<open>core/refcnt.c\<close>), pending operations (\<^verbatim>\<open>core/pending.c\<close>) and the cooperative
  scheduler (\<^verbatim>\<open>core/process.c\<close>).

  A counter is a value; the object that contains it keeps it in a field.  What the free
  method does is the business of the object: a counter records how often it was called, and
  how many assertions about the count have failed.  A process is named by a value of any
  type; the step methods are parameters.
\<close>

section \<open>Reference counting\<close>

record refcnt =
  ref_count :: int
  ref_freed :: nat
  ref_failures :: nat

definition ref_init :: refcnt where
  "ref_init = \<lparr>ref_count = 0, ref_freed = 0, ref_failures = 0\<rparr>"

definition ref_assert :: "refcnt \<Rightarrow> refcnt" where
  "ref_assert r = (if ref_count r \<ge> 0 then r else r\<lparr>ref_failures := ref_failures r + 1\<rparr>)"

definition ref_increment :: "refcnt \<Rightarrow> refcnt" where
  "ref_increment r = r\<lparr>ref_count := ref_count r + 1\<rparr>"

definition ref_decrement :: "refcnt \<Rightarrow> refcnt" where
  "ref_decrement r =
     (let r = r\<lparr>ref_count := ref_count r - 1\<rparr>
      in if ref_count r \<ge> 0 then r
         else if ref_count r < -1 then r
         else r\<lparr>ref_freed := ref_freed r + 1\<rparr>)"

text \<open>A NULL counter is left alone.\<close>

definition ref_get :: "refcnt option \<Rightarrow> refcnt option" where
  "ref_get = map_option (\<lambda>r. ref_increment (ref_assert r))"

definition ref_put :: "refcnt option \<Rightarrow> refcnt option" where
  "ref_put = map_option (\<lambda>r. ref_decrement (ref_assert r))"

section \<open>Pending operations\<close>

text \<open>A pending operation and the total, which counts the operations of every object.\<close>

definition pending_get :: "u32 \<times> u32 \<Rightarrow> u32 \<times> u32" where
  "pending_get = (\<lambda>(cnt, total). (cnt + 1, total + 1))"

definition pending_put :: "u32 \<times> u32 \<Rightarrow> u32 \<times> u32" where
  "pending_put = (\<lambda>(cnt, total). if cnt \<noteq> 0 then (cnt - 1, total - 1) else (cnt, total))"

definition is_pending :: "u32 \<times> u32 \<Rightarrow> bool" where
  "is_pending = (\<lambda>(cnt, total). cnt \<noteq> 0)"

definition have_pending :: "u32 \<times> u32 \<Rightarrow> bool" where
  "have_pending = (\<lambda>(cnt, total). total \<noteq> 0)"

section \<open>Processes\<close>

text \<open>
  \<open>refs\<close> gives the counter of the object that contains the process, if there is one.  A
  descriptor says whether the process is rescheduled and what a step of it does.
\<close>

record 'p sched =
  run_queue :: "'p list"
  refs :: "'p \<Rightarrow> refcnt option"

record ('p, 'a) process_descriptor =
  reschedule :: bool
  proc_step :: "('p, 'a) sched_scheme \<Rightarrow> ('p, 'a) sched_scheme"

definition process_running :: "'p \<Rightarrow> ('p, 'a) sched_scheme \<Rightarrow> bool" where
  "process_running p s \<longleftrightarrow> p \<in> set (run_queue s)"

definition process_add :: "'p \<Rightarrow> ('p, 'a) sched_scheme \<Rightarrow> ('p, 'a) sched_scheme" where
  "process_add p s =
     (if \<not> process_running p s
      then s\<lparr>run_queue := run_queue s @ [p], refs := (refs s)(p := ref_get (refs s p))\<rparr>
      else s)"

definition process_del :: "'p \<Rightarrow> ('p, 'a) sched_scheme \<Rightarrow> ('p, 'a) sched_scheme" where
  "process_del p s =
     (if process_running p s
      then s\<lparr>run_queue := remove1 p (run_queue s), refs := (refs s)(p := ref_put (refs s p))\<rparr>
      else s)"

definition step ::
  "('p \<Rightarrow> ('p, 'a) process_descriptor) \<Rightarrow> ('p, 'a) sched_scheme \<Rightarrow> ('p, 'a) sched_scheme" where
  "step desc s =
     (case run_queue s of
        [] \<Rightarrow> s
      | p # rest \<Rightarrow>
          let s1 = s\<lparr>refs := (refs s)(p := ref_get (refs s p))\<rparr>;
              s2 = (if reschedule (desc p) then s1\<lparr>run_queue := remove1 p (run_queue s1) @ [p]\<rparr>
                    else process_del p s1);
              s3 = proc_step (desc p) s2
          in s3\<lparr>refs := (refs s3)(p := ref_put (refs s3 p))\<rparr>)"

definition init_processes :: "'p list \<Rightarrow> ('p, 'a) sched_scheme \<Rightarrow> ('p, 'a) sched_scheme" where
  "init_processes permanent s = fold process_add permanent s"

section \<open>References\<close>

text \<open>A sequence of operations on a counter: \<open>True\<close> takes a reference, \<open>False\<close> drops one.\<close>

primrec ref_ops :: "bool list \<Rightarrow> refcnt option \<Rightarrow> refcnt option" where
  "ref_ops [] r = r"
| "ref_ops (b # bs) r = ref_ops bs (if b then ref_get r else ref_put r)"

text \<open>The references held after a prefix: the creator's own and those taken, less those dropped.\<close>

definition held :: "bool list \<Rightarrow> int" where
  "held bs = 1 + int (count_list bs True) - int (count_list bs False)"

lemma held_simps [simp]: "held [] = 1" "held (True # bs) = held bs + 1" "held (False # bs) = held bs - 1"
  by (simp_all add: held_def)

lemma ref_ops_live:
  assumes "\<And>k. k \<le> length bs \<Longrightarrow> ref_count r + held (take k bs) > 0" "ref_count r \<ge> 0"
  shows "ref_ops bs (Some r) = Some (r\<lparr>ref_count := ref_count r + held bs - 1\<rparr>)"
  using assms
proof (induction bs arbitrary: r)
  case (Cons b bs)
  let ?r = "r\<lparr>ref_count := ref_count r + (if b then 1 else - 1)\<rparr>"
  have pos: "ref_count ?r \<ge> 0"
    using Cons.prems(1) [of 1] Cons.prems(2) by (cases b) simp_all
  have "ref_ops (b # bs) (Some r) = ref_ops bs (Some ?r)"
    using pos Cons.prems(2) by (cases b)
      (simp_all add: ref_get_def ref_put_def ref_assert_def ref_increment_def ref_decrement_def Let_def)
  also have "\<dots> = Some (?r\<lparr>ref_count := ref_count ?r + held bs - 1\<rparr>)"
  proof (rule Cons.IH [OF _ pos])
    fix k assume "k \<le> length bs"
    then show "ref_count ?r + held (take k bs) > 0"
      using Cons.prems(1) [of "Suc k"] by (cases b) simp_all
  qed
  finally show ?case by (cases b) simp_all
qed simp

lemma ref_ops_append: "ref_ops (xs @ ys) r = ref_ops ys (ref_ops xs r)"
  by (induction xs arbitrary: r) simp_all

lemma held_snoc: "held (bs @ [b]) = held bs + (if b then 1 else - 1)"
  by (cases b) (simp_all add: held_def)



section \<open>Fairness of the scheduler\<close>

text \<open>
  What a step method may do to the run queue: take processes out of it and append others,
  which were not in it.  The scheduler is fair to whatever keeps to this contract.
\<close>

definition queue_discipline :: "(('p, 'a) sched_scheme \<Rightarrow> ('p, 'a) sched_scheme) \<Rightarrow> bool" where
  "queue_discipline f \<longleftrightarrow>
     (\<forall>s. distinct (run_queue s) \<longrightarrow>
        (\<exists>P new. run_queue (f s) = filter P (run_queue s) @ new \<and> distinct new \<and>
           set new \<inter> set (run_queue s) = {}))"

lemma queue_disciplineE:
  assumes "queue_discipline f" "distinct (run_queue s)"
  obtains P new where "run_queue (f s) = filter P (run_queue s) @ new" "distinct new"
    "set new \<inter> set (run_queue s) = {}"
  using assms by (auto simp: queue_discipline_def)

definition position :: "'p \<Rightarrow> 'p list \<Rightarrow> nat" where
  "position p xs = length (takeWhile (\<lambda>x. x \<noteq> p) xs)"

lemma takeWhile_filter_le:
  "P p \<Longrightarrow> length (takeWhile (\<lambda>x. x \<noteq> p) (filter P xs)) \<le> length (takeWhile (\<lambda>x. x \<noteq> p) xs)"
  by (induction xs) auto

lemma position_filter:
  assumes "p \<in> set xs" "P p"
  shows "position p (filter P xs @ ys) \<le> position p xs"
proof -
  have "p \<in> set (filter P xs)" using assms by simp
  then have "takeWhile (\<lambda>x. x \<noteq> p) (filter P xs @ ys) = takeWhile (\<lambda>x. x \<noteq> p) (filter P xs)"
    by (rule takeWhile_append1) simp
  then show ?thesis using takeWhile_filter_le [of P p xs] assms(2) by (simp add: position_def)
qed

locale step_methods =
  fixes desc :: "'p \<Rightarrow> ('p, 'a) process_descriptor"
  assumes discipline: "queue_discipline (proc_step (desc p))"
begin

lemma step_queue:
  assumes "run_queue s = q # rest" "distinct (run_queue s)"
  shows "\<exists>P ys. run_queue (step desc s) = filter P rest @ ys \<and> distinct (run_queue (step desc s)) \<and>
    set ys \<inter> set rest = {}"
proof -
  define s1 where "s1 = s\<lparr>refs := (refs s)(q := ref_get (refs s q))\<rparr>"
  define s2 where "s2 = (if reschedule (desc q) then s1\<lparr>run_queue := remove1 q (run_queue s1) @ [q]\<rparr>
             else process_del q s1)"
  define again where "again = (if reschedule (desc q) then [q] else [])"
  have q: "run_queue s2 = rest @ again"
    using assms by (simp add: s1_def s2_def again_def process_del_def process_running_def)
  have d: "distinct (run_queue s2)" "set again \<inter> set rest = {}"
    using assms by (auto simp: q again_def)
  obtain P ys where ys: "run_queue (proc_step (desc q) s2) = filter P (run_queue s2) @ ys"
      "distinct ys" "set ys \<inter> set (run_queue s2) = {}"
    using queue_disciplineE [OF discipline d(1)] .
  have r: "run_queue (step desc s) = run_queue (proc_step (desc q) s2)"
    by (simp add: step_def assms(1) Let_def s2_def s1_def)
  have "run_queue (step desc s) = filter P rest @ (filter P again @ ys)"
    "set (filter P again @ ys) \<inter> set rest = {}" "distinct (run_queue (step desc s))"
    using ys d by (auto simp: r q)
  then show ?thesis by blast
qed

lemma step_position:
  assumes "run_queue s = q # rest" "distinct (run_queue s)" "p \<in> set rest"
    and "p \<in> set (run_queue (step desc s))"
  shows "position p (run_queue (step desc s)) < position p (run_queue s)"
proof -
  obtain P ys where ys: "run_queue (step desc s) = filter P rest @ ys" "set ys \<inter> set rest = {}"
    using step_queue [OF assms(1,2)] by blast
  then have "P p" using assms(3,4) by auto
  then have "position p (run_queue (step desc s)) \<le> position p rest"
    using position_filter [OF assms(3), of P ys] ys(1) by simp
  moreover have "position p (run_queue s) = Suc (position p rest)"
    using assms(1-3) by (auto simp: position_def)
  ultimately show ?thesis by simp
qed

lemma step_distinct: "distinct (run_queue s) \<Longrightarrow> distinct (run_queue (step desc s))"
proof (cases "run_queue s")
  case Nil
  then show ?thesis by (simp add: step_def)
next
  case (Cons q rest)
  assume "distinct (run_queue s)"
  then show ?thesis using step_queue [OF Cons] by blast
qed

lemma fair:
  assumes "distinct (run_queue s)" "p \<in> set (run_queue s)"
  shows "\<exists>i \<le> position p (run_queue s). let t = (step desc ^^ i) s in
    p \<notin> set (run_queue t) \<or> hd (run_queue t) = p"
  using assms
proof (induction "position p (run_queue s)" arbitrary: s rule: less_induct)
  case less
  obtain q rest where q: "run_queue s = q # rest" using less.prems(2) by (cases "run_queue s") auto
  show ?case
  proof (cases "q = p \<or> p \<notin> set (run_queue (step desc s))")
    case True
    then show ?thesis
    proof
      assume "q = p"
      then show ?thesis using q by (intro exI [of _ 0]) simp
    next
      assume "p \<notin> set (run_queue (step desc s))"
      moreover have "1 \<le> position p (run_queue s)" if "q \<noteq> p" using that q by (simp add: position_def)
      ultimately show ?thesis using q
        by (cases "q = p") (auto intro: exI [of _ 0] exI [of _ 1])
    qed
  next
    case False
    then have r: "p \<in> set rest" using less.prems(2) q by auto
    have lt: "position p (run_queue (step desc s)) < position p (run_queue s)"
      using step_position [OF q less.prems(1) r] False by simp
    obtain i where "i \<le> position p (run_queue (step desc s))"
        "let t = (step desc ^^ i) (step desc s) in p \<notin> set (run_queue t) \<or> hd (run_queue t) = p"
      using less.hyps [OF lt step_distinct [OF less.prems(1)]] False by blast
    then show ?thesis using lt by (intro exI [of _ "Suc i"]) (simp add: funpow_swap1)
  qed
qed

end

text \<open>
  The step methods of the program change the queue through \<open>process_add\<close> and
  \<open>process_del\<close> only, and do not restart a process they stop.
\<close>

datatype 'p sched_op = Add 'p | Del 'p

primrec run_sched_op :: "'p sched_op \<Rightarrow> ('p, 'a) sched_scheme \<Rightarrow> ('p, 'a) sched_scheme" where
  "run_sched_op (Add p) s = process_add p s"
| "run_sched_op (Del p) s = process_del p s"

primrec no_restart :: "'p sched_op list \<Rightarrow> bool" where
  "no_restart [] = True"
| "no_restart (opn # ops) = ((case opn of Add p \<Rightarrow> True | Del p \<Rightarrow> Add p \<notin> set ops) \<and> no_restart ops)"

definition ops_descriptor ::
  "bool \<Rightarrow> (('p, 'a) sched_scheme \<Rightarrow> 'p sched_op list) \<Rightarrow> ('p, 'a) process_descriptor" where
  "ops_descriptor again ops =
     \<lparr>reschedule = again,
      proc_step = (\<lambda>s. if no_restart (ops s) then fold run_sched_op (ops s) s else s)\<rparr>"

lemma fold_sched_op:
  assumes "distinct (run_queue s)" "no_restart ops"
  shows "\<exists>P ys. run_queue (fold run_sched_op ops s) = filter P (run_queue s) @ ys \<and> distinct ys \<and>
    set ys \<inter> set (run_queue s) = {} \<and> (\<forall>p. Add p \<notin> set ops \<longrightarrow> p \<notin> set ys)"
  using assms
proof (induction ops arbitrary: s)
  case Nil
  then show ?case by (auto intro: exI [of _ "\<lambda>_. True"])
next
  case (Cons opn ops)
  show ?case
  proof (cases opn)
    case (Add q)
    let ?s = "process_add q s"
    have rq: "run_queue ?s = run_queue s @ (if q \<in> set (run_queue s) then [] else [q])" "distinct (run_queue ?s)"
      using Cons.prems by (simp_all add: process_add_def process_running_def)
    obtain P ys where "run_queue (fold run_sched_op ops ?s) = filter P (run_queue ?s) @ ys" "distinct ys"
        "set ys \<inter> set (run_queue ?s) = {}" "\<forall>p. Add p \<notin> set ops \<longrightarrow> p \<notin> set ys"
      using Cons.IH [OF rq(2)] Cons.prems(2) by auto
    then show ?thesis using rq(1) Add
      by (intro exI [of _ P] exI [of _ "(if q \<notin> set (run_queue s) \<and> P q then [q] else []) @ ys"]) auto
  next
    case (Del q)
    let ?s = "process_del q s"
    have rq: "run_queue ?s = filter (\<lambda>x. x \<noteq> q) (run_queue s)" "distinct (run_queue ?s)"
      using Cons.prems(1) by (auto simp: process_del_def process_running_def distinct_remove1_removeAll removeAll_filter_not_eq
          intro!: filter_True [symmetric] filter_cong)
    obtain P ys where "run_queue (fold run_sched_op ops ?s) = filter P (run_queue ?s) @ ys" "distinct ys"
        "set ys \<inter> set (run_queue ?s) = {}" "\<forall>p. Add p \<notin> set ops \<longrightarrow> p \<notin> set ys"
      using Cons.IH [OF rq(2)] Cons.prems(2) by auto
    then show ?thesis using rq(1) Del Cons.prems(2)
      by (intro exI [of _ "\<lambda>x. x \<noteq> q \<and> P x"] exI [of _ ys]) auto
  qed
qed

interpretation ops: step_methods "\<lambda>p. ops_descriptor (again p) (prog p)" for again prog
proof
  fix p
  show "queue_discipline (proc_step (ops_descriptor (again p) (prog p)))"
    unfolding queue_discipline_def
  proof (intro allI impI)
    fix s :: "('a, 'b) sched_scheme" assume d: "distinct (run_queue s)"
    show "\<exists>P new. run_queue (proc_step (ops_descriptor (again p) (prog p)) s) = filter P (run_queue s) @ new \<and>
        distinct new \<and> set new \<inter> set (run_queue s) = {}"
    proof (cases "no_restart (prog p s)")
      case True
      then show ?thesis using fold_sched_op [OF d True] by (auto simp: ops_descriptor_def)
    next
      case False
      then show ?thesis by (auto simp: ops_descriptor_def intro: exI [of _ "\<lambda>_. True"])
    qed
  qed
qed


definition demo_sched :: "nat sched" where
  "demo_sched = init_processes [1, 2] \<lparr>run_queue = [], refs = (\<lambda>_. None)\<rparr>"

end
