(* ===== verification/Retry.thy ===== *)
theory Retry
  imports Objects
begin

text \<open>
  Retry timers, \<^verbatim>\<open>net/retry.c\<close>.

  The operations are given twice: on a single timer, for the objects that contain timers, and
  on the list of running timers, where timers are named by values of any type.
  \<^verbatim>\<open>currticks()\<close> is the argument \<open>now\<close>; the expiry callback of a timer is a parameter
  of \<open>retry_poll\<close>.
\<close>

section \<open>A timer\<close>

definition TICKS_PER_SEC :: u64 where "TICKS_PER_SEC = 1024"
definition MIN_TIMEOUT :: u64 where "MIN_TIMEOUT = 7"
definition DEFAULT_MIN_TIMEOUT :: u64 where "DEFAULT_MIN_TIMEOUT = TICKS_PER_SEC div 4"
definition DEFAULT_MAX_TIMEOUT :: u64 where "DEFAULT_MAX_TIMEOUT = 10 * TICKS_PER_SEC"

record retry_timer =
  running :: bool
  timeout :: u64
  timer_min :: u64
  timer_max :: u64
  start :: u64
  rt_count :: u32

text \<open>A zeroed timer, as \<^verbatim>\<open>zalloc()\<close> and \<^verbatim>\<open>timer_init()\<close> leave it.\<close>

definition timer_init :: retry_timer where
  "timer_init = \<lparr>running = False, timeout = 0, timer_min = 0, timer_max = 0, start = 0, rt_count = 0\<rparr>"

definition set_timer_limits :: "u64 \<Rightarrow> u64 \<Rightarrow> retry_timer \<Rightarrow> retry_timer" where
  "set_timer_limits lo hi timer = timer\<lparr>timer_min := lo, timer_max := hi\<rparr>"

definition start_timer_fixed ::
  "u64 \<Rightarrow> u64 \<Rightarrow> retry_timer \<times> refcnt option \<Rightarrow> retry_timer \<times> refcnt option" where
  "start_timer_fixed now t = (\<lambda>(timer, refcnt).
     (timer\<lparr>running := True, start := now, timeout := t\<rparr>,
      if \<not> running timer then ref_get refcnt else refcnt))"

definition start_timeout :: "retry_timer \<Rightarrow> u64" where
  "start_timeout timer =
     (let lo = (if timer_min timer \<noteq> 0 then timer_min timer else DEFAULT_MIN_TIMEOUT);
          lo = (if lo < MIN_TIMEOUT then MIN_TIMEOUT else lo)
      in if timeout timer < lo then lo else timeout timer)"

definition start_timer :: "u64 \<Rightarrow> retry_timer \<times> refcnt option \<Rightarrow> retry_timer \<times> refcnt option" where
  "start_timer now = (\<lambda>(timer, refcnt). start_timer_fixed now (start_timeout timer) (timer, refcnt))"

definition start_timer_nodelay :: "u64 \<Rightarrow> retry_timer \<times> refcnt option \<Rightarrow> retry_timer \<times> refcnt option" where
  "start_timer_nodelay now = start_timer_fixed now 0"

definition stop_timer :: "u64 \<Rightarrow> retry_timer \<times> refcnt option \<Rightarrow> retry_timer \<times> refcnt option" where
  "stop_timer now = (\<lambda>(timer, refcnt).
     if \<not> running timer then (timer, refcnt)
     else
       let runtime = now - start timer;
           timer = timer\<lparr>running := False\<rparr>;
           timer = (if rt_count timer \<noteq> 0 then timer\<lparr>rt_count := rt_count timer - 1\<rparr>
                    else timer\<lparr>timeout := timeout timer - drop_bit 3 (timeout timer) + drop_bit 1 runtime\<rparr>)
       in (timer, ref_put refcnt))"

text \<open>Expiry up to the call of the callback: the timer and the failure indicator.\<close>

definition timer_expired :: "retry_timer \<Rightarrow> retry_timer \<times> bool" where
  "timer_expired timer =
     (let hi = (if timer_max timer \<noteq> 0 then timer_max timer else DEFAULT_MAX_TIMEOUT);
          timer = timer\<lparr>running := False, rt_count := rt_count timer + 1,
                        timeout := push_bit 1 (timeout timer)\<rparr>;
          fail = timeout timer > hi
      in (if fail then timer\<lparr>timeout := hi\<rparr> else timer, fail))"

section \<open>The list of running timers\<close>

record 'i retry_state =
  timers :: "'i list"
  timer_of :: "'i \<Rightarrow> retry_timer"
  timer_refs :: "'i \<Rightarrow> refcnt option"
  retry_failures :: nat

definition put_timer ::
  "'i \<Rightarrow> retry_timer \<times> refcnt option \<Rightarrow> ('i, 'a) retry_state_scheme \<Rightarrow> ('i, 'a) retry_state_scheme" where
  "put_timer i = (\<lambda>(timer, refcnt) s.
     s\<lparr>timer_of := (timer_of s)(i := timer), timer_refs := (timer_refs s)(i := refcnt)\<rparr>)"

definition retry_start_fixed ::
  "u64 \<Rightarrow> u64 \<Rightarrow> 'i \<Rightarrow> ('i, 'a) retry_state_scheme \<Rightarrow> ('i, 'a) retry_state_scheme" where
  "retry_start_fixed now t i s =
     put_timer i (start_timer_fixed now t (timer_of s i, timer_refs s i))
       (if \<not> running (timer_of s i) then s\<lparr>timers := i # timers s\<rparr> else s)"

definition retry_start :: "u64 \<Rightarrow> 'i \<Rightarrow> ('i, 'a) retry_state_scheme \<Rightarrow> ('i, 'a) retry_state_scheme" where
  "retry_start now i s = retry_start_fixed now (start_timeout (timer_of s i)) i s"

definition retry_stop :: "u64 \<Rightarrow> 'i \<Rightarrow> ('i, 'a) retry_state_scheme \<Rightarrow> ('i, 'a) retry_state_scheme" where
  "retry_stop now i s =
     (if \<not> running (timer_of s i) then s
      else put_timer i (stop_timer now (timer_of s i, timer_refs s i))
             (s\<lparr>timers := remove1 i (timers s)\<rparr>))"

definition retry_expired ::
  "('i \<Rightarrow> bool \<Rightarrow> ('i, 'a) retry_state_scheme \<Rightarrow> ('i, 'a) retry_state_scheme) \<Rightarrow> 'i
   \<Rightarrow> ('i, 'a) retry_state_scheme \<Rightarrow> ('i, 'a) retry_state_scheme" where
  "retry_expired expired i s =
     (let s1 = (if running (timer_of s i) then s else s\<lparr>retry_failures := retry_failures s + 1\<rparr>);
          (timer, fail) = timer_expired (timer_of s1 i);
          s2 = s1\<lparr>timers := remove1 i (timers s1), timer_of := (timer_of s1)(i := timer)\<rparr>;
          s3 = expired i fail s2
      in s3\<lparr>timer_refs := (timer_refs s3)(i := ref_put (timer_refs s3 i))\<rparr>)"

fun retry_poll_loop ::
  "('i \<Rightarrow> bool \<Rightarrow> ('i, 'a) retry_state_scheme \<Rightarrow> ('i, 'a) retry_state_scheme) \<Rightarrow> u64 \<Rightarrow> 'i list
   \<Rightarrow> ('i, 'a) retry_state_scheme \<Rightarrow> ('i, 'a) retry_state_scheme" where
  "retry_poll_loop expired now [] s = s"
| "retry_poll_loop expired now (i # rest) s =
     (if now - start (timer_of s i) \<ge> timeout (timer_of s i) then retry_expired expired i s
      else retry_poll_loop expired now rest s)"

definition retry_poll ::
  "('i \<Rightarrow> bool \<Rightarrow> ('i, 'a) retry_state_scheme \<Rightarrow> ('i, 'a) retry_state_scheme) \<Rightarrow> u64
   \<Rightarrow> ('i, 'a) retry_state_scheme \<Rightarrow> ('i, 'a) retry_state_scheme" where
  "retry_poll expired now s = retry_poll_loop expired now (timers s) s"

section \<open>Timeouts\<close>

lemma unat_half_words:
  "unat (drop_bit n x :: u64) = unat x div 2 ^ n"
  by (simp only: unat_drop_bit_eq) (simp add: drop_bit_eq_div)

text \<open>Smoothing on natural numbers: \<open>t\<close> moves towards \<open>4 * r\<close>.\<close>

definition smooth :: "nat \<Rightarrow> nat \<Rightarrow> nat" where
  "smooth t r = t - t div 8 + r div 2"

lemma sub_eighth_mono: "a \<le> b \<Longrightarrow> a - a div 8 \<le> (b - b div 8 :: nat)"
proof (induction b rule: dec_induct)
  case (step n)
  have "Suc n div 8 \<le> Suc (n div 8)" by (simp add: div_Suc)
  then show ?case using step by linarith
qed simp

lemma smooth_between:
  "min t (4 * r) \<le> smooth t r" "smooth t r \<le> max t (4 * r)"
proof -
  have e: "4 * r - 4 * r div 8 + r div 2 = 4 * r" "4 * r div 8 = r div 2" by auto
  have "min t (4 * r) \<le> smooth t r \<and> smooth t r \<le> max t (4 * r)"
  proof (cases "t \<le> 4 * r")
    case True
    then have "t div 8 \<le> r div 2" using div_le_mono [OF True, of 8] e(2) by simp
    moreover have "t - t div 8 \<le> 4 * r - 4 * r div 8" using sub_eighth_mono [OF True] .
    ultimately show ?thesis using True e by (auto simp: smooth_def)
  next
    case False
    then have l: "4 * r \<le> t" by simp
    then have "r div 2 \<le> t div 8" using div_le_mono [OF l, of 8] e(2) by simp
    moreover have "4 * r - 4 * r div 8 \<le> t - t div 8" using sub_eighth_mono [OF l] .
    moreover have "t div 8 \<le> t" by simp
    ultimately show ?thesis using False e by (auto simp: smooth_def)
  qed
  then show "min t (4 * r) \<le> smooth t r" "smooth t r \<le> max t (4 * r)" by simp_all
qed

lemma smooth_ge_7: "7 \<le> t \<Longrightarrow> 7 \<le> smooth t r"
  using sub_eighth_mono [of 7 t] by (simp add: smooth_def)


section \<open>Backing off\<close>

text \<open>\<open>n\<close> rounds of starting the timer, at given times, and letting it expire.\<close>

primrec retries :: "(nat \<Rightarrow> u64) \<Rightarrow> nat \<Rightarrow> retry_timer \<Rightarrow> retry_timer \<times> bool" where
  "retries now 0 t = (t, False)"
| "retries now (Suc n) t =
     timer_expired (fst (start_timer (now n) (fst (retries now n t), None)))"

definition timer_limit :: "retry_timer \<Rightarrow> u64" where
  "timer_limit t = (if timer_max t \<noteq> 0 then timer_max t else DEFAULT_MAX_TIMEOUT)"

lemma expire_started:
  assumes "unat (start_timeout t) < 9223372036854775808" "unat (timer_limit t) < 9223372036854775808"
  shows "let (t', fail) = timer_expired (fst (start_timer now (t, r))) in
    unat (timeout t') = min (unat (timer_limit t)) (2 * unat (start_timeout t)) \<and>
    fail = (2 * unat (start_timeout t) > unat (timer_limit t)) \<and>
    timer_min t' = timer_min t \<and> timer_max t' = timer_max t"
proof -
  have "unat (push_bit 1 (start_timeout t)) = 2 * unat (start_timeout t)"
    using assms(1) by (simp add: push_bit_eq_mult unat_word_ariths)
  then show ?thesis
    by (auto simp: start_timer_def start_timer_fixed_def timer_expired_def Let_def timer_limit_def
        word_less_nat_alt)
qed

definition timer_floor :: "retry_timer \<Rightarrow> u64" where
  "timer_floor t = start_timeout (t\<lparr>timeout := 0\<rparr>)"

lemma start_timeout_floor: "unat (start_timeout t) = max (unat (timeout t)) (unat (timer_floor t))"
  by (auto simp: timer_floor_def start_timeout_def Let_def word_less_nat_alt MIN_TIMEOUT_def DEFAULT_MIN_TIMEOUT_def TICKS_PER_SEC_def)

lemma timer_floor_cong: "timer_min t' = timer_min t \<Longrightarrow> timer_floor t' = timer_floor t"
  by (simp add: timer_floor_def start_timeout_def Let_def)

lemma timer_floor_ge_7: "7 \<le> unat (timer_floor t)"
  by (auto simp: timer_floor_def start_timeout_def Let_def word_less_nat_alt MIN_TIMEOUT_def)

lemma backoff_round:
  fixes hi lo S n :: nat
  assumes "lo \<le> S" "7 \<le> lo"
  defines "T \<equiv> max (min hi (S * 2 ^ n)) lo"
  shows "min hi (2 * T) = min hi (S * 2 ^ Suc n)" "(2 * T > hi) = (S * 2 ^ Suc n > hi)"
proof -
  have "S \<le> S * 2 ^ n" by simp
  then have "lo \<le> S * 2 ^ n" using assms(1) by linarith
  moreover have "S * 2 ^ Suc n = 2 * (S * 2 ^ n)" by simp
  ultimately show "min hi (2 * T) = min hi (S * 2 ^ Suc n)" "(2 * T > hi) = (S * 2 ^ Suc n > hi)"
    using assms(2) unfolding T_def by linarith+
qed

lemma retries_Suc:
  assumes "unat (start_timeout t) < 9223372036854775808" "unat (timer_limit t) < 9223372036854775808"
  shows "let (t', fail) = retries now (Suc n) t in
    unat (timeout t') = min (unat (timer_limit t)) (unat (start_timeout t) * 2 ^ Suc n) \<and>
    fail = (unat (start_timeout t) * 2 ^ Suc n > unat (timer_limit t)) \<and>
    timer_min t' = timer_min t \<and> timer_max t' = timer_max t"
proof (induction n)
  case 0
  show ?case using expire_started [OF assms, of "now 0" None] by (simp add: mult.commute)
next
  case (Suc n)
  obtain t' fail where r: "retries now (Suc n) t = (t', fail)" by fastforce
  have IH: "unat (timeout t') = min (unat (timer_limit t)) (unat (start_timeout t) * 2 ^ Suc n)"
    "timer_min t' = timer_min t" "timer_max t' = timer_max t" using Suc r by simp_all
  have l: "timer_limit t' = timer_limit t" using IH(3) by (simp add: timer_limit_def)
  have S: "unat (start_timeout t') =
      max (min (unat (timer_limit t)) (unat (start_timeout t) * 2 ^ Suc n)) (unat (timer_floor t))"
    using start_timeout_floor [of t'] timer_floor_cong [OF IH(2)] IH(1) by simp
  have le: "unat (timer_floor t) \<le> unat (start_timeout t)" using start_timeout_floor [of t] by simp
  have "unat (start_timeout t') < 9223372036854775808" using S le assms by linarith
  note e = expire_started [OF this assms(2) [folded l], of "now (Suc n)" None]
  have "retries now (Suc (Suc n)) t = timer_expired (fst (start_timer (now (Suc n)) (t', None)))"
    using r by simp
  then show ?case
    using e backoff_round [OF le timer_floor_ge_7, where hi = "unat (timer_limit t)" and n = "Suc n"] IH(2,3)
    by (simp only: Let_def case_prod_beta l S)
qed




section \<open>The list of running timers\<close>

text \<open>
  A timer is on the list exactly when its \<open>running\<close> flag is set, and it holds one
  reference to its object exactly then; \<open>base\<close> counts the other references.
\<close>

definition timers_wf :: "('i \<Rightarrow> nat option) \<Rightarrow> ('i, 'a) retry_state_scheme \<Rightarrow> bool" where
  "timers_wf base s \<longleftrightarrow>
     distinct (timers s) \<and>
     (\<forall>i. running (timer_of s i) = (i \<in> set (timers s))) \<and>
     (\<forall>i. timer_refs s i = map_option
        (\<lambda>n. \<lparr>ref_count = int n + of_bool (running (timer_of s i)), ref_freed = 0, ref_failures = 0\<rparr>)
        (base i))"

lemmas timer_ops_defs = start_timer_fixed_def stop_timer_def put_timer_def Let_def
  ref_get_def ref_put_def ref_increment_def ref_decrement_def ref_assert_def

lemma timers_wf_start_fixed: "timers_wf base s \<Longrightarrow> timers_wf base (retry_start_fixed now t i s)"
  by (auto simp: timers_wf_def retry_start_fixed_def timer_ops_defs option.map_comp o_def
      split: option.splits intro!: option.map_cong)

lemma timers_wf_start: "timers_wf base s \<Longrightarrow> timers_wf base (retry_start now i s)"
  by (simp add: retry_start_def timers_wf_start_fixed)

lemma timers_wf_stop: "timers_wf base s \<Longrightarrow> timers_wf base (retry_stop now i s)"
  by (auto simp: timers_wf_def retry_stop_def timer_ops_defs option.map_comp o_def
      split: option.splits intro!: option.map_cong)

text \<open>What a callback must keep, and that expiry then keeps it too.\<close>

locale expiry_callbacks =
  fixes expired :: "'i \<Rightarrow> bool \<Rightarrow> ('i, 'a) retry_state_scheme \<Rightarrow> ('i, 'a) retry_state_scheme"
  assumes keeps_wf: "timers_wf base s \<Longrightarrow> timers_wf base (expired i fail s)"
    and keeps_failures: "retry_failures (expired i fail s) = retry_failures s"
begin

lemma expired_wf:
  assumes "timers_wf base s" "i \<in> set (timers s)"
  shows "timers_wf base (retry_expired expired i s)" "retry_failures (retry_expired expired i s) = retry_failures s"
proof -
  obtain timer fail where t: "timer_expired (timer_of s i) = (timer, fail)" by fastforce
  have r: "running (timer_of s i)" using assms by (simp add: timers_wf_def)
  have nr: "\<not> running timer" using t by (auto simp: timer_expired_def Let_def split: if_splits)
  define s2 where "s2 = s\<lparr>timers := remove1 i (timers s), timer_of := (timer_of s)(i := timer)\<rparr>"
  define base' where "base' = base(i := map_option Suc (base i))"
  have "timers_wf base' s2"
    using assms r nr by (auto simp: timers_wf_def s2_def base'_def option.map_comp o_def intro!: option.map_cong)
  then have w: "timers_wf base' (expired i fail s2)" by (rule keeps_wf)
  have e: "retry_expired expired i s =
      (expired i fail s2)\<lparr>timer_refs := (timer_refs (expired i fail s2))(i := ref_put (timer_refs (expired i fail s2) i))\<rparr>"
    using t r by (simp add: retry_expired_def s2_def Let_def)
  show "retry_failures (retry_expired expired i s) = retry_failures s"
    by (simp add: e keeps_failures s2_def)
  show "timers_wf base (retry_expired expired i s)"
    unfolding e using w
    by (auto simp: timers_wf_def base'_def timer_ops_defs option.map_comp o_def split: option.splits
        intro!: option.map_cong)
qed

lemma poll_loop_wf:
  assumes "timers_wf base s" "set l \<subseteq> set (timers s)"
  shows "timers_wf base (retry_poll_loop expired now l s) \<and>
    retry_failures (retry_poll_loop expired now l s) = retry_failures s"
  using assms by (induction l) (auto simp: expired_wf)

lemma poll_wf:
  assumes "timers_wf base s"
  shows "timers_wf base (retry_poll expired now s)" "retry_failures (retry_poll expired now s) = retry_failures s"
  using poll_loop_wf [OF assms subset_refl] by (simp_all add: retry_poll_def)

end

text \<open>Callbacks that start and stop timers, as those of the program do.\<close>

datatype 'i timer_op = StartFixed u64 'i | Start 'i | Stop 'i

primrec run_timer_op ::
  "u64 \<Rightarrow> 'i timer_op \<Rightarrow> ('i, 'a) retry_state_scheme \<Rightarrow> ('i, 'a) retry_state_scheme" where
  "run_timer_op now (StartFixed t i) = retry_start_fixed now t i"
| "run_timer_op now (Start i) = retry_start now i"
| "run_timer_op now (Stop i) = retry_stop now i"

definition ops_callback ::
  "('i \<Rightarrow> bool \<Rightarrow> ('i, 'a) retry_state_scheme \<Rightarrow> 'i timer_op list) \<Rightarrow> u64 \<Rightarrow> 'i \<Rightarrow> bool
   \<Rightarrow> ('i, 'a) retry_state_scheme \<Rightarrow> ('i, 'a) retry_state_scheme" where
  "ops_callback prog now i fail s = fold (run_timer_op now) (prog i fail s) s"

lemma run_timer_op_wf: "timers_wf base s \<Longrightarrow> timers_wf base (run_timer_op now opn s)"
  by (cases opn) (simp_all add: timers_wf_start_fixed timers_wf_start timers_wf_stop)

lemma run_timer_op_failures [simp]: "retry_failures (run_timer_op now opn s) = retry_failures s"
  by (cases opn) (auto simp: retry_start_def retry_start_fixed_def retry_stop_def put_timer_def split: prod.splits)

lemma fold_timer_ops_wf: "timers_wf base s \<Longrightarrow> timers_wf base (fold (run_timer_op now) ops s)"
  by (induction ops arbitrary: s) (simp_all add: run_timer_op_wf)

lemma fold_timer_ops_failures: "retry_failures (fold (run_timer_op now) ops s) = retry_failures s"
  by (induction ops arbitrary: s) simp_all

interpretation ops_expiry: expiry_callbacks "ops_callback prog now" for prog now
  by unfold_locales (simp_all add: ops_callback_def fold_timer_ops_wf fold_timer_ops_failures)

text \<open>Events: an operation on a timer, or a poll whose callback follows a program.\<close>

datatype ('i, 'a) timer_event =
    TimerOp u64 "'i timer_op"
  | Poll u64 "'i \<Rightarrow> bool \<Rightarrow> ('i, 'a) retry_state_scheme \<Rightarrow> 'i timer_op list"

primrec run_timer_event ::
  "('i, 'a) timer_event \<Rightarrow> ('i, 'a) retry_state_scheme \<Rightarrow> ('i, 'a) retry_state_scheme" where
  "run_timer_event (TimerOp now opn) = run_timer_op now opn"
| "run_timer_event (Poll now prog) = retry_poll (ops_callback prog now) now"

definition no_timers :: "('i \<Rightarrow> nat option) \<Rightarrow> 'i retry_state" where
  "no_timers base =
     \<lparr>timers = [], timer_of = (\<lambda>_. timer_init),
      timer_refs = (\<lambda>i. map_option (\<lambda>n. \<lparr>ref_count = int n, ref_freed = 0, ref_failures = 0\<rparr>) (base i)),
      retry_failures = 0\<rparr>"

lemma run_timer_event_wf:
  assumes "timers_wf base s"
  shows "timers_wf base (run_timer_event ev s) \<and> retry_failures (run_timer_event ev s) = retry_failures s"
  using assms by (cases ev) (simp_all add: run_timer_op_wf ops_expiry.poll_wf)

text \<open>
  C25. Consistency of the timer list.  After any sequence of starting, stopping and polling
  timers, with callbacks that start and stop timers as they like, the list holds exactly the
  running timers, each once; each running timer holds one reference to its object and a
  stopped one none; and no assertion has failed.
\<close>

theorem retry_timers_consistent:
  "timers_wf base (fold run_timer_event evs (no_timers base)) \<and>
   retry_failures (fold run_timer_event evs (no_timers base)) = 0"
proof -
  have "timers_wf base (fold run_timer_event evs s) \<and> retry_failures (fold run_timer_event evs s) = retry_failures s"
    if "timers_wf base s" for s
    using that by (induction evs arbitrary: s) (simp_all add: run_timer_event_wf)
  moreover have "timers_wf base (no_timers base)"
    by (simp add: timers_wf_def no_timers_def timer_init_def)
  ultimately show ?thesis by (simp add: no_timers_def)
qed
end
