(* ===== verification/Iobuf.thy ===== *)
theory Iobuf
  imports Malloc
begin

text \<open>
  I/O buffers, \<^verbatim>\<open>core/iobuf.c\<close> and \<^verbatim>\<open>include/ipxe/iobuf.h\<close>, on the heap of the
  allocator.  A descriptor is a record that knows its own address \<open>iob_self\<close>; the bytes of
  the buffer are in the heap's memory.  The list a buffer belongs to is kept by its owner.
\<close>

section \<open>Descriptors\<close>

record io_buffer =
  iob_self :: u64
  iob_head :: u64
  iob_data :: u64
  iob_tail :: u64
  iob_end :: u64

definition sizeof_io_buffer :: u64 where "sizeof_io_buffer = 48"
definition alignof_io_buffer :: u64 where "alignof_io_buffer = 8"
definition IOB_ZLEN :: u64 where "IOB_ZLEN = 128"

definition iob_len :: "io_buffer \<Rightarrow> u64" where
  "iob_len iobuf = iob_tail iobuf - iob_data iobuf"

definition iob_headroom :: "io_buffer \<Rightarrow> u64" where
  "iob_headroom iobuf = iob_data iobuf - iob_head iobuf"

definition iob_tailroom :: "io_buffer \<Rightarrow> u64" where
  "iob_tailroom iobuf = iob_end iobuf - iob_tail iobuf"

definition iob_reserve ::
  "u64 \<Rightarrow> io_buffer \<times> 'a heap_state_scheme \<Rightarrow> io_buffer \<times> 'a heap_state_scheme" where
  "iob_reserve len = (\<lambda>(iobuf, h).
     let iobuf = iobuf\<lparr>iob_data := iob_data iobuf + len, iob_tail := iob_tail iobuf + len\<rparr>
     in (iobuf, assert_that (iob_tail iobuf \<le> iob_end iobuf) h))"

definition iob_push ::
  "u64 \<Rightarrow> io_buffer \<times> 'a heap_state_scheme \<Rightarrow> io_buffer \<times> 'a heap_state_scheme" where
  "iob_push len = (\<lambda>(iobuf, h).
     let iobuf = iobuf\<lparr>iob_data := iob_data iobuf - len\<rparr>
     in (iobuf, assert_that (iob_data iobuf \<ge> iob_head iobuf) h))"

text \<open>Both the function and the macro around it check the result of a pull.\<close>

definition iob_pull ::
  "u64 \<Rightarrow> io_buffer \<times> 'a heap_state_scheme \<Rightarrow> io_buffer \<times> 'a heap_state_scheme" where
  "iob_pull len = (\<lambda>(iobuf, h).
     let iobuf = iobuf\<lparr>iob_data := iob_data iobuf + len\<rparr>
     in (iobuf, assert_that (iob_data iobuf \<le> iob_tail iobuf)
                  (assert_that (iob_data iobuf \<le> iob_tail iobuf) h)))"

text \<open>The result of \<open>iob_put\<close> includes the address of the space added.\<close>

definition iob_put ::
  "u64 \<Rightarrow> io_buffer \<times> 'a heap_state_scheme \<Rightarrow> u64 \<times> io_buffer \<times> 'a heap_state_scheme" where
  "iob_put len = (\<lambda>(iobuf, h).
     let old_tail = iob_tail iobuf;
         iobuf = iobuf\<lparr>iob_tail := iob_tail iobuf + len\<rparr>
     in (old_tail, iobuf, assert_that (iob_tail iobuf \<le> iob_end iobuf) h))"

definition iob_unput ::
  "u64 \<Rightarrow> io_buffer \<times> 'a heap_state_scheme \<Rightarrow> io_buffer \<times> 'a heap_state_scheme" where
  "iob_unput len = (\<lambda>(iobuf, h).
     let iobuf = iobuf\<lparr>iob_tail := iob_tail iobuf - len\<rparr>
     in (iobuf, assert_that (iob_tail iobuf \<ge> iob_data iobuf) h))"

definition iob_empty :: "io_buffer \<Rightarrow> io_buffer" where
  "iob_empty iobuf = iobuf\<lparr>iob_tail := iob_data iobuf\<rparr>"

definition iob_populate :: "u64 \<Rightarrow> u64 \<Rightarrow> u64 \<Rightarrow> io_buffer \<Rightarrow> io_buffer" where
  "iob_populate data len max_len iobuf =
     iobuf\<lparr>iob_head := data, iob_data := data, iob_tail := data + len, iob_end := data + max_len\<rparr>"

definition iob_ensure_headroom :: "io_buffer \<Rightarrow> u64 \<Rightarrow> errno option" where
  "iob_ensure_headroom iobuf len = (if iob_headroom iobuf \<ge> len then None else Some ENOBUFS)"

section \<open>Allocation\<close>

definition alloc_iob_raw ::
  "'a discarder list \<Rightarrow> u64 \<Rightarrow> u64 \<Rightarrow> u64 \<Rightarrow> 'a heap_state_scheme
   \<Rightarrow> (io_buffer option \<times> 'a heap_state_scheme) option" where
  "alloc_iob_raw ds len align offset h =
     (let padding = sizeof_io_buffer + alignof_io_buffer - 1;
          align = (if align < padding then padding else align);
          align_log2 = fls (unat (align - 1))
      in if align_log2 \<ge> 64 then Some (None, h)
         else
           let align = push_bit align_log2 1;
               h1 = assert_that (align \<ge> padding) h;
               threshold = align - padding
           in if len \<le> threshold then
                let len = len + ((- len - offset) AND (alignof_io_buffer - 1))
                in map_option
                     (\<lambda>(data, h2).
                        (if data = 0 then None
                         else Some \<lparr>iob_self = data + len, iob_head = data, iob_data = data,
                                    iob_tail = data, iob_end = data + len\<rparr>, h2))
                     (alloc_memblock ds (len + sizeof_io_buffer) align offset h1)
              else
                (case alloc_memblock ds len align offset h1 of
                   None \<Rightarrow> None
                 | Some (data, h2) \<Rightarrow>
                     if data = 0 then Some (None, h2)
                     else
                       (case malloc ds sizeof_io_buffer h2 of
                          None \<Rightarrow> None
                        | Some (iobuf, h3) \<Rightarrow>
                            if iobuf = 0 then map_option (\<lambda>h4. (None, h4)) (free_memblock data len h3)
                            else Some (Some \<lparr>iob_self = iobuf, iob_head = data, iob_data = data,
                                             iob_tail = data, iob_end = data + len\<rparr>, h3))))"

definition alloc_iob ::
  "'a discarder list \<Rightarrow> u64 \<Rightarrow> 'a heap_state_scheme \<Rightarrow> (io_buffer option \<times> 'a heap_state_scheme) option" where
  "alloc_iob ds len h =
     (let len = (if len < IOB_ZLEN then IOB_ZLEN else len)
      in alloc_iob_raw ds len len 0 h)"

definition free_iob ::
  "'a discarder list \<Rightarrow> io_buffer option \<Rightarrow> 'a heap_state_scheme \<Rightarrow> 'a heap_state_scheme option" where
  "free_iob ds iobuf h =
     (case iobuf of
        None \<Rightarrow> Some h
      | Some iobuf \<Rightarrow>
          let h1 = assert_that (iob_head iobuf \<le> iob_data iobuf) h;
              h2 = assert_that (iob_data iobuf \<le> iob_tail iobuf) h1;
              h3 = assert_that (iob_tail iobuf \<le> iob_end iobuf) h2;
              len = iob_end iobuf - iob_head iobuf
          in if iob_end iobuf = iob_self iobuf
             then free_memblock (iob_head iobuf) (len + sizeof_io_buffer) h3
             else (case free_memblock (iob_head iobuf) len h3 of
                     None \<Rightarrow> None
                   | Some h4 \<Rightarrow> free ds (iob_self iobuf) h4))"

section \<open>Joining and splitting\<close>

text \<open>Appending the bytes of one buffer to another.\<close>

definition iob_append ::
  "io_buffer \<times> 'a heap_state_scheme \<Rightarrow> io_buffer \<Rightarrow> io_buffer \<times> 'a heap_state_scheme" where
  "iob_append = (\<lambda>(concatenated, h) iobuf.
     let (dest, concatenated, h) = iob_put (iob_len iobuf) (concatenated, h)
     in (concatenated, h\<lparr>mem := memcpy (mem h) dest (iob_data iobuf) (iob_len iobuf)\<rparr>))"

fun iob_move_all ::
  "'a discarder list \<Rightarrow> io_buffer \<Rightarrow> io_buffer list \<Rightarrow> 'a heap_state_scheme
   \<Rightarrow> (io_buffer \<times> 'a heap_state_scheme) option" where
  "iob_move_all ds concatenated [] h = Some (concatenated, h)"
| "iob_move_all ds concatenated (iobuf # rest) h =
     (let (concatenated, h) = iob_append (concatenated, h) iobuf
      in case free_iob ds (Some iobuf) h of
           None \<Rightarrow> None
         | Some h \<Rightarrow> iob_move_all ds concatenated rest h)"

text \<open>The result is the buffer, if any, and what is left of the list.\<close>

definition iob_concatenate ::
  "'a discarder list \<Rightarrow> io_buffer list \<Rightarrow> 'a heap_state_scheme
   \<Rightarrow> (io_buffer option \<times> io_buffer list \<times> 'a heap_state_scheme) option" where
  "iob_concatenate ds l h =
     (case l of
        [iobuf] \<Rightarrow> Some (Some iobuf, [], h)
      | _ \<Rightarrow>
          let len = sum_list (map iob_len l)
          in (case alloc_iob_raw ds len alignof_io_buffer 0 h of
                None \<Rightarrow> None
              | Some (None, h) \<Rightarrow> Some (None, l, h)
              | Some (Some concatenated, h) \<Rightarrow>
                  map_option (\<lambda>(c, h). (Some c, [], h)) (iob_move_all ds concatenated l h)))"

text \<open>The result is the new buffer, if any, and the old one.\<close>

definition iob_split ::
  "'a discarder list \<Rightarrow> io_buffer \<Rightarrow> u64 \<Rightarrow> 'a heap_state_scheme
   \<Rightarrow> (io_buffer option \<times> io_buffer \<times> 'a heap_state_scheme) option" where
  "iob_split ds iobuf len h =
     (let h = assert_that (len \<le> iob_len iobuf) h
      in case alloc_iob ds len h of
           None \<Rightarrow> None
         | Some (None, h) \<Rightarrow> Some (None, iobuf, h)
         | Some (Some split, h) \<Rightarrow>
             let (dest, split, h) = iob_put len (split, h);
                 h = h\<lparr>mem := memcpy (mem h) dest (iob_data iobuf) len\<rparr>;
                 (iobuf, h) = iob_pull len (iobuf, h)
             in Some (Some split, iobuf, h))"

lemma unat_pow64: "k < 64 \<Longrightarrow> unat (2 ^ k :: u64) = 2 ^ k"
proof -
  assume "k < 64"
  then have "(2 :: nat) ^ k < 2 ^ 64" by (rule power_strict_increasing) simp
  moreover have "(2 ^ k :: u64) = of_nat (2 ^ k)" by simp
  ultimately show ?thesis by (simp only: unat_of_nat) simp
qed

section \<open>Buffers that own memory\<close>

lemma fls_bounds: "0 < n \<Longrightarrow> 2 ^ (fls n - 1) \<le> n \<and> n < 2 ^ fls n"
proof (induction n rule: less_induct)
  case (less n)
  show ?case
  proof (cases "n = 1")
    case False
    then have d: "0 < n div 2" "n div 2 < n" using less.prems by auto
    have f: "fls n = Suc (fls (n div 2))" using less.prems by (subst fls.simps) simp
    have "0 < fls (n div 2)" using d(1) by (subst fls.simps) simp
    then obtain k where k: "fls (n div 2) = Suc k" by (cases "fls (n div 2)") auto
    have "2 ^ k \<le> n div 2 \<and> n div 2 < 2 ^ Suc k" using less.IH [OF d(2,1)] k by simp
    then have "2 * 2 ^ k \<le> n" "n < 2 * 2 ^ Suc k" by linarith+
    then show ?thesis using f k by simp
  qed simp
qed

declare fls.simps [simp del]

text \<open>
  The alignment used: the smallest power of two that is at least the requested alignment
  and the padding.
\<close>

definition iob_align_log2 :: "u64 \<Rightarrow> nat" where
  "iob_align_log2 align = fls (unat ((if align < 55 then 55 else align) - 1))"

lemma iob_align:
  assumes "iob_align_log2 align < 64"
  shows "unat align \<le> 2 ^ iob_align_log2 align" "64 \<le> (2 :: nat) ^ iob_align_log2 align"
proof -
  let ?a = "if align < 55 then 55 else align"
  have a: "55 \<le> unat ?a" "unat align \<le> unat ?a" by (auto simp: word_less_nat_alt)
  then have u: "unat (?a - 1) = unat ?a - 1" by (intro trans [OF unat_sub64]) simp_all
  have b: "2 ^ (fls (unat (?a - 1)) - 1) \<le> unat (?a - 1)" "unat (?a - 1) < 2 ^ fls (unat (?a - 1))"
    using fls_bounds [of "unat (?a - 1)"] a u by simp_all
  then show "unat align \<le> 2 ^ iob_align_log2 align" using a u unfolding iob_align_log2_def by linarith
  have "54 < (2 :: nat) ^ iob_align_log2 align" using a(1) u b(2) unfolding iob_align_log2_def by linarith
  then have "\<not> iob_align_log2 align \<le> 5"
    using power_increasing [of "iob_align_log2 align" 5 "2 :: nat"] by auto
  then show "64 \<le> (2 :: nat) ^ iob_align_log2 align"
    using power_increasing [of 6 "iob_align_log2 align" "2 :: nat"] by simp
qed

text \<open>
  A buffer owns its memory: its pointers are in order and its memory, with the descriptor
  behind it or in a block of its own, is allocated.
\<close>

definition iob_inline :: "io_buffer \<Rightarrow> bool" where
  "iob_inline iob \<longleftrightarrow> iob_end iob = iob_self iob"

definition iob_ordered :: "io_buffer \<Rightarrow> bool" where
  "iob_ordered iob \<longleftrightarrow>
     iob_head iob \<le> iob_data iob \<and> iob_data iob \<le> iob_tail iob \<and> iob_tail iob \<le> iob_end iob"

definition iob_size :: "io_buffer \<Rightarrow> u64" where
  "iob_size iob = iob_end iob - iob_head iob"

definition iob_live :: "io_buffer \<Rightarrow> nat set" where
  "iob_live iob =
     (if iob_inline iob then live_range (iob_head iob, iob_size iob + 48)
      else live_range (iob_head iob, iob_size iob) \<union> live_range (iob_self iob - 8, 56))"

definition iob_ok :: "io_buffer \<Rightarrow> 'a heap_state_scheme \<Rightarrow> bool" where
  "iob_ok iob h \<longleftrightarrow>
     iob_ordered iob \<and>
     (if iob_inline iob then freeable (iob_head iob) (iob_size iob + 48) h \<and> unat (iob_size iob) < addr_limit
      else freeable (iob_head iob) (iob_size iob) h \<and> autosized (iob_self iob) 48 h \<and>
           live_range (iob_head iob, iob_size iob) \<inter> live_range (iob_self iob - 8, 56) = {})"

lemma alloc_iob_raw_unfold:
  "alloc_iob_raw ds len align offset h =
     (let k = iob_align_log2 align
      in if k \<ge> 64 then Some (None, h)
         else if unat len + 55 \<le> 2 ^ k then
           let len = len + ((- len - offset) AND 7)
           in map_option
                (\<lambda>(data, h2).
                   (if data = 0 then None
                    else Some \<lparr>iob_self = data + len, iob_head = data, iob_data = data,
                               iob_tail = data, iob_end = data + len\<rparr>, h2))
                (alloc_memblock ds (len + 48) (2 ^ k) offset h)
         else
           (case alloc_memblock ds len (2 ^ k) offset h of
              None \<Rightarrow> None
            | Some (data, h2) \<Rightarrow>
                if data = 0 then Some (None, h2)
                else
                  (case malloc ds 48 h2 of
                     None \<Rightarrow> None
                   | Some (iobuf, h3) \<Rightarrow>
                       if iobuf = 0 then map_option (\<lambda>h4. (None, h4)) (free_memblock data len h3)
                       else Some (Some \<lparr>iob_self = iobuf, iob_head = data, iob_data = data,
                                        iob_tail = data, iob_end = data + len\<rparr>, h3))))"
proof (cases "iob_align_log2 align < 64")
  case True
  define k where "k = iob_align_log2 align"
  have p: "(push_bit k 1 :: u64) = 2 ^ k" by (simp add: push_bit_eq_mult)
  have u: "unat (2 ^ k :: u64) = 2 ^ k" using True by (simp add: k_def unat_pow64)
  have g: "(55 :: u64) \<le> 2 ^ k" using iob_align(2) [OF True] u by (simp add: word_le_nat_alt k_def)
  have t: "len \<le> 2 ^ k - 55 \<longleftrightarrow> unat len + 55 \<le> 2 ^ k"
    using g u by (auto simp: word_le_nat_alt unat_sub64)
  have a: "assert_that ((55 :: u64) \<le> 2 ^ k) h = h" using g by simp
  have c: "(48 + 8 - 1 :: u64) = 55" "(8 - 1 :: u64) = 7" by simp_all
  have f: "fls (unat ((if align < 55 then 55 else align) - 1)) = k" by (simp add: k_def iob_align_log2_def)
  show ?thesis
    unfolding k_def [symmetric] alloc_iob_raw_def sizeof_io_buffer_def alignof_io_buffer_def Let_def c f p t a ..
next
  case False
  then show ?thesis
    by (simp add: alloc_iob_raw_def sizeof_io_buffer_def alignof_io_buffer_def Let_def iob_align_log2_def)
qed

lemma unat_and_7: "unat (x AND 7 :: u64) \<le> 7"
proof -
  have "(7 :: u64) = mask 3" by (simp add: mask_eq_exp_minus_1)
  then show ?thesis using unat_and_mask [of x 3] by simp
qed

text \<open>What a caller may rely on when a buffer has been allocated from the heap \<open>h\<close>.\<close>

definition iob_fresh ::
  "u64 \<Rightarrow> u64 \<Rightarrow> u64 \<Rightarrow> 'a heap_state_scheme \<Rightarrow> io_buffer \<Rightarrow> 'a heap_state_scheme \<Rightarrow> bool" where
  "iob_fresh len align offset h iob h' \<longleftrightarrow>
     iob_ok iob h' \<and> unat len \<le> unat (iob_size iob) \<and>
     iob_data iob = iob_head iob \<and> iob_tail iob = iob_head iob \<and>
     (iob_head iob - offset) AND (2 ^ iob_align_log2 align - 1) = 0 \<and>
     iob_live iob \<subseteq> free_range (free_blocks h) \<and>
     free_range (free_blocks h') \<subseteq> free_range (free_blocks h) - iob_live iob \<and>
     blocks_wf (free_blocks h') \<and> assertion_failures h' = assertion_failures h \<and>
     (\<forall>a. unat a \<notin> iob_live iob \<longrightarrow> mem h' a = mem h a)"

lemma inline_len:
  fixes len :: u64
  assumes "k < 64" "unat len + 55 \<le> 2 ^ k" "len' = len + ((- len - offset) AND 7)"
  shows "unat len' = unat len + unat ((- len - offset) AND 7)" "unat (len' + 48) = unat len' + 48"
    "len' + 48 \<noteq> 0"
proof -
  have "(2 :: nat) ^ k \<le> 2 ^ 63" using assms(1) by (intro power_increasing) simp_all
  with assms(2) have "unat len + 55 \<le> 2 ^ 63" by (rule le_trans)
  then have lb: "unat len + 55 \<le> 9223372036854775808" by simp
  show l: "unat len' = unat len + unat ((- len - offset) AND 7)"
    unfolding assms(3) using lb unat_and_7 [of "- len - offset"] by (intro unat_add64) linarith
  show s: "unat (len' + 48) = unat len' + 48"
    using lb l unat_and_7 [of "- len - offset"] by (intro trans [OF unat_add64]) simp_all
  then show "len' + 48 \<noteq> 0" by auto
qed

lemma alloc_inline:
  assumes k: "k = iob_align_log2 align" "k < 64" and fit: "unat len + 55 \<le> 2 ^ k"
    and len': "len' = len + ((- len - offset) AND 7)"
    and al: "allocated_from data (len' + 48) (2 ^ k) offset h h'"
  shows "iob_fresh len align offset h \<lparr>iob_self = data + len', iob_head = data, iob_data = data,
    iob_tail = data, iob_end = data + len'\<rparr> h'"
proof -
  note l = inline_len(1) [OF k(2) fit len'] and s = inline_len(2) [OF k(2) fit len']
  note nz = inline_len(3) [OF k(2) fit len']
  note d = allocated_fromD [OF al nz]
  note a = al [unfolded allocated_from_def]
  have "unat (len' + 48) \<le> unat (memblock_round (len' + 48))" using a by blast
  then have e: "unat (data + len') = unat data + unat len'" "unat len' < addr_limit"
    using a s by (auto intro!: unat_add64)
  show ?thesis
    using d a e l
    by (simp add: iob_fresh_def iob_ok_def iob_inline_def iob_ordered_def iob_size_def iob_live_def
        word_le_nat_alt k(1))
qed

lemma detached_apart:
  assumes big: "9 < unat len" and al: "allocated_from data len align offset h h1"
    and de: "allocated_from q (48 + 8) 1 0 h1 h2"
  shows "live_range (data, len) \<inter> live_range (q, 56) = {}" "data + len \<noteq> q + 8"
    "unat (data + len) = unat data + unat len"
proof -
  have nz: "len \<noteq> 0" using big by auto
  note a = al [unfolded allocated_from_def]
  have r: "unat len \<le> unat (memblock_round len)" using a by blast
  then show e: "unat (data + len) = unat data + unat len" using a by (auto intro!: unat_add64)
  show dj: "live_range (data, len) \<inter> live_range (q, 56) = {}"
    using allocated_fromD(2) [OF al nz] allocated_fromD(1) [OF de] by auto
  show "data + len \<noteq> q + 8"
  proof
    assume "data + len = q + 8"
    then have "unat q = unat data + unat len - 8" using e malloc_autosized(2) [OF de] by simp
    then have "unat q \<in> live_range (data, len)" using r big by (auto simp: live_range.simps)
    moreover have "unat q \<in> live_range (q, 56)" by (simp add: live_range.simps memblock_round_unat)
    ultimately show False using dj by blast
  qed
qed

lemma alloc_detached:
  assumes k: "k = iob_align_log2 align" "k < 64" and big: "\<not> unat len + 55 \<le> 2 ^ k"
    and al: "allocated_from data len (2 ^ k) offset h h1"
    and de: "allocated_from q (48 + 8) 1 0 h1 h2"
  shows "iob_fresh len align offset h \<lparr>iob_self = q + 8, iob_head = data, iob_data = data,
    iob_tail = data, iob_end = data + len\<rparr> (h2\<lparr>mem := store64 (mem h1) q (48 + 8)\<rparr>)"
proof -
  have "64 \<le> (2 :: nat) ^ k" using iob_align(2) [of align] k by simp
  then have big': "9 < unat len" using big by linarith
  then have nz: "len \<noteq> 0" by auto
  have nz2: "(48 + 8 :: u64) \<noteq> 0" by simp
  note d = allocated_fromD [OF al nz] and d2 = allocated_fromD [OF de nz2]
  note a = al [unfolded allocated_from_def] and m = malloc_autosized [OF de]
  note dj = detached_apart(1) [OF big' al de] and ni = detached_apart(2) [OF big' al de]
    and e = detached_apart(3) [OF big' al de]
  have fr: "freeable data len h2"
    by (rule freeable_mono [OF d(4)]) (use d2(2) freeable_disjoint [OF d(4)] in blast)
  have st: "store64 (mem h1) q 56 b = mem h1 b" if "unat b \<notin> live_range (q, 56)" for b
  proof (rule store64_other)
    show "unat q + 8 \<le> unat b \<or> unat b < unat q"
      using that by (auto simp: live_range.simps memblock_round_unat)
    show "unat q + 8 < 18446744073709551616"
      using de by (simp add: allocated_from_def memblock_round_unat)
  qed
  show ?thesis
    using d d2 a e ni dj fr m(1) st
    by (auto simp: iob_fresh_def iob_ok_def iob_inline_def iob_ordered_def iob_size_def iob_live_def
        word_le_nat_alt k(1) freeable_def)
qed

definition iob_alloc_outcome ::
  "u64 \<Rightarrow> u64 \<Rightarrow> u64 \<Rightarrow> 'a heap_state_scheme \<Rightarrow> (io_buffer option \<times> 'a heap_state_scheme) option \<Rightarrow> bool" where
  "iob_alloc_outcome len align offset h r \<longleftrightarrow>
     (\<exists>h'. r = Some (None, h') \<and> blocks_wf (free_blocks h') \<and>
        free_range (free_blocks h') \<subseteq> free_range (free_blocks h) \<and> mem h' = mem h \<and>
        assertion_failures h' = assertion_failures h) \<or>
     (\<exists>iob h'. r = Some (Some iob, h') \<and> iob_fresh len align offset h iob h')"

lemma alloc_iob_raw_inline:
  assumes wf: "blocks_wf (free_blocks h)" and k: "k = iob_align_log2 align" "k < 64"
    and fit: "unat len + 55 \<le> 2 ^ k"
  shows "iob_alloc_outcome len align offset h (alloc_iob_raw [] len align offset h)"
proof -
  define len' where "len' = len + ((- len - offset) AND 7)"
  note nz = inline_len(3) [OF k(2) fit len'_def]
  consider "alloc_memblock [] (len' + 48) (2 ^ k) offset h = Some (0, h)"
    | p h' where "alloc_memblock [] (len' + 48) (2 ^ k) offset h = Some (p, h')"
        "allocated_from p (len' + 48) (2 ^ k) offset h h'"
    using alloc_no_cache_cases [OF wf nz refl k(2), of offset] by auto
  then show ?thesis
  proof cases
    case 1
    then show ?thesis using wf k fit
      by (simp add: iob_alloc_outcome_def alloc_iob_raw_unfold Let_def len'_def [symmetric])
  next
    case (2 p h')
    then have "p \<noteq> 0" by (simp add: allocated_from_def)
    then show ?thesis using 2(1) k fit alloc_inline [OF k fit len'_def 2(2)]
      by (simp add: iob_alloc_outcome_def alloc_iob_raw_unfold Let_def len'_def [symmetric])
  qed
qed

lemma alloc_iob_raw_detached:
  assumes wf: "blocks_wf (free_blocks h)" and k: "k = iob_align_log2 align" "k < 64"
    and big: "\<not> unat len + 55 \<le> 2 ^ k" and p: "p \<noteq> 0" "len \<noteq> 0"
    and al: "alloc_memblock [] len (2 ^ k) offset h = Some (p, h1)"
      "allocated_from p len (2 ^ k) offset h h1"
  shows "iob_alloc_outcome len align offset h (alloc_iob_raw [] len align offset h)"
proof -
  note d = allocated_fromD [OF al(2) p(2)]
  consider "malloc [] 48 h1 = Some (0, h1)"
    | q h2 where "allocated_from q (48 + 8) 1 0 h1 h2"
        "malloc [] 48 h1 = Some (q + 8, h2\<lparr>mem := store64 (mem h1) q (48 + 8)\<rparr>)"
    using malloc_cases [OF d(3), of 48] by auto
  then show ?thesis
  proof cases
    case 1
    obtain bl where "free_memblock p len h1 = Some (h1\<lparr>free_blocks := bl,
        freemem := freemem h1 + memblock_round len, usedmem := usedmem h1 - memblock_round len\<rparr>)"
      "blocks_wf bl"
      "free_range bl = {unat p ..< unat p + unat (memblock_round len)} \<union> free_range (free_blocks h1)"
      using free_memblock_spec [OF d(3,4)] .
    moreover then have "free_range bl \<subseteq> free_range (free_blocks h)"
      using d(1,2) by (auto simp: live_range.simps)
    ultimately show ?thesis using al(1) k big p 1 d(7,8)
      by (simp add: iob_alloc_outcome_def alloc_iob_raw_unfold Let_def)
  next
    case (2 q h2)
    have "q + 8 \<noteq> 0" using malloc_autosized(2) [OF 2(1)] by auto
    then show ?thesis using al(1) k big p 2(2) alloc_detached [OF k big al(2) 2(1)]
      by (simp add: iob_alloc_outcome_def alloc_iob_raw_unfold Let_def)
  qed
qed

lemma alloc_iob_raw_outcome:
  assumes wf: "blocks_wf (free_blocks h)"
  shows "iob_alloc_outcome len align offset h (alloc_iob_raw [] len align offset h)"
proof (cases "iob_align_log2 align < 64")
  case False
  then show ?thesis using wf by (simp add: iob_alloc_outcome_def alloc_iob_raw_unfold)
next
  case k: True
  show ?thesis
  proof (cases "unat len + 55 \<le> 2 ^ iob_align_log2 align")
    case True
    then show ?thesis by (rule alloc_iob_raw_inline [OF wf refl k])
  next
    case big: False
    have nz: "len \<noteq> 0" using big iob_align(2) [OF k] by auto
    consider "alloc_memblock [] len (2 ^ iob_align_log2 align) offset h = Some (0, h)"
      | p h1 where "alloc_memblock [] len (2 ^ iob_align_log2 align) offset h = Some (p, h1)"
          "allocated_from p len (2 ^ iob_align_log2 align) offset h h1"
      using alloc_no_cache_cases [OF wf nz refl k, of offset] by auto
    then show ?thesis
    proof cases
      case 1
      then show ?thesis using wf k big by (simp add: iob_alloc_outcome_def alloc_iob_raw_unfold Let_def)
    next
      case 2
      then have "p \<noteq> 0" by (simp add: allocated_from_def)
      then show ?thesis by (rule alloc_iob_raw_detached [OF wf refl k big _ nz 2])
    qed
  qed
qed


lemma demo_iob_alloc: "\<exists>iob h'. alloc_iob_raw [] 8 16 0 demo_heap = Some (Some iob, h')"
proof -
  have k: "iob_align_log2 16 = 6"
    by (simp add: iob_align_log2_def fls.simps [of 54] fls.simps [of 27] fls.simps [of 13] fls.simps [of 6]
        fls.simps [of 3] fls.simps [of "Suc 0"] fls.simps [of 0])
  obtain h' where "alloc_memblock [] 56 64 0 demo_heap = Some (0x1000, h')"
    by (simp add: heap_eval demo_heap_def)
  then have "alloc_iob_raw [] 8 16 0 demo_heap =
      Some (Some \<lparr>iob_self = 0x1008, iob_head = 0x1000, iob_data = 0x1000, iob_tail = 0x1000, iob_end = 0x1008\<rparr>, h')"
    by (simp add: alloc_iob_raw_unfold k Let_def)
  then show ?thesis by blast
qed


section \<open>Releasing a buffer\<close>

lemma word_ordered_diff: "a \<le> b \<Longrightarrow> unat (b - a :: u64) = unat b - unat a"
  by (simp add: unat_sub64 word_le_nat_alt)

lemma free_iob_spec:
  assumes "iob_ok iob h" "blocks_wf (free_blocks h)"
  obtains h' where "free_iob [] (Some iob) h = Some h'" "blocks_wf (free_blocks h')"
    "free_range (free_blocks h') = free_range (free_blocks h) \<union> iob_live iob"
    "mem h' = mem h" "assertion_failures h' = assertion_failures h"
    "freemem h' + usedmem h' = freemem h + usedmem h"
    "usedmem h' = usedmem h - (if iob_inline iob then memblock_round (iob_size iob + 48)
       else memblock_round (iob_size iob) + memblock_round 56)"
proof (cases "iob_inline iob")
  case True
  have f: "freeable (iob_head iob) (iob_size iob + 48) h" using assms(1) True by (simp add: iob_ok_def)
  obtain bl where b: "free_memblock (iob_head iob) (iob_size iob + 48) h =
      Some (h\<lparr>free_blocks := bl, freemem := freemem h + memblock_round (iob_size iob + 48),
        usedmem := usedmem h - memblock_round (iob_size iob + 48)\<rparr>)" "blocks_wf bl"
    "free_range bl = {unat (iob_head iob) ..< unat (iob_head iob) + unat (memblock_round (iob_size iob + 48))} \<union>
      free_range (free_blocks h)"
    using free_memblock_spec [OF assms(2) f] .
  show thesis
  proof (rule that)
    show "free_iob [] (Some iob) h =
        Some (h\<lparr>free_blocks := bl, freemem := freemem h + memblock_round (iob_size iob + 48),
          usedmem := usedmem h - memblock_round (iob_size iob + 48)\<rparr>)"
      using assms(1) True b(1)
      by (simp add: free_iob_def iob_ok_def iob_ordered_def iob_inline_def iob_size_def sizeof_io_buffer_def)
  qed (use b True in \<open>auto simp: iob_live_def live_range.simps\<close>)
next
  case False
  have f: "freeable (iob_head iob) (iob_size iob) h" and au: "autosized (iob_self iob) 48 h"
    and dj: "live_range (iob_head iob, iob_size iob) \<inter> live_range (iob_self iob - 8, 56) = {}"
    using assms(1) False by (simp_all add: iob_ok_def)
  obtain bl where b: "free_memblock (iob_head iob) (iob_size iob) h =
      Some (h\<lparr>free_blocks := bl, freemem := freemem h + memblock_round (iob_size iob),
        usedmem := usedmem h - memblock_round (iob_size iob)\<rparr>)" "blocks_wf bl"
    "free_range bl = {unat (iob_head iob) ..< unat (iob_head iob) + unat (memblock_round (iob_size iob))} \<union>
      free_range (free_blocks h)"
    using free_memblock_spec [OF assms(2) f] .
  define h1 where "h1 = h\<lparr>free_blocks := bl, freemem := freemem h + memblock_round (iob_size iob),
        usedmem := usedmem h - memblock_round (iob_size iob)\<rparr>"
  have f2: "freeable (iob_self iob - 8) 56 h1"
  proof (rule freeable_mono)
    show "freeable (iob_self iob - 8) 56 h" using au by (simp add: autosized_def)
    then show "live_range (iob_self iob - 8, 56) \<inter> free_range (free_blocks h1) = {}"
      using b(3) dj freeable_disjoint [of "iob_self iob - 8" 56 h] by (auto simp: h1_def live_range.simps)
  qed
  then have au1: "autosized (iob_self iob) 48 h1" using au by (simp add: autosized_def h1_def)
  have w1: "blocks_wf (free_blocks h1)" using b(2) by (simp add: h1_def)
  obtain bl2 where c: "free_memblock (iob_self iob - 8) 56 h1 =
      Some (h1\<lparr>free_blocks := bl2, freemem := freemem h1 + memblock_round 56,
        usedmem := usedmem h1 - memblock_round 56\<rparr>)" "blocks_wf bl2"
    "free_range bl2 = {unat (iob_self iob - 8) ..< unat (iob_self iob - 8) + unat (memblock_round 56)} \<union>
      free_range (free_blocks h1)"
    using free_memblock_spec [OF w1 f2] .
  show thesis
  proof (rule that)
    show "free_iob [] (Some iob) h = Some (h1\<lparr>free_blocks := bl2, freemem := freemem h1 + memblock_round 56,
        usedmem := usedmem h1 - memblock_round 56\<rparr>)"
      using assms(1) False b(1) c(1) free_autosized [OF au1 w1]
      by (simp add: free_iob_def iob_ok_def iob_ordered_def iob_inline_def iob_size_def sizeof_io_buffer_def h1_def)
  qed (use b(3) c False in \<open>auto simp: iob_live_def live_range.simps h1_def\<close>)
qed

section \<open>No memory is lost\<close>

lemma split_block_aligned:
  assumes "block_ok b" "unat pre + unat n \<le> unat (mb_size b)" "0 < unat n"
    "unat (mb_addr b) mod 32 = 0" "unat (mb_size b) mod 32 = 0" "unat pre mod 32 = 0" "unat n mod 32 = 0"
  shows "blocks_aligned (split_block n pre b)"
proof -
  have p1: "unat (mb_addr b + pre) = unat (mb_addr b) + unat pre" using split_block_spec(3) [OF assms(1-3)] .
  have p2: "unat (mb_addr b + pre + n) = unat (mb_addr b) + unat pre + unat n"
    using assms(1,2) p1 by (subst unat_add64) (auto simp: block_ok_def blk_end_def)
  have s: "unat (mb_size b - pre - n) = unat (mb_size b) - unat pre - unat n"
    using assms(2) by (simp add: unat_sub64)
  have "(unat (mb_size b) - unat pre - unat n) mod 32 = 0"
    using assms(2,5-7) by (metis dvd_diff_nat mod_0_imp_dvd dvd_imp_mod_0)
  then show ?thesis using assms p2 s by (auto simp: split_block_def blocks_aligned_def mod_add_eq)
qed

lemma alloc_scan_aligned:
  assumes "blocks_wf bl" "blocks_aligned bl" "0 < unat n" "unat n mod 32 = 0" "5 \<le> k" "unat off mod 32 = 0"
    "alloc_scan n (mask k) off bl = Some (p, bl')"
  shows "blocks_aligned bl'"
proof -
  obtain xs b ys where b: "bl = xs @ b # ys" "block_fits n (mask k) off b"
    "bl' = xs @ split_block n ((off - mb_addr b) AND mask k) b @ ys"
    using alloc_scan_SomeD [OF assms(7)] by metis
  have "block_ok b" "unat (mb_addr b) mod 32 = 0" "unat (mb_size b) mod 32 = 0"
    using assms(1,2) b(1) by (auto simp: blocks_wf_def blocks_aligned_def)
  then have "blocks_aligned (split_block n ((off - mb_addr b) AND mask k) b)"
    using b(2) assms(3,4) pre_size_mod32 [OF _ assms(6,5)] by (intro split_block_aligned) (auto simp: block_fits_def)
  then show ?thesis using assms(2) b(1,3) by (auto simp: blocks_aligned_def)
qed

lemma alloc_exact:
  assumes "blocks_wf (free_blocks h)" "blocks_aligned (free_blocks h)" "sz \<noteq> 0" "k < 64" "unat off mod 32 = 0"
    "alloc_memblock [] sz (2 ^ k) off h = Some (p, h')" "p \<noteq> 0"
  shows "free_range (free_blocks h') \<union> live_range (p, sz) = free_range (free_blocks h)"
    "blocks_aligned (free_blocks h')"
proof -
  obtain bl where sc: "alloc_scan (memblock_round sz) (mask (max k 5)) off (free_blocks h) = Some (p, bl)"
    and n: "memblock_round sz \<noteq> 0" and h': "h' = alloc_effect (memblock_round sz) bl h"
    using alloc_no_cache_cases [OF assms(1,3) refl assms(4), of off] assms(6,7) by auto
  have m: "0 < unat (memblock_round sz)" "unat (memblock_round sz) mod 32 = 0"
    using n memblock_round_mod32 by (simp_all add: unat_gt_0)
  show "free_range (free_blocks h') \<union> live_range (p, sz) = free_range (free_blocks h)"
    using alloc_scan_no_leak [OF assms(1,2) m _ assms(5) sc] by (simp add: h' alloc_effect_def live_range.simps)
  show "blocks_aligned (free_blocks h')"
    using alloc_scan_aligned [OF assms(1,2) m _ assms(5) sc] by (simp add: h' alloc_effect_def)
qed

lemma alloc_iob_raw_SomeE:
  assumes "alloc_iob_raw ds len align offset h = Some (Some iob, h')"
  obtains (inline) k data len' where "k < 64" "k = iob_align_log2 align" "unat len + 55 \<le> 2 ^ k"
      "len' = len + ((- len - offset) AND 7)"
      "alloc_memblock ds (len' + 48) (2 ^ k) offset h = Some (data, h')" "data \<noteq> 0"
      "iob = \<lparr>iob_self = data + len', iob_head = data, iob_data = data, iob_tail = data, iob_end = data + len'\<rparr>"
  | (detached) k data h1 iobuf where "k < 64" "k = iob_align_log2 align" "\<not> unat len + 55 \<le> 2 ^ k"
      "alloc_memblock ds len (2 ^ k) offset h = Some (data, h1)" "data \<noteq> 0"
      "malloc ds 48 h1 = Some (iobuf, h')" "iobuf \<noteq> 0"
      "iob = \<lparr>iob_self = iobuf, iob_head = data, iob_data = data, iob_tail = data, iob_end = data + len\<rparr>"
proof (cases "unat len + 55 \<le> 2 ^ iob_align_log2 align")
  case True
  then show thesis using assms
    by (auto simp: alloc_iob_raw_unfold Let_def split: if_splits option.splits simp: not_le intro!: inline [OF _ refl _ refl])
next
  case False
  then obtain data h1 iobuf where "iob_align_log2 align < 64"
      "alloc_memblock ds len (2 ^ iob_align_log2 align) offset h = Some (data, h1)" "data \<noteq> 0"
      "malloc ds 48 h1 = Some (iobuf, h')" "iobuf \<noteq> 0"
      "iob = \<lparr>iob_self = iobuf, iob_head = data, iob_data = data, iob_tail = data, iob_end = data + len\<rparr>"
    using assms by (auto simp: alloc_iob_raw_unfold Let_def not_le split: if_splits option.splits)
  then show thesis using False by (intro detached [OF _ refl])
qed

lemma alloc_iob_raw_exact:
  assumes wf: "blocks_wf (free_blocks h)" and al: "blocks_aligned (free_blocks h)"
    and off: "unat offset mod 32 = 0" and a: "alloc_iob_raw [] len align offset h = Some (Some iob, h')"
  shows "free_range (free_blocks h') \<union> iob_live iob = free_range (free_blocks h) \<and>
    freemem h' + usedmem h' = freemem h + usedmem h \<and>
    usedmem h' = usedmem h + (if iob_inline iob then memblock_round (iob_size iob + 48)
       else memblock_round (iob_size iob) + memblock_round 56)"
  using a
proof (cases rule: alloc_iob_raw_SomeE)
  case (inline k data len')
  note nz = inline_len(3) [OF inline(1,3,4)]
  have "allocated_from data (len' + 48) (2 ^ k) offset h h'"
    using alloc_no_cache_cases [OF wf nz refl inline(1), of offset] inline(5,6) by auto
  note d = allocated_fromD [OF this nz]
  have "iob_inline iob" "iob_live iob = live_range (data, len' + 48)" "iob_size iob = len'"
    using inline(7) by (simp_all add: iob_inline_def iob_live_def iob_size_def)
  then show ?thesis
    using alloc_exact(1) [OF wf al nz inline(1) off inline(5,6)] d(5,6) by simp
next
  case (detached k data h1 iobuf)
  have nz: "len \<noteq> 0" using detached(3) iob_align(2) [of align] detached(1,2) by auto
  have da: "allocated_from data len (2 ^ k) offset h h1"
    using alloc_no_cache_cases [OF wf nz refl detached(1), of offset] detached(4,5) by auto
  note d = allocated_fromD [OF this nz] and e = alloc_exact [OF wf al nz detached(1) off detached(4,5)]
  obtain q h2 where q: "allocated_from q (48 + 8) 1 0 h1 h2" "iobuf = q + 8"
      "h' = h2\<lparr>mem := store64 (mem h1) q (48 + 8)\<rparr>" "alloc_memblock [] (48 + 8) (2 ^ 0) 0 h1 = Some (q, h2)"
    using malloc_cases [OF d(3), of 48] detached(6,7) by auto
  have qz: "q \<noteq> 0" using q(1) by (simp add: allocated_from_def)
  have big: "9 < unat len" using detached(3) iob_align(2) [of align] detached(1,2) by simp
  have "\<not> iob_inline iob"
    using detached_apart(2) [OF big da q(1)] detached(8) q(2) by (simp add: iob_inline_def)
  then have live: "iob_live iob = live_range (data, len) \<union> live_range (q, 56)" "iob_size iob = len"
      "\<not> iob_inline iob"
    using detached(8) q(2) by (simp_all add: iob_live_def iob_size_def)
  have d2: "free_range (free_blocks h2) \<union> live_range (q, 56) = free_range (free_blocks h1)"
    using alloc_exact(1) [OF d(3) e(2) _ _ _ q(4) qz] by simp
  have u: "usedmem h2 = usedmem h1 + memblock_round 56" "freemem h2 = freemem h1 - memblock_round 56"
    using allocated_fromD(5,6) [OF q(1)] by simp_all
  show ?thesis using live e(1) d2 u d(5,6) q(3) by (auto simp: algebra_simps)
qed


section \<open>Contents\<close>

definition iob_bytes :: "'a heap_state_scheme \<Rightarrow> io_buffer \<Rightarrow> bytes" where
  "iob_bytes h iob = map (\<lambda>k. mem h (iob_data iob + of_nat k)) [0..<unat (iob_len iob)]"

lemma iob_ok_bounds:
  assumes "iob_ok iob h"
  shows "unat (iob_head iob) \<le> unat (iob_data iob)" "unat (iob_data iob) \<le> unat (iob_tail iob)"
    "unat (iob_tail iob) \<le> unat (iob_end iob)" "unat (iob_end iob) < addr_limit"
    "unat (iob_len iob) = unat (iob_tail iob) - unat (iob_data iob)"
    "unat (iob_size iob) = unat (iob_end iob) - unat (iob_head iob)"
    "{unat (iob_head iob) ..< unat (iob_end iob)} \<subseteq> iob_live iob"
    "iob_live iob \<inter> free_range (free_blocks h) = {}"
proof -
  have o: "iob_head iob \<le> iob_data iob" "iob_data iob \<le> iob_tail iob" "iob_tail iob \<le> iob_end iob"
    using assms by (simp_all add: iob_ok_def iob_ordered_def)
  then show b: "unat (iob_head iob) \<le> unat (iob_data iob)" "unat (iob_data iob) \<le> unat (iob_tail iob)"
    "unat (iob_tail iob) \<le> unat (iob_end iob)" by (simp_all add: word_le_nat_alt)
  show "unat (iob_len iob) = unat (iob_tail iob) - unat (iob_data iob)"
    using o by (simp add: iob_len_def word_ordered_diff)
  show s: "unat (iob_size iob) = unat (iob_end iob) - unat (iob_head iob)"
    using o by (simp add: iob_size_def word_ordered_diff)
  have "unat (iob_end iob) < addr_limit \<and> {unat (iob_head iob) ..< unat (iob_end iob)} \<subseteq> iob_live iob \<and>
    iob_live iob \<inter> free_range (free_blocks h) = {}"
  proof (cases "iob_inline iob")
    case True
    then have f: "freeable (iob_head iob) (iob_size iob + 48) h" "unat (iob_size iob) < addr_limit"
      using assms by (simp_all add: iob_ok_def)
    have z: "unat (iob_size iob + 48) = unat (iob_size iob) + 48" using f(2) by (simp add: unat_add64)
    moreover have "unat (iob_size iob + 48) \<le> unat (memblock_round (iob_size iob + 48))"
      using f(1) by (intro memblock_round_ge) (simp add: freeable_def)
    ultimately show ?thesis using True f(1) s b by (auto simp: iob_live_def live_range.simps freeable_def)
  next
    case False
    then have f: "freeable (iob_head iob) (iob_size iob) h" "freeable (iob_self iob - 8) 56 h"
      using assms by (simp_all add: iob_ok_def autosized_def)
    have "unat (iob_size iob) \<le> unat (memblock_round (iob_size iob))"
      using f(1) by (intro memblock_round_ge) (simp add: freeable_def)
    then show ?thesis using False f s b by (auto simp: iob_live_def live_range.simps freeable_def)
  qed
  then show "unat (iob_end iob) < addr_limit" "{unat (iob_head iob) ..< unat (iob_end iob)} \<subseteq> iob_live iob"
    "iob_live iob \<inter> free_range (free_blocks h) = {}" by simp_all
qed

lemma iob_ok_mono:
  assumes "iob_ok iob h" "iob_live iob \<inter> free_range (free_blocks h') = {}"
    "\<And>a. unat a \<in> iob_live iob - {unat (iob_head iob) ..< unat (iob_end iob)} \<Longrightarrow> mem h' a = mem h a"
  shows "iob_ok iob h'"
proof (cases "iob_inline iob")
  case True
  then show ?thesis using assms(1,2) freeable_mono [of "iob_head iob" "iob_size iob + 48" h h']
    by (simp add: iob_ok_def iob_live_def)
next
  case False
  have au: "autosized (iob_self iob) 48 h"
    and dj: "live_range (iob_head iob, iob_size iob) \<inter> live_range (iob_self iob - 8, 56) = {}"
    and fh: "freeable (iob_head iob) (iob_size iob) h"
    using assms(1) False by (simp_all add: iob_ok_def)
  have "unat (iob_size iob) \<le> unat (memblock_round (iob_size iob))"
    using fh by (intro memblock_round_ge) (simp add: freeable_def)
  then have sub: "{unat (iob_head iob) ..< unat (iob_end iob)} \<subseteq> live_range (iob_head iob, iob_size iob)"
    using iob_ok_bounds(1-3,6) [OF assms(1)] by (auto simp: live_range.simps)
  have "load64 (mem h') (iob_self iob - 8) = load64 (mem h) (iob_self iob - 8)"
  proof (rule load64_cong)
    fix k :: nat assume k: "k < 8"
    have "unat (iob_self iob - 8 + of_nat k) = unat (iob_self iob - 8) + k"
      using autosizedD(1,5) [OF au] k by (intro unat_add_nat64) linarith
    then have "unat (iob_self iob - 8 + of_nat k) \<in> live_range (iob_self iob - 8, 56)"
      using k by (simp add: live_range.simps memblock_round_unat)
    then show "mem h' (iob_self iob - 8 + of_nat k) = mem h (iob_self iob - 8 + of_nat k)"
      using dj sub False by (intro assms(3)) (auto simp: iob_live_def)
  qed
  moreover have "freeable (iob_head iob) (iob_size iob) h'" "freeable (iob_self iob - 8) 56 h'"
    using assms(2) False fh au by (auto simp: iob_live_def autosized_def intro!: freeable_mono [of _ _ h h'])
  ultimately show ?thesis using assms(1) False au by (simp add: iob_ok_def autosized_def)
qed

lemma iob_bytes_cong:
  assumes "iob_ok iob h" "\<And>a. unat (iob_data iob) \<le> unat a \<Longrightarrow> unat a < unat (iob_tail iob) \<Longrightarrow> mem h' a = mem h a"
  shows "iob_bytes h' iob = iob_bytes h iob"
proof -
  note b = iob_ok_bounds [OF assms(1)]
  show ?thesis unfolding iob_bytes_def
  proof (rule map_cong [OF refl])
    fix k assume "k \<in> set [0..<unat (iob_len iob)]"
    then have k: "k < unat (iob_tail iob) - unat (iob_data iob)" using b(5) by simp
    then have "unat (iob_data iob + of_nat k) = unat (iob_data iob) + k"
      using b by (intro unat_add_nat64) linarith
    then show "mem h' (iob_data iob + of_nat k) = mem h (iob_data iob + of_nat k)"
      using k by (intro assms(2)) linarith+
  qed
qed

text \<open>Appending \<open>len\<close> bytes from \<open>src\<close> to a buffer that has room for them.\<close>

lemma put_copy:
  assumes ok: "iob_ok iob h" and room: "unat (iob_tail iob) + unat len \<le> unat (iob_end iob)"
    and src: "{unat src ..< unat src + unat len} \<inter> iob_live iob = {}" "unat src + unat len < addr_limit"
    and put: "iob_put len (iob, h) = (dest, iob', h1)"
  defines "h2 \<equiv> h1\<lparr>mem := memcpy (mem h1) dest src len\<rparr>"
  shows "iob_ok iob' h2" "iob_bytes h2 iob' = iob_bytes h iob @ map (\<lambda>k. mem h (src + of_nat k)) [0..<unat len]"
    "\<And>a. unat a \<notin> iob_live iob \<Longrightarrow> mem h2 a = mem h a" "h1 = h" "iob_live iob' = iob_live iob"
    "iob_tail iob' = iob_tail iob + len" "iob_end iob' = iob_end iob"
proof -
  note b = iob_ok_bounds [OF ok]
  have t: "unat (iob_tail iob + len) = unat (iob_tail iob) + unat len"
    using room b(4) by (intro unat_add64) linarith
  have p: "iob' = iob\<lparr>iob_tail := iob_tail iob + len\<rparr>" "dest = iob_tail iob" and h1: "h1 = h"
    using put room t by (auto simp: iob_put_def Let_def word_le_nat_alt)
  then show "h1 = h" "iob_tail iob' = iob_tail iob + len" "iob_end iob' = iob_end iob" by simp_all
  show live: "iob_live iob' = iob_live iob" by (simp add: p iob_live_def iob_inline_def iob_size_def)
  have wr: "unat dest + unat len < 18446744073709551616" using p room b(4) by simp
  have out: "mem h2 a = mem h a" if "unat a < unat (iob_tail iob) \<or> unat (iob_tail iob) + unat len \<le> unat a" for a :: u64
    using that wr p h1 by (simp add: h2_def memcpy_out)
  show "mem h2 a = mem h a" if "unat a \<notin> iob_live iob" for a :: u64
  proof (rule out)
    have "\<not> (unat (iob_head iob) \<le> unat a \<and> unat a < unat (iob_end iob))" using that b(7) by auto
    then show "unat a < unat (iob_tail iob) \<or> unat (iob_tail iob) + unat len \<le> unat a"
      using b(1,2) room by linarith
  qed
  have same: "iob_inline iob' = iob_inline iob" "iob_size iob' = iob_size iob" "iob_self iob' = iob_self iob"
      "iob_head iob' = iob_head iob" by (simp_all add: p iob_inline_def iob_size_def)
  have "iob_ordered iob'" using t room b by (simp add: p iob_ordered_def word_le_nat_alt)
  then have ord: "iob_ok iob' h" using ok by (simp add: iob_ok_def same)
  show "iob_ok iob' h2"
  proof (rule iob_ok_mono [OF ord])
    show "iob_live iob' \<inter> free_range (free_blocks h2) = {}" using b(8) live h1 by (simp add: h2_def)
    fix a :: u64 assume "unat a \<in> iob_live iob' - {unat (iob_head iob') ..< unat (iob_end iob')}"
    then show "mem h2 a = mem h a" using b room by (intro out) (auto simp: p)
  qed
  have l: "unat (iob_len iob') = unat (iob_len iob) + unat len"
    using iob_ok_bounds(5) [OF ord] b t by (simp add: p)
  show "iob_bytes h2 iob' = iob_bytes h iob @ map (\<lambda>k. mem h (src + of_nat k)) [0..<unat len]"
  proof (rule nth_equalityI)
    show "length (iob_bytes h2 iob') = length (iob_bytes h iob @ map (\<lambda>k. mem h (src + of_nat k)) [0..<unat len])"
      using l by (simp add: iob_bytes_def)
    fix i assume "i < length (iob_bytes h2 iob')"
    then have i: "i < unat (iob_len iob) + unat len" using l by (simp add: iob_bytes_def)
    show "iob_bytes h2 iob' ! i = (iob_bytes h iob @ map (\<lambda>k. mem h (src + of_nat k)) [0..<unat len]) ! i"
    proof (cases "i < unat (iob_len iob)")
      case True
      then have "unat (iob_data iob + of_nat i) = unat (iob_data iob) + i"
        using b by (intro unat_add_nat64) linarith
      then have "mem h2 (iob_data iob + of_nat i) = mem h (iob_data iob + of_nat i)"
        using True b(5) by (intro out) linarith
      then show ?thesis using True i l by (simp add: iob_bytes_def nth_append p)
    next
      case False
      define j where "j = i - unat (iob_len iob)"
      have j: "j < unat len" "i = unat (iob_len iob) + j" using False i by (simp_all add: j_def)
      have "iob_data iob + of_nat i = dest + of_nat j"
        using j(2) p(2) by (simp add: iob_len_def algebra_simps)
      then have "mem h2 (iob_data iob + of_nat i) = mem h (src + of_nat j)"
        using memcpy_in [OF j(1) wr, of "mem h" src] h1 by (simp add: h2_def)
      then show ?thesis using j i l by (simp add: iob_bytes_def nth_append p)
    qed
  qed
qed

lemma fresh_iob_bytes: "iob_fresh len align offset h iob h' \<Longrightarrow> iob_bytes h' iob = []"
  by (simp add: iob_fresh_def iob_bytes_def iob_len_def)

text \<open>A buffer that is live before an allocation is untouched by it and apart from the new one.\<close>

lemma iob_ok_fresh:
  assumes ok: "iob_ok iob h" and fr: "iob_fresh len align offset h new h'"
  shows "iob_ok iob h'" "iob_bytes h' iob = iob_bytes h iob" "iob_live iob \<inter> iob_live new = {}"
proof -
  note b = iob_ok_bounds [OF ok] and f = fr [unfolded iob_fresh_def]
  show dj: "iob_live iob \<inter> iob_live new = {}" using b(8) f by blast
  have m: "mem h' a = mem h a" if "unat a \<in> iob_live iob" for a :: u64 using that dj f by blast
  show "iob_ok iob h'"
    using b(8) f m by (intro iob_ok_mono [OF ok]) auto
  show "iob_bytes h' iob = iob_bytes h iob"
    using b(1,3,7) by (intro iob_bytes_cong [OF ok] m) auto
qed

lemma iob_pull_ok:
  assumes ok: "iob_ok iob h" and len: "len \<le> iob_len iob" and pull: "iob_pull len (iob, h) = (iob', h')"
  shows "iob_ok iob' h'" "iob_bytes h' iob' = drop (unat len) (iob_bytes h iob)" "h' = h"
    "iob_live iob' = iob_live iob"
proof -
  note b = iob_ok_bounds [OF ok]
  have l: "unat len \<le> unat (iob_tail iob) - unat (iob_data iob)" using len b(5) by (simp add: word_le_nat_alt)
  have d: "unat (iob_data iob + len) = unat (iob_data iob) + unat len" using l b by (intro unat_add64) linarith
  have le: "iob_data iob + len \<le> iob_tail iob" using l b d unfolding word_le_nat_alt by linarith
  then show h: "h' = h" using pull by (auto simp: iob_pull_def Let_def)
  have p: "iob' = iob\<lparr>iob_data := iob_data iob + len\<rparr>" using pull by (simp add: iob_pull_def Let_def)
  have same: "iob_inline iob' = iob_inline iob" "iob_size iob' = iob_size iob" "iob_self iob' = iob_self iob"
      "iob_head iob' = iob_head iob" by (simp_all add: p iob_inline_def iob_size_def)
  then show "iob_live iob' = iob_live iob" by (simp add: iob_live_def)
  have "iob_ordered iob'" using le d b unfolding p iob_ordered_def word_le_nat_alt by simp
  then show ok': "iob_ok iob' h'" using ok by (simp add: iob_ok_def same h)
  have dp: "iob_data iob' = iob_data iob + len" by (simp add: p)
  have ll: "unat (iob_len iob') = unat (iob_len iob) - unat len"
    using iob_ok_bounds(5) [OF ok'] b(5) d by (simp add: p)
  show "iob_bytes h' iob' = drop (unat len) (iob_bytes h iob)"
  proof (rule nth_equalityI)
    show "length (iob_bytes h' iob') = length (drop (unat len) (iob_bytes h iob))"
      by (simp add: iob_bytes_def ll)
    fix i assume "i < length (iob_bytes h' iob')"
    then have "i < unat (iob_len iob) - unat len" by (simp add: iob_bytes_def ll)
    moreover then have "unat len + i < unat (iob_len iob)" by linarith
    ultimately show "iob_bytes h' iob' ! i = drop (unat len) (iob_bytes h iob) ! i"
      by (simp add: iob_bytes_def ll dp h add.assoc)
  qed
qed

text \<open>
  C29. Splitting a buffer.  \<open>iob_split\<close> moves the first bytes of a buffer into a new one: the
  contents of the two, one after the other, are the contents of the old buffer, both own
  their memory and share none of it.  When the allocation fails the buffer is unmodified.
\<close>

theorem iob_split_correct:
  assumes wf: "blocks_wf (free_blocks h)" and ok: "iob_ok iob h" and len: "len \<le> iob_len iob"
  shows "\<exists>r iob' h'. iob_split [] iob len h = Some (r, iob', h') \<and> iob_ok iob' h' \<and>
    blocks_wf (free_blocks h') \<and> assertion_failures h' = assertion_failures h \<and>
    (case r of
       None \<Rightarrow> iob' = iob \<and> iob_bytes h' iob' = iob_bytes h iob
     | Some new \<Rightarrow> iob_ok new h' \<and> iob_live new \<inter> iob_live iob' = {} \<and>
         iob_bytes h' new = take (unat len) (iob_bytes h iob) \<and>
         iob_bytes h' iob' = drop (unat len) (iob_bytes h iob))"
proof -
  note b = iob_ok_bounds [OF ok]
  define L where "L = (if len < IOB_ZLEN then IOB_ZLEN else len)"
  have L: "unat len \<le> unat L" by (simp add: L_def word_less_nat_alt)
  have al: "alloc_iob [] len h = alloc_iob_raw [] L L 0 h" by (simp add: alloc_iob_def L_def)
  have l: "unat len \<le> unat (iob_tail iob) - unat (iob_data iob)" using len b(5) by (simp add: word_le_nat_alt)
  consider h' where "alloc_iob_raw [] L L 0 h = Some (None, h')" "blocks_wf (free_blocks h')"
      "free_range (free_blocks h') \<subseteq> free_range (free_blocks h)" "mem h' = mem h"
      "assertion_failures h' = assertion_failures h"
    | new h' where "alloc_iob_raw [] L L 0 h = Some (Some new, h')" "iob_fresh L L 0 h new h'"
    using alloc_iob_raw_outcome [OF wf, of L L 0] by (auto simp: iob_alloc_outcome_def)
  then show ?thesis
  proof cases
    case 1
    then have "iob_ok iob h'" using b(8) by (intro iob_ok_mono [OF ok]) auto
    moreover have "iob_bytes h' iob = iob_bytes h iob" using 1(4) by (simp add: iob_bytes_def)
    ultimately show ?thesis using 1 len by (simp add: iob_split_def al)
  next
    case (2 new h1)
    note f = 2(2) [unfolded iob_fresh_def] and o = iob_ok_fresh [OF ok 2(2)]
    have nok: "iob_ok new h1" using f by blast
    note nb = iob_ok_bounds [OF nok]
    obtain dest new' h2 where put: "iob_put len (new, h1) = (dest, new', h2)" by (metis prod_cases3)
    define h3 where "h3 = h2\<lparr>mem := memcpy (mem h2) dest (iob_data iob) len\<rparr>"
    have room: "unat (iob_tail new) + unat len \<le> unat (iob_end new)" using f L nb(1-3,6) by (metis add_le_cancel_left le_add_diff_inverse le_trans)
    have "{unat (iob_data iob) ..< unat (iob_data iob) + unat len} \<subseteq> iob_live iob"
      using b(1,2,3,7) l by (auto simp: subset_iff)
    then have src: "{unat (iob_data iob) ..< unat (iob_data iob) + unat len} \<inter> iob_live new = {}"
      "unat (iob_data iob) + unat len < addr_limit" using o(3) l b by (blast, linarith)
    note p = put_copy [OF nok room src put, folded h3_def]
    have m: "mem h3 a = mem h1 a" if "unat a \<in> iob_live iob" for a :: u64
      using that o(3) p(3) by blast
    have fb: "free_blocks h3 = free_blocks h1" "assertion_failures h3 = assertion_failures h1"
      using p(4) by (simp_all add: h3_def)
    have ok3: "iob_ok iob h3" using iob_ok_bounds(8) [OF o(1)] m fb by (intro iob_ok_mono [OF o(1)]) auto
    have by3: "iob_bytes h3 iob = iob_bytes h iob"
      using b(1,3,7) o(2) by (subst o(2) [symmetric]) (intro iob_bytes_cong [OF o(1)] m, auto)
    obtain iob' h4 where pull: "iob_pull len (iob, h3) = (iob', h4)" by fastforce
    note q = iob_pull_ok [OF ok3 len pull]
    have "iob_bytes h3 new' = map (\<lambda>k. mem h1 (iob_data iob + of_nat k)) [0..<unat len]"
      using p(2) fresh_iob_bytes [OF 2(2)] by simp
    also have "\<dots> = take (unat len) (iob_bytes h1 iob)"
      using l b(5) by (simp add: iob_bytes_def take_map)
    finally have nbts: "iob_bytes h3 new' = take (unat len) (iob_bytes h iob)" using o(2) by simp
    have "iob_split [] iob len h = Some (Some new', iob', h4)"
      using len 2(1) put pull by (simp add: iob_split_def al h3_def)
    then show ?thesis using q p(1,5) nbts by3 o(3) f fb by (auto simp: Int_commute)
  qed
qed

lemma iob_keep:
  assumes ok: "iob_ok iob h" and m: "\<And>a. unat a \<in> iob_live iob \<Longrightarrow> mem h' a = mem h a"
    and f: "iob_live iob \<inter> free_range (free_blocks h') = {}"
  shows "iob_ok iob h'" "iob_bytes h' iob = iob_bytes h iob"
proof -
  show "iob_ok iob h'" using m by (intro iob_ok_mono [OF ok f]) blast
  show "iob_bytes h' iob = iob_bytes h iob"
    using iob_ok_bounds(1,3,7) [OF ok] by (intro iob_bytes_cong [OF ok] m) force
qed

lemma iob_move_one:
  assumes wf: "blocks_wf (free_blocks h)" and c: "iob_ok c h" and b: "iob_ok b h"
    and dj: "iob_live b \<inter> iob_live c = {}"
    and room: "unat (iob_tail c) + unat (iob_len b) \<le> unat (iob_end c)"
    and app: "iob_append (c, h) b = (c', h1)"
  obtains h2 where "free_iob [] (Some b) h1 = Some h2" "iob_ok c' h2"
    "iob_bytes h2 c' = iob_bytes h c @ iob_bytes h b" "blocks_wf (free_blocks h2)"
    "assertion_failures h2 = assertion_failures h"
    "free_range (free_blocks h2) = free_range (free_blocks h) \<union> iob_live b"
    "\<forall>a. unat a \<notin> iob_live c \<longrightarrow> mem h2 a = mem h a"
    "iob_live c' = iob_live c" "unat (iob_tail c') = unat (iob_tail c) + unat (iob_len b)"
    "iob_end c' = iob_end c"
proof -
  note bb = iob_ok_bounds [OF b]
  obtain dest h0 where put: "iob_put (iob_len b) (c, h) = (dest, c', h0)"
    and h1: "h1 = h0\<lparr>mem := memcpy (mem h0) dest (iob_data b) (iob_len b)\<rparr>"
    using app by (auto simp: iob_append_def split: prod.splits)
  have len: "unat (iob_data b) + unat (iob_len b) = unat (iob_tail b)" using bb by linarith
  have src: "{unat (iob_data b) ..< unat (iob_data b) + unat (iob_len b)} \<inter> iob_live c = {}"
    "unat (iob_data b) + unat (iob_len b) < addr_limit"
    using dj bb len by (auto simp: disjoint_iff subset_iff)
  note p = put_copy [OF c room src put, folded h1]
  have fb: "free_blocks h1 = free_blocks h" "assertion_failures h1 = assertion_failures h"
    using p(4) h1 by simp_all
  have bk: "iob_ok b h1"
    using dj p(3) bb(8) fb by (intro iob_keep(1) [OF b]) auto
  obtain h2 where h2: "free_iob [] (Some b) h1 = Some h2" "blocks_wf (free_blocks h2)"
    "free_range (free_blocks h2) = free_range (free_blocks h1) \<union> iob_live b" "mem h2 = mem h1"
    "assertion_failures h2 = assertion_failures h1"
    using free_iob_spec [OF bk] wf fb by metis
  have "iob_live c' \<inter> free_range (free_blocks h2) = {}"
    using iob_ok_bounds(8) [OF c] dj p(5) h2(3) fb by auto
  then have k: "iob_ok c' h2" "iob_bytes h2 c' = iob_bytes h1 c'"
    using iob_keep [OF p(1), of h2] h2(4) by simp_all
  have "unat (iob_tail c') = unat (iob_tail c) + unat (iob_len b)"
    using p(6) room iob_ok_bounds(4) [OF c] by (simp add: unat_add64)
  then show thesis
    using that [OF h2(1) k(1)] k(2) p h2 fb by (simp add: iob_bytes_def)
qed

lemma iob_move_all_correct:
  assumes "blocks_wf (free_blocks h)" "iob_ok c h" "\<forall>b\<in>set l. iob_ok b h \<and> iob_live b \<inter> iob_live c = {}"
    "sorted_wrt (\<lambda>a b. iob_live a \<inter> iob_live b = {}) l"
    "unat (iob_tail c) + sum_list (map (\<lambda>b. unat (iob_len b)) l) \<le> unat (iob_end c)"
  shows "\<exists>c' h'. iob_move_all [] c l h = Some (c', h') \<and> iob_ok c' h' \<and>
    iob_bytes h' c' = iob_bytes h c @ concat (map (iob_bytes h) l) \<and> blocks_wf (free_blocks h') \<and>
    assertion_failures h' = assertion_failures h \<and>
    free_range (free_blocks h') = free_range (free_blocks h) \<union> (\<Union>b\<in>set l. iob_live b)"
  using assms
proof (induction l arbitrary: c h)
  case Nil
  then show ?case by simp
next
  case (Cons b l)
  obtain c1 h1 where app: "iob_append (c, h) b = (c1, h1)" by fastforce
  have ok: "iob_ok b h" "iob_live b \<inter> iob_live c = {}"
    "unat (iob_tail c) + unat (iob_len b) \<le> unat (iob_end c)" using Cons.prems by simp_all
  obtain h2 where h2: "free_iob [] (Some b) h1 = Some h2" "iob_ok c1 h2"
    "iob_bytes h2 c1 = iob_bytes h c @ iob_bytes h b" "blocks_wf (free_blocks h2)"
    "assertion_failures h2 = assertion_failures h"
    "free_range (free_blocks h2) = free_range (free_blocks h) \<union> iob_live b"
    "\<forall>a. unat a \<notin> iob_live c \<longrightarrow> mem h2 a = mem h a"
    "iob_live c1 = iob_live c" "unat (iob_tail c1) = unat (iob_tail c) + unat (iob_len b)"
    "iob_end c1 = iob_end c"
    using iob_move_one [OF Cons.prems(1,2) ok app] .
  have keep: "iob_ok x h2 \<and> iob_bytes h2 x = iob_bytes h x" if "x \<in> set l" for x
  proof -
    have x: "iob_ok x h" "iob_live x \<inter> iob_live c = {}" "iob_live b \<inter> iob_live x = {}"
      using that Cons.prems(3,4) by simp_all
    then show ?thesis
      using iob_keep [OF x(1), of h2] h2(6,7) iob_ok_bounds(8) [OF x(1)] by (auto simp: disjoint_iff)
  qed
  have "concat (map (iob_bytes h2) l) = concat (map (iob_bytes h) l)" using keep by (simp cong: map_cong)
  then show ?case
    using Cons.IH [OF h2(4,2)] keep Cons.prems(3-5) h2 app by (auto simp: Un_assoc)
qed

text \<open>
  C28. Joining buffers.  \<open>iob_concatenate\<close> of a list of buffers gives one buffer whose contents
  are theirs in order, leaves the list empty and frees the memory of the old buffers (a
  single buffer is returned as it is); when the allocation fails the list and the
  contents of the buffers are unmodified.  No assertion fails.
\<close>

theorem iob_concatenate_correct:
  assumes wf: "blocks_wf (free_blocks h)" and ok: "\<forall>b\<in>set l. iob_ok b h"
    and dj: "sorted_wrt (\<lambda>a b. iob_live a \<inter> iob_live b = {}) l"
    and total: "sum_list (map (\<lambda>b. unat (iob_len b)) l) < 18446744073709551616"
  shows "\<exists>r rest h'. iob_concatenate [] l h = Some (r, rest, h') \<and>
    blocks_wf (free_blocks h') \<and> assertion_failures h' = assertion_failures h \<and>
    (case r of
       None \<Rightarrow> rest = l \<and> (\<forall>b\<in>set l. iob_ok b h' \<and> iob_bytes h' b = iob_bytes h b)
     | Some c \<Rightarrow> rest = [] \<and> iob_ok c h' \<and> iob_bytes h' c = concat (map (iob_bytes h) l) \<and>
         (length l \<noteq> 1 \<longrightarrow> (\<Union>b\<in>set l. iob_live b) \<subseteq> free_range (free_blocks h')))"
proof (cases "\<exists>b. l = [b]")
  case True
  then show ?thesis using wf ok by (auto simp: iob_concatenate_def)
next
  case False
  define len where "len = sum_list (map iob_len l)"
  have ul: "unat len = sum_list (map (\<lambda>b. unat (iob_len b)) l)"
    unfolding len_def using total
  proof (induction l)
    case (Cons b l)
    then have "unat (sum_list (map iob_len l)) = sum_list (map (\<lambda>b. unat (iob_len b)) l)" by simp
    then show ?case using Cons.prems by (simp add: unat_add64)
  qed simp
  have con: "iob_concatenate [] l h =
      (case alloc_iob_raw [] len 8 0 h of
         None \<Rightarrow> None
       | Some (None, h) \<Rightarrow> Some (None, l, h)
       | Some (Some c, h) \<Rightarrow> map_option (\<lambda>(c, h). (Some c, [], h)) (iob_move_all [] c l h))"
    using False by (auto simp: iob_concatenate_def len_def alignof_io_buffer_def split: list.splits)
  consider h' where "alloc_iob_raw [] len 8 0 h = Some (None, h')" "blocks_wf (free_blocks h')"
      "free_range (free_blocks h') \<subseteq> free_range (free_blocks h)" "mem h' = mem h"
      "assertion_failures h' = assertion_failures h"
    | c h' where "alloc_iob_raw [] len 8 0 h = Some (Some c, h')" "iob_fresh len 8 0 h c h'"
    using alloc_iob_raw_outcome [OF wf, of len 8 0] by (auto simp: iob_alloc_outcome_def)
  then show ?thesis
  proof cases
    case 1
    have "iob_ok b h' \<and> iob_bytes h' b = iob_bytes h b" if "b \<in> set l" for b
    proof -
      have o: "iob_ok b h" using that ok by blast
      then show ?thesis using iob_keep [OF o, of h'] iob_ok_bounds(8) [OF o] 1(3,4) by auto
    qed
    then show ?thesis using 1 by (simp add: con)
  next
    case (2 c h1)
    note f = 2(2) [unfolded iob_fresh_def]
    have k: "iob_ok b h1 \<and> iob_bytes h1 b = iob_bytes h b \<and> iob_live b \<inter> iob_live c = {}" if "b \<in> set l" for b
      using iob_ok_fresh [OF _ 2(2)] that ok by blast
    have cok: "iob_ok c h1" "iob_tail c = iob_head c" "unat len \<le> unat (iob_size c)" using f by simp_all
    have room: "unat (iob_tail c) + sum_list (map (\<lambda>b. unat (iob_len b)) l) \<le> unat (iob_end c)"
      using arg_cong [OF cok(2), of unat] cok(3) ul iob_ok_bounds(1-3,6) [OF cok(1)] by linarith
    obtain c' h' where c': "iob_move_all [] c l h1 = Some (c', h')" "iob_ok c' h'"
      "iob_bytes h' c' = iob_bytes h1 c @ concat (map (iob_bytes h1) l)" "blocks_wf (free_blocks h')"
      "assertion_failures h' = assertion_failures h1"
      "free_range (free_blocks h') = free_range (free_blocks h1) \<union> (\<Union>b\<in>set l. iob_live b)"
      using iob_move_all_correct [OF _ cok(1) _ dj room] k f by blast
    have "concat (map (iob_bytes h1) l) = concat (map (iob_bytes h) l)" using k by (simp cong: map_cong)
    then have "iob_bytes h' c' = concat (map (iob_bytes h) l)" using c'(3) fresh_iob_bytes [OF 2(2)] by simp
    then show ?thesis using 2(1) c' f by (simp add: con)
  qed
qed

section \<open>Instances\<close>

text \<open>A buffer of sixteen bytes, eight of them in use, with an inline descriptor.\<close>

definition demo_iob :: io_buffer where
  "demo_iob = \<lparr>iob_self = 0x5010, iob_head = 0x5000, iob_data = 0x5000, iob_tail = 0x5008, iob_end = 0x5010\<rparr>"

lemma demo_iob_ok: "iob_ok demo_iob demo_heap" "iob_len demo_iob = 8" "iob_live demo_iob = {0x5000 ..< 0x5040}"
  by (auto simp: demo_iob_def demo_heap_def iob_ok_def iob_ordered_def iob_inline_def iob_size_def
      iob_len_def iob_live_def live_range.simps freeable_def memblock_round_unat free_range_def
      block_range_def blk_end_def word_unat_eq_iff [of "memblock_round 64"])


theorem iob_split_correct_witness:
  "\<exists>r iob' h'. iob_split [] demo_iob 4 demo_heap = Some (r, iob', h') \<and> iob_ok iob' h'"
  using iob_split_correct [OF demo_wf(1) demo_iob_ok(1), of 4] demo_iob_ok(2) by auto

definition demo_iob2 :: io_buffer where
  "demo_iob2 = \<lparr>iob_self = 0x6010, iob_head = 0x6000, iob_data = 0x6000, iob_tail = 0x6008, iob_end = 0x6010\<rparr>"

lemma demo_iob2_ok: "iob_ok demo_iob2 demo_heap" "iob_len demo_iob2 = 8" "iob_live demo_iob2 = {0x6000 ..< 0x6040}"
  by (auto simp: demo_iob2_def demo_heap_def iob_ok_def iob_ordered_def iob_inline_def iob_size_def
      iob_len_def iob_live_def live_range.simps freeable_def memblock_round_unat free_range_def
      block_range_def blk_end_def word_unat_eq_iff [of "memblock_round 64"])

theorem iob_concatenate_correct_witness:
  "\<exists>r rest h'. iob_concatenate [] [demo_iob, demo_iob2] demo_heap = Some (r, rest, h') \<and>
     assertion_failures h' = assertion_failures demo_heap"
  using iob_concatenate_correct [OF demo_wf(1), of "[demo_iob, demo_iob2]"] demo_iob_ok demo_iob2_ok by auto
end
