(* ===== verification/Tcp.thy ===== *)
theory Tcp
  imports Tcpip Retry
begin

text \<open>
  The TCP protocol, \<^verbatim>\<open>net/tcp.c\<close> and \<^verbatim>\<open>include/ipxe/tcp.h\<close>.

  A connection is a record with the fields of \<^verbatim>\<open>struct tcp_connection\<close>.  I/O buffers on its
  queues are their contents; a buffer being built also has its headroom.  The code that TCP
  calls -- the allocator, the network layer, the application behind the data transfer
  interface, the clock -- is the parameter \<open>env\<close>: what it answers may depend on every call
  made so far, which the state records in \<open>trace\<close>, most recent first; the data that the
  application hands over is recorded there too.  An application may
  answer a delivery by sending data or by closing the connection, and the model performs
  these calls where the program would.  An allocation may discard queued data of the
  connections first, as \<open>alloc_memblock\<close> does.  Debug messages and profiling are left out.
\<close>

section \<open>Constants\<close>

definition TCP_ACK :: u8 where "TCP_ACK = 0x10"
definition TCP_PSH :: u8 where "TCP_PSH = 0x08"
definition TCP_RST :: u8 where "TCP_RST = 0x04"
definition TCP_SYN :: u8 where "TCP_SYN = 0x02"
definition TCP_FIN :: u8 where "TCP_FIN = 0x01"

definition TCP_XFER_CLOSED :: u32 where "TCP_XFER_CLOSED = 0x0001"
definition TCP_TS_ENABLED :: u32 where "TCP_TS_ENABLED = 0x0002"
definition TCP_ACK_PENDING :: u32 where "TCP_ACK_PENDING = 0x0004"
definition TCP_SACK_ENABLED :: u32 where "TCP_SACK_ENABLED = 0x0008"

definition TCP_OPTION_END :: u8 where "TCP_OPTION_END = 0"
definition TCP_OPTION_NOP :: u8 where "TCP_OPTION_NOP = 1"
definition TCP_OPTION_MSS :: u8 where "TCP_OPTION_MSS = 2"
definition TCP_OPTION_WS :: u8 where "TCP_OPTION_WS = 3"
definition TCP_OPTION_SACK_PERMITTED :: u8 where "TCP_OPTION_SACK_PERMITTED = 4"
definition TCP_OPTION_SACK :: u8 where "TCP_OPTION_SACK = 5"
definition TCP_OPTION_TS :: u8 where "TCP_OPTION_TS = 8"

definition TCP_RX_WINDOW_SCALE :: u8 where "TCP_RX_WINDOW_SCALE = 9"
definition TCP_SACK_MAX :: nat where "TCP_SACK_MAX = 3"
definition TCP_MASK_HLEN :: u8 where "TCP_MASK_HLEN = 0xf0"
definition TCP_MAX_WINDOW_SIZE :: u32 where "TCP_MAX_WINDOW_SIZE = 256 * 1024"
definition TCP_PATH_MTU :: nat where "TCP_PATH_MTU = 1280 - 40 - 20 - 12"
definition TCP_MSL :: u64 where "TCP_MSL = 2 * 60 * TICKS_PER_SEC"
definition TCP_KEEPALIVE_DELAY :: u64 where "TCP_KEEPALIVE_DELAY = 15 * TICKS_PER_SEC"
definition TCP_FINISH_TIMEOUT :: u64 where "TCP_FINISH_TIMEOUT = 1 * TICKS_PER_SEC"

definition MAX_LL_HEADER_LEN :: nat where "MAX_LL_HEADER_LEN = 64"
definition MAX_NET_HEADER_LEN :: nat where "MAX_NET_HEADER_LEN = 40"
definition MAX_LL_NET_HEADER_LEN :: nat where
  "MAX_LL_NET_HEADER_LEN = MAX_LL_HEADER_LEN + MAX_NET_HEADER_LEN"

text \<open>The sizes of the header and of the MSS, padded window scale and padded timestamp options.\<close>

definition TCP_MAX_HEADER_LEN :: nat where
  "TCP_MAX_HEADER_LEN = MAX_LL_NET_HEADER_LEN + 20 + 4 + 4 + 12"

definition TCP_STATE_SENT :: "u8 \<Rightarrow> u32" where "TCP_STATE_SENT flags = push_bit 0 (ucast flags)"
definition TCP_FLAGS_SENT :: "u32 \<Rightarrow> u8" where "TCP_FLAGS_SENT state = ucast (drop_bit 0 state)"
definition TCP_STATE_ACKED :: "u8 \<Rightarrow> u32" where "TCP_STATE_ACKED flags = push_bit 8 (ucast flags)"
definition TCP_FLAGS_ACKED :: "u32 \<Rightarrow> u8" where "TCP_FLAGS_ACKED state = ucast (drop_bit 8 state)"
definition TCP_STATE_RCVD :: "u8 \<Rightarrow> u32" where "TCP_STATE_RCVD flags = push_bit 16 (ucast flags)"

definition TCP_FLAGS_SENDING :: "u32 \<Rightarrow> u8" where
  "TCP_FLAGS_SENDING state = TCP_FLAGS_SENT state AND NOT (TCP_FLAGS_ACKED state)"

definition TCP_CLOSED :: u32 where "TCP_CLOSED = ucast TCP_RST"
definition TCP_SYN_SENT :: u32 where "TCP_SYN_SENT = TCP_STATE_SENT TCP_SYN"
definition TCP_SYN_RCVD :: u32 where
  "TCP_SYN_RCVD = TCP_STATE_SENT (TCP_SYN OR TCP_ACK) OR TCP_STATE_RCVD TCP_SYN"
definition TCP_ESTABLISHED :: u32 where
  "TCP_ESTABLISHED =
     TCP_STATE_SENT (TCP_SYN OR TCP_ACK) OR TCP_STATE_ACKED TCP_SYN OR TCP_STATE_RCVD TCP_SYN"
definition TCP_FIN_WAIT_1 :: u32 where
  "TCP_FIN_WAIT_1 =
     TCP_STATE_SENT (TCP_SYN OR TCP_ACK OR TCP_FIN) OR TCP_STATE_ACKED TCP_SYN OR TCP_STATE_RCVD TCP_SYN"
definition TCP_FIN_WAIT_2 :: u32 where
  "TCP_FIN_WAIT_2 =
     TCP_STATE_SENT (TCP_SYN OR TCP_ACK OR TCP_FIN) OR TCP_STATE_ACKED (TCP_SYN OR TCP_FIN)
     OR TCP_STATE_RCVD TCP_SYN"
definition TCP_CLOSING_OR_LAST_ACK :: u32 where
  "TCP_CLOSING_OR_LAST_ACK =
     TCP_STATE_SENT (TCP_SYN OR TCP_ACK OR TCP_FIN) OR TCP_STATE_ACKED TCP_SYN
     OR TCP_STATE_RCVD (TCP_SYN OR TCP_FIN)"
definition TCP_TIME_WAIT :: u32 where
  "TCP_TIME_WAIT =
     TCP_STATE_SENT (TCP_SYN OR TCP_ACK OR TCP_FIN) OR TCP_STATE_ACKED (TCP_SYN OR TCP_FIN)
     OR TCP_STATE_RCVD (TCP_SYN OR TCP_FIN)"
definition TCP_CLOSE_WAIT :: u32 where
  "TCP_CLOSE_WAIT =
     TCP_STATE_SENT (TCP_SYN OR TCP_ACK) OR TCP_STATE_ACKED TCP_SYN OR TCP_STATE_RCVD (TCP_SYN OR TCP_FIN)"

definition TCP_CAN_SEND_DATA :: "u32 \<Rightarrow> bool" where
  "TCP_CAN_SEND_DATA state \<longleftrightarrow>
     state AND (TCP_STATE_ACKED TCP_SYN OR TCP_STATE_SENT TCP_FIN) = TCP_STATE_ACKED TCP_SYN"

definition TCP_HAS_BEEN_ESTABLISHED :: "u32 \<Rightarrow> bool" where
  "TCP_HAS_BEEN_ESTABLISHED state \<longleftrightarrow>
     state AND (TCP_STATE_ACKED TCP_SYN OR TCP_STATE_RCVD TCP_SYN) =
       TCP_STATE_ACKED TCP_SYN OR TCP_STATE_RCVD TCP_SYN"

definition TCP_CLOSED_GRACEFULLY :: "u32 \<Rightarrow> bool" where
  "TCP_CLOSED_GRACEFULLY state \<longleftrightarrow>
     state AND (TCP_STATE_ACKED TCP_FIN OR TCP_STATE_RCVD TCP_FIN) =
       TCP_STATE_ACKED TCP_FIN OR TCP_STATE_RCVD TCP_FIN"

definition tcp_cmp :: "u32 \<Rightarrow> u32 \<Rightarrow> int" where
  "tcp_cmp seq1 seq2 = sint (seq1 - seq2)"

definition tcp_in_window :: "u32 \<Rightarrow> u32 \<Rightarrow> u32 \<Rightarrow> bool" where
  "tcp_in_window seq first len \<longleftrightarrow> seq - first < len"

text \<open>
  A left shift of an \<^verbatim>\<open>int\<close>.  C leaves shifts by 32 or more undefined; the processor uses
  the count modulo 32.
\<close>

definition shl32 :: "u32 \<Rightarrow> u8 \<Rightarrow> u32" where
  "shl32 x n = push_bit (unat n mod 32) x"

section \<open>Data\<close>

record sack_block =
  sack_left :: u32
  sack_right :: u32

text \<open>A received packet on the queue: \<^verbatim>\<open>struct tcp_rx_queued_header\<close> and the data behind it.\<close>

record tcp_rx_queued =
  rxq_seq :: u32
  rxq_nxt :: u32
  rxq_flags :: u8
  rxq_data :: bytes

record tcp_connection =
  refcnt :: refcnt
  flags :: u32
  peer :: sockaddr_tcpip
  local_port :: u32
  mss :: u64
  tcp_state :: u32
  prev_tcp_state :: u32
  snd_seq :: u32
  snd_sent :: u32
  snd_win :: u32
  rcv_ack :: u32
  rcv_win :: u32
  ts_val :: u32
  ts_recent :: u32
  snd_win_scale :: u8
  rcv_win_scale :: u8
  sack :: "sack_block list"
  tx_queue :: "bytes list"
  rx_queue :: "tcp_rx_queued list"
  process :: bool
  timer :: retry_timer
  keepalive :: retry_timer
  wait :: retry_timer
  pending_flags :: u32
  pending_data :: u32
  listed :: bool

text \<open>Received options: the window scale, whether SACK is permitted, and the timestamp.\<close>

record tcp_options =
  wsopt :: "u8 option"
  spopt :: bool
  tsopt :: "u32 option"

text \<open>A packet being built: the space before the data and the data.\<close>

record tx_packet =
  pkt_headroom :: int
  pkt_data :: bytes

datatype tcp_call =
    Alloc_iob nat nat bool
  | Tcpip_tx tx_packet sockaddr_tcpip "errno option"
  | Xfer_deliver bytes "errno option"
  | Xfer_window_changed
  | Intf_shutdown "errno option"
  | App_data bytes

text \<open>What the application may do with the connection in return.\<close>

datatype app_call = App_send bytes | App_close "errno option"

text \<open>
  The environment.  An allocation answers how many rounds of discarding it needed and
  whether it succeeded.
\<close>

record tcp_env =
  env_currticks :: "tcp_call list \<Rightarrow> u64"
  env_alloc_iob :: "tcp_call list \<Rightarrow> nat \<Rightarrow> nat \<times> bool"
  env_tcpip_tx :: "tcp_call list \<Rightarrow> tx_packet \<Rightarrow> sockaddr_tcpip \<Rightarrow> errno option"
  env_xfer_window :: "tcp_call list \<Rightarrow> u64"
  env_xfer_deliver :: "tcp_call list \<Rightarrow> bytes \<Rightarrow> errno option \<times> app_call list"
  env_window_changed :: "tcp_call list \<Rightarrow> app_call list"

text \<open>A connection in its surroundings: the calls made and the failed assertions.\<close>

record tcp_sys = tcp_connection +
  trace :: "tcp_call list"
  pending_total :: u32
  tcp_failures :: nat

section \<open>Small steps\<close>

definition tcp_assert :: "bool \<Rightarrow> tcp_sys \<Rightarrow> tcp_sys" where
  "tcp_assert c s = (if c then s else s\<lparr>tcp_failures := tcp_failures s + 1\<rparr>)"

definition tcp_now :: "tcp_env \<Rightarrow> tcp_sys \<Rightarrow> u64" where
  "tcp_now env s = env_currticks env (trace s)"

definition xfer_closed :: "tcp_sys \<Rightarrow> bool" where
  "xfer_closed s \<longleftrightarrow> flags s AND TCP_XFER_CLOSED \<noteq> 0"

definition tcp_dump_state :: "tcp_sys \<Rightarrow> tcp_sys" where
  "tcp_dump_state s = s\<lparr>prev_tcp_state := tcp_state s\<rparr>"

text \<open>The operations of the timers, the process and the pending operations of a connection.\<close>

definition tcp_ref_get :: "tcp_sys \<Rightarrow> tcp_sys" where
  "tcp_ref_get s = s\<lparr>refcnt := ref_increment (ref_assert (refcnt s))\<rparr>"

definition tcp_ref_put :: "tcp_sys \<Rightarrow> tcp_sys" where
  "tcp_ref_put s = s\<lparr>refcnt := ref_decrement (ref_assert (refcnt s))\<rparr>"

definition tcp_start_timer :: "tcp_env \<Rightarrow> tcp_sys \<Rightarrow> tcp_sys" where
  "tcp_start_timer env s =
     (case start_timer (tcp_now env s) (timer s, Some (refcnt s)) of
        (t, r) \<Rightarrow> s\<lparr>timer := t, refcnt := the r\<rparr>)"

definition tcp_start_timer_nodelay :: "tcp_env \<Rightarrow> tcp_sys \<Rightarrow> tcp_sys" where
  "tcp_start_timer_nodelay env s =
     (case start_timer_nodelay (tcp_now env s) (timer s, Some (refcnt s)) of
        (t, r) \<Rightarrow> s\<lparr>timer := t, refcnt := the r\<rparr>)"

definition tcp_stop_timer :: "tcp_env \<Rightarrow> tcp_sys \<Rightarrow> tcp_sys" where
  "tcp_stop_timer env s =
     (case stop_timer (tcp_now env s) (timer s, Some (refcnt s)) of
        (t, r) \<Rightarrow> s\<lparr>timer := t, refcnt := the r\<rparr>)"

definition tcp_start_keepalive :: "tcp_env \<Rightarrow> u64 \<Rightarrow> tcp_sys \<Rightarrow> tcp_sys" where
  "tcp_start_keepalive env delay s =
     (case start_timer_fixed (tcp_now env s) delay (keepalive s, Some (refcnt s)) of
        (t, r) \<Rightarrow> s\<lparr>keepalive := t, refcnt := the r\<rparr>)"

definition tcp_stop_keepalive :: "tcp_env \<Rightarrow> tcp_sys \<Rightarrow> tcp_sys" where
  "tcp_stop_keepalive env s =
     (case stop_timer (tcp_now env s) (keepalive s, Some (refcnt s)) of
        (t, r) \<Rightarrow> s\<lparr>keepalive := t, refcnt := the r\<rparr>)"

definition tcp_start_wait :: "tcp_env \<Rightarrow> u64 \<Rightarrow> tcp_sys \<Rightarrow> tcp_sys" where
  "tcp_start_wait env delay s =
     (case start_timer_fixed (tcp_now env s) delay (wait s, Some (refcnt s)) of
        (t, r) \<Rightarrow> s\<lparr>wait := t, refcnt := the r\<rparr>)"

definition tcp_stop_wait :: "tcp_env \<Rightarrow> tcp_sys \<Rightarrow> tcp_sys" where
  "tcp_stop_wait env s =
     (case stop_timer (tcp_now env s) (wait s, Some (refcnt s)) of
        (t, r) \<Rightarrow> s\<lparr>wait := t, refcnt := the r\<rparr>)"

definition tcp_process_add :: "tcp_sys \<Rightarrow> tcp_sys" where
  "tcp_process_add s = (if \<not> process s then (tcp_ref_get s)\<lparr>process := True\<rparr> else s)"

definition tcp_process_del :: "tcp_sys \<Rightarrow> tcp_sys" where
  "tcp_process_del s = (if process s then (tcp_ref_put s)\<lparr>process := False\<rparr> else s)"

definition tcp_pending_flags_get :: "tcp_sys \<Rightarrow> tcp_sys" where
  "tcp_pending_flags_get s =
     (case pending_get (pending_flags s, pending_total s) of
        (p, t) \<Rightarrow> s\<lparr>pending_flags := p, pending_total := t\<rparr>)"

definition tcp_pending_flags_put :: "tcp_sys \<Rightarrow> tcp_sys" where
  "tcp_pending_flags_put s =
     (case pending_put (pending_flags s, pending_total s) of
        (p, t) \<Rightarrow> s\<lparr>pending_flags := p, pending_total := t\<rparr>)"

definition tcp_pending_data_get :: "tcp_sys \<Rightarrow> tcp_sys" where
  "tcp_pending_data_get s =
     (case pending_get (pending_data s, pending_total s) of
        (p, t) \<Rightarrow> s\<lparr>pending_data := p, pending_total := t\<rparr>)"

definition tcp_pending_data_put :: "tcp_sys \<Rightarrow> tcp_sys" where
  "tcp_pending_data_put s =
     (case pending_put (pending_data s, pending_total s) of
        (p, t) \<Rightarrow> s\<lparr>pending_data := p, pending_total := t\<rparr>)"

text \<open>One round of discarding drops the last packet of the receive queue.\<close>

definition tcp_discard_one :: "tcp_connection \<Rightarrow> nat \<times> tcp_connection" where
  "tcp_discard_one tcp =
     (if rx_queue tcp = [] then (0, tcp) else (1, tcp\<lparr>rx_queue := butlast (rx_queue tcp)\<rparr>))"

text \<open>
  Allocation of an I/O buffer; \<open>rounds\<close> rounds of discarding took place.
\<close>

definition tcp_alloc_iob :: "tcp_env \<Rightarrow> nat \<Rightarrow> tcp_sys \<Rightarrow> bool \<times> tcp_sys" where
  "tcp_alloc_iob env len s =
     (case env_alloc_iob env (trace s) len of
        (rounds, ok) \<Rightarrow>
          (ok, s\<lparr>rx_queue := take (length (rx_queue s) - rounds) (rx_queue s),
                 trace := Alloc_iob len rounds ok # trace s\<rparr>))"

text \<open>Calls through the data transfer interface; once it is closed they reach the null interface.\<close>

definition tcp_xfer_peer_window :: "tcp_env \<Rightarrow> tcp_sys \<Rightarrow> u64" where
  "tcp_xfer_peer_window env s = (if xfer_closed s then NOT 0 else env_xfer_window env (trace s))"

definition tcp_intf_shutdown :: "errno option \<Rightarrow> tcp_sys \<Rightarrow> tcp_sys" where
  "tcp_intf_shutdown rc s = s\<lparr>trace := Intf_shutdown rc # trace s\<rparr>"

definition put16 :: "u16 \<Rightarrow> bytes" where
  "put16 x = [ucast (drop_bit 8 x), ucast x]"

definition put32 :: "u32 \<Rightarrow> bytes" where
  "put32 x = [ucast (drop_bit 24 x), ucast (drop_bit 16 x), ucast (drop_bit 8 x), ucast x]"

definition get16 :: "u8 \<Rightarrow> u8 \<Rightarrow> u16" where
  "get16 a b = push_bit 8 (ucast a) OR ucast b"

definition get32 :: "u8 \<Rightarrow> u8 \<Rightarrow> u8 \<Rightarrow> u8 \<Rightarrow> u32" where
  "get32 a b c d = push_bit 24 (ucast a) OR push_bit 16 (ucast b) OR push_bit 8 (ucast c) OR ucast d"

section \<open>Transmit queue, acknowledgements and closing\<close>

definition tcp_xmit_win :: "tcp_sys \<Rightarrow> nat" where
  "tcp_xmit_win s =
     (if \<not> TCP_CAN_SEND_DATA (tcp_state s) then 0
      else let len = unat (snd_win s) in if len > TCP_PATH_MTU then TCP_PATH_MTU else len)"

definition tcp_xfer_window :: "tcp_sys \<Rightarrow> nat" where
  "tcp_xfer_window s = (if tx_queue s \<noteq> [] then 0 else tcp_xmit_win s)"

text \<open>
  \<^verbatim>\<open>tcp_process_tx_queue()\<close>: the length processed, the data copied, the remaining queue and
  the number of buffers freed.
\<close>

fun process_tx_queue :: "nat \<Rightarrow> bool \<Rightarrow> bytes list \<Rightarrow> nat \<times> bytes \<times> bytes list \<times> nat" where
  "process_tx_queue max_len remove [] = (0, [], [], 0)"
| "process_tx_queue max_len remove (iobuf # rest) =
     (let frag_len = (if length iobuf > max_len then max_len else length iobuf);
          (len, dest, queue, freed) = process_tx_queue (max_len - frag_len) remove rest;
          iobuf' = (if remove then drop frag_len iobuf else iobuf)
      in (frag_len + len, take frag_len iobuf @ dest,
          if remove \<and> iobuf' = [] then queue else iobuf' # queue,
          if remove \<and> iobuf' = [] then Suc freed else freed))"

definition tcp_tx_queue_len :: "nat \<Rightarrow> tcp_sys \<Rightarrow> nat" where
  "tcp_tx_queue_len max_len s = fst (process_tx_queue max_len False (tx_queue s))"

definition tcp_tx_queue_data :: "nat \<Rightarrow> tcp_sys \<Rightarrow> bytes" where
  "tcp_tx_queue_data max_len s = fst (snd (process_tx_queue max_len False (tx_queue s)))"

definition tcp_tx_queue_remove :: "nat \<Rightarrow> tcp_sys \<Rightarrow> tcp_sys" where
  "tcp_tx_queue_remove max_len s =
     (case process_tx_queue max_len True (tx_queue s) of
        (len, dest, queue, freed) \<Rightarrow> (tcp_pending_data_put ^^ freed) (s\<lparr>tx_queue := queue\<rparr>))"

text \<open>The parts of \<^verbatim>\<open>tcp_rx_ack()\<close>: sending FIN once all data is acknowledged, new data, and the whole.\<close>

definition tcp_ack_fin :: "tcp_sys \<Rightarrow> tcp_sys" where
  "tcp_ack_fin s =
     (if tx_queue s = [] \<and> xfer_closed s \<and> tcp_state s AND TCP_STATE_SENT TCP_FIN = 0
      then tcp_pending_flags_get (s\<lparr>tcp_state := tcp_state s OR TCP_STATE_SENT TCP_FIN\<rparr>)
      else s)"

definition tcp_ack_new :: "tcp_env \<Rightarrow> u32 \<Rightarrow> u32 \<Rightarrow> tcp_sys \<Rightarrow> tcp_sys" where
  "tcp_ack_new env ack ack_len s =
     (let s1 = tcp_stop_timer env s;
          acked_flags = TCP_FLAGS_SENDING (tcp_state s1) AND (TCP_SYN OR TCP_FIN);
          len = (if acked_flags \<noteq> 0 then unat ack_len - 1 else unat ack_len);
          s2 = (if acked_flags \<noteq> 0 then tcp_pending_flags_put s1 else s1);
          s3 = tcp_tx_queue_remove len (s2\<lparr>snd_seq := ack, snd_sent := 0\<rparr>);
          s4 = (if acked_flags \<noteq> 0
                then s3\<lparr>tcp_state := tcp_state s3 OR TCP_STATE_ACKED acked_flags\<rparr> else s3)
      in tcp_ack_fin s4)"

definition tcp_rx_ack :: "tcp_env \<Rightarrow> u32 \<Rightarrow> u32 \<Rightarrow> tcp_sys \<Rightarrow> errno option \<times> tcp_sys" where
  "tcp_rx_ack env ack win s =
     (let ack_len = ack - snd_seq s
      in if ack_len > snd_sent s then
           (if TCP_HAS_BEEN_ESTABLISHED (tcp_state s) then (None, s) else (Some EINVAL, s))
         else
           let s1 = s\<lparr>snd_win := win\<rparr>;
               s2 = (if tcp_state s1 AND TCP_STATE_SENT TCP_FIN = 0
                     then tcp_start_keepalive env TCP_KEEPALIVE_DELAY s1 else s1)
           in if ack_len = 0 then (None, s2) else (None, tcp_ack_new env ack ack_len s2))"

text \<open>The deletion of a connection that has not received a SYN, or has been put into CLOSED.\<close>

definition tcp_delete :: "tcp_env \<Rightarrow> tcp_sys \<Rightarrow> tcp_sys" where
  "tcp_delete env s =
     (let s1 = tcp_dump_state (s\<lparr>tcp_state := TCP_CLOSED\<rparr>);
          s2 = s1\<lparr>rx_queue := []\<rparr>;
          s3 = (tcp_pending_data_put ^^ length (tx_queue s2)) (s2\<lparr>tx_queue := []\<rparr>);
          s4 = tcp_assert (\<not> is_pending (pending_data s3, pending_total s3)) s3;
          s5 = tcp_pending_flags_put (tcp_pending_flags_put s4);
          s6 = tcp_process_del s5;
          s7 = tcp_stop_wait env (tcp_stop_keepalive env (tcp_stop_timer env s6))
      in tcp_ref_put (s7\<lparr>listed := False\<rparr>))"

text \<open>
  Closing: an unacknowledged SYN is taken to have been acknowledged, and FIN is sent once there
  is no data left to send.
\<close>

definition tcp_close_syn :: "tcp_env \<Rightarrow> tcp_sys \<Rightarrow> tcp_sys" where
  "tcp_close_syn env s =
     (if tcp_state s AND TCP_STATE_ACKED TCP_SYN = 0
      then snd (tcp_rx_ack env (snd_seq s + 1) 0 s) else s)"

definition tcp_close_fin :: "tcp_sys \<Rightarrow> tcp_sys" where
  "tcp_close_fin s =
     (if tx_queue s = [] \<and> tcp_state s AND TCP_STATE_SENT TCP_FIN = 0
      then tcp_pending_flags_get (tcp_process_add (tcp_dump_state
             (s\<lparr>tcp_state := tcp_state s OR TCP_STATE_SENT TCP_FIN\<rparr>)))
      else s)"

definition tcp_close :: "tcp_env \<Rightarrow> errno option \<Rightarrow> tcp_sys \<Rightarrow> tcp_sys" where
  "tcp_close env rc s =
     (let s1 = tcp_intf_shutdown rc s;
          s2 = s1\<lparr>flags := flags s1 OR TCP_XFER_CLOSED\<rparr>
      in if tcp_state s2 AND TCP_STATE_RCVD TCP_SYN = 0 then tcp_delete env s2
         else tcp_close_fin (tcp_stop_keepalive env (tcp_close_syn env s2)))"

section \<open>Selective acknowledgement\<close>

text \<open>The loop of \<^verbatim>\<open>tcp_sack_block()\<close>: the block that grows is \<open>left\<close> to \<open>right\<close>.\<close>

fun sack_block_loop :: "u32 \<Rightarrow> tcp_rx_queued list \<Rightarrow> u32 \<Rightarrow> u32 \<Rightarrow> u32 \<times> u32" where
  "sack_block_loop seq [] left right = (left, right)"
| "sack_block_loop seq (q # queue) left right =
     (if tcp_cmp (rxq_seq q) right > 0 \<and> tcp_cmp (rxq_seq q) seq > 0 then (left, right)
      else
        let left = (if tcp_cmp (rxq_seq q) right > 0 then rxq_seq q else left);
            right = (if tcp_cmp (rxq_nxt q) right > 0 then rxq_nxt q else right)
        in sack_block_loop seq queue left right)"

text \<open>The block, if it contains \<open>seq\<close>; its length is \<open>right - left\<close> and may be zero.\<close>

definition tcp_sack_block :: "u32 \<Rightarrow> tcp_sys \<Rightarrow> sack_block option" where
  "tcp_sack_block seq s =
     (let (left, right) = sack_block_loop seq (rx_queue s) (rcv_ack s) (rcv_ack s)
      in if tcp_cmp right seq < 0 then None
         else if right - left = 0 then None
         else Some \<lparr>sack_left = left, sack_right = right\<rparr>)"

fun tcp_sack_old :: "tcp_sys \<Rightarrow> sack_block list \<Rightarrow> sack_block list \<Rightarrow> sack_block list" where
  "tcp_sack_old s [] new = new"
| "tcp_sack_old s (old # rest) new =
     (if length new = TCP_SACK_MAX then new
      else if sack_left old = sack_right old then tcp_sack_old s rest new
      else
        (case tcp_sack_block (sack_left old) s of
           None \<Rightarrow> tcp_sack_old s rest new
         | Some b \<Rightarrow>
             if sack_left b \<in> sack_left ` set new then tcp_sack_old s rest new
             else tcp_sack_old s rest (new @ [b])))"

definition tcp_sack :: "u32 \<Rightarrow> tcp_sys \<Rightarrow> nat \<times> tcp_sys" where
  "tcp_sack seq s =
     (let first = (case tcp_sack_block seq s of None \<Rightarrow> [] | Some b \<Rightarrow> [b]);
          new = tcp_sack_old s (sack s) first
      in (length new,
          s\<lparr>sack := new @ replicate (TCP_SACK_MAX - length new) \<lparr>sack_left = 0, sack_right = 0\<rparr>\<rparr>))"

section \<open>Transmission\<close>

text \<open>Adding a header to a packet, with the assertion of \<^verbatim>\<open>iob_push()\<close>.\<close>

definition pkt_push :: "bytes \<Rightarrow> tx_packet \<times> tcp_sys \<Rightarrow> tx_packet \<times> tcp_sys" where
  "pkt_push hdr = (\<lambda>(pkt, s).
     let pkt = \<lparr>pkt_headroom = pkt_headroom pkt - int (length hdr), pkt_data = hdr @ pkt_data pkt\<rparr>
     in (pkt, tcp_assert (pkt_headroom pkt \<ge> 0) s))"

definition tcp_mss_option :: "u64 \<Rightarrow> bytes" where
  "tcp_mss_option m = [TCP_OPTION_MSS, 4] @ put16 (ucast m)"

definition tcp_window_scale_padded_option :: bytes where
  "tcp_window_scale_padded_option = [TCP_OPTION_NOP, TCP_OPTION_WS, 3, TCP_RX_WINDOW_SCALE]"

definition tcp_sack_permitted_padded_option :: bytes where
  "tcp_sack_permitted_padded_option = [TCP_OPTION_NOP, TCP_OPTION_NOP, TCP_OPTION_SACK_PERMITTED, 2]"

definition tcp_timestamp_padded_option :: "u32 \<Rightarrow> u32 \<Rightarrow> bytes" where
  "tcp_timestamp_padded_option tsval tsecr =
     [TCP_OPTION_NOP, TCP_OPTION_NOP, TCP_OPTION_TS, 10] @ put32 tsval @ put32 tsecr"

definition tcp_sack_padded_option :: "sack_block list \<Rightarrow> bytes" where
  "tcp_sack_padded_option blocks =
     [TCP_OPTION_NOP, TCP_OPTION_NOP, TCP_OPTION_SACK, of_nat (2 + 8 * length blocks)]
     @ concat (map (\<lambda>b. put32 (sack_left b) @ put32 (sack_right b)) blocks)"

text \<open>\<^verbatim>\<open>struct tcp_header\<close>, with the checksum field as given.\<close>

definition tcp_header ::
  "u16 \<Rightarrow> u16 \<Rightarrow> u32 \<Rightarrow> u32 \<Rightarrow> u8 \<Rightarrow> u8 \<Rightarrow> u16 \<Rightarrow> bytes \<Rightarrow> bytes" where
  "tcp_header src dest seq ack hlen flgs win csum =
     put16 src @ put16 dest @ put32 seq @ put32 ack @ [hlen, flgs] @ put16 win @ csum @ [0, 0]"

text \<open>Filling in the checksum over the header and what follows it.\<close>

definition tcp_with_csum :: "(bytes \<Rightarrow> bytes) \<Rightarrow> bytes \<Rightarrow> bytes" where
  "tcp_with_csum hdr rest = hdr (csum_bytes (tcpip_chksum (hdr [0, 0] @ rest))) @ rest"

definition tcp_expand_rcv_win :: "tcp_env \<Rightarrow> tcp_sys \<Rightarrow> tcp_sys" where
  "tcp_expand_rcv_win env s =
     (let max_rcv_win = ucast (tcp_xfer_peer_window env s);
          max_rcv_win = (if max_rcv_win > TCP_MAX_WINDOW_SIZE then TCP_MAX_WINDOW_SIZE else max_rcv_win);
          max_representable_win = shl32 0xffff (rcv_win_scale s);
          max_rcv_win = (if max_rcv_win > max_representable_win then max_representable_win else max_rcv_win);
          max_rcv_win = max_rcv_win AND NOT 0x03
      in if rcv_win s < max_rcv_win then s\<lparr>rcv_win := max_rcv_win\<rparr> else s)"

text \<open>The options of a packet, from the payload outwards; the SACK option updates the list.\<close>

definition push_syn_options :: "u8 \<Rightarrow> tx_packet \<times> tcp_sys \<Rightarrow> tx_packet \<times> tcp_sys" where
  "push_syn_options flgs ps =
     (if flgs AND TCP_SYN \<noteq> 0
      then pkt_push tcp_sack_permitted_padded_option
             (pkt_push tcp_window_scale_padded_option (pkt_push (tcp_mss_option (mss (snd ps))) ps))
      else ps)"

definition push_ts_option :: "tcp_env \<Rightarrow> u8 \<Rightarrow> tx_packet \<times> tcp_sys \<Rightarrow> tx_packet \<times> tcp_sys" where
  "push_ts_option env flgs ps =
     (if flgs AND TCP_SYN \<noteq> 0 \<or> flags (snd ps) AND TCP_TS_ENABLED \<noteq> 0
      then pkt_push (tcp_timestamp_padded_option (ucast (tcp_now env (snd ps))) (ts_recent (snd ps))) ps
      else ps)"

definition push_sack_option :: "u32 \<Rightarrow> tx_packet \<times> tcp_sys \<Rightarrow> tx_packet \<times> tcp_sys" where
  "push_sack_option sack_seq ps =
     (if flags (snd ps) AND TCP_SACK_ENABLED \<noteq> 0 \<and> rx_queue (snd ps) \<noteq> [] then
        (case tcp_sack sack_seq (snd ps) of
           (sack_count, s) \<Rightarrow>
             if sack_count \<noteq> 0
             then pkt_push (tcp_sack_padded_option (take sack_count (sack s))) (fst ps, s)
             else (fst ps, s))
      else ps)"

definition tcp_push_options :: "tcp_env \<Rightarrow> u8 \<Rightarrow> u32 \<Rightarrow> tx_packet \<times> tcp_sys \<Rightarrow> tx_packet \<times> tcp_sys" where
  "tcp_push_options env flgs sack_seq ps =
     push_sack_option sack_seq (push_ts_option env flgs (push_syn_options flgs ps))"

text \<open>The sequence space and the flags of the next packet.\<close>

definition tcp_xmit_len :: "tcp_sys \<Rightarrow> nat" where
  "tcp_xmit_len s =
     (if TCP_CAN_SEND_DATA (tcp_state s) then tcp_tx_queue_len (tcp_xmit_win s) s else 0)"

definition tcp_xmit_seq_len :: "tcp_sys \<Rightarrow> u32" where
  "tcp_xmit_seq_len s =
     (if TCP_FLAGS_SENDING (tcp_state s) AND (TCP_SYN OR TCP_FIN) \<noteq> 0
      then of_nat (tcp_xmit_len s) + 1 else of_nat (tcp_xmit_len s))"

text \<open>Building and sending the packet, once the buffer has been allocated.\<close>

definition tcp_xmit_packet :: "tcp_env \<Rightarrow> u32 \<Rightarrow> nat \<Rightarrow> u8 \<Rightarrow> tcp_sys \<Rightarrow> tcp_sys" where
  "tcp_xmit_packet env sack_seq len flgs s =
     (let payload = tcp_tx_queue_data len s;
          s1 = tcp_expand_rcv_win env s;
          (pkt, s2) = tcp_push_options env flgs sack_seq
                        (\<lparr>pkt_headroom = int TCP_MAX_HEADER_LEN, pkt_data = payload\<rparr>, s1);
          flgs = (if len \<noteq> 0 then flgs OR TCP_PSH else flgs);
          (pkt, s3) = pkt_push (replicate 20 0) (pkt, s2);
          hlen = of_nat ((length (pkt_data pkt) - length payload) * 4);
          win = ucast (drop_bit (unat (rcv_win_scale s3)) (rcv_win s3));
          hdr = tcp_header (ucast (local_port s3)) (st_port (peer s3)) (snd_seq s3) (rcv_ack s3) hlen flgs win;
          pkt = pkt\<lparr>pkt_data := tcp_with_csum hdr (drop 20 (pkt_data pkt))\<rparr>;
          rc = env_tcpip_tx env (trace s3) pkt (peer s3);
          s4 = s3\<lparr>trace := Tcpip_tx pkt (peer s3) rc # trace s3\<rparr>
      in case rc of
           Some e \<Rightarrow> s4
         | None \<Rightarrow> s4\<lparr>flags := flags s4 AND NOT TCP_ACK_PENDING\<rparr>)"

definition tcp_xmit_sack :: "tcp_env \<Rightarrow> u32 \<Rightarrow> tcp_sys \<Rightarrow> tcp_sys" where
  "tcp_xmit_sack env sack_seq s =
     (if running (timer s) then s
      else
        let len = tcp_xmit_len s;
            seq_len = tcp_xmit_seq_len s;
            flgs = TCP_FLAGS_SENDING (tcp_state s);
            s1 = (if flgs AND (TCP_SYN OR TCP_FIN) \<noteq> 0
                  then tcp_assert (\<not> (flgs AND TCP_SYN \<noteq> 0 \<and> flgs AND TCP_FIN \<noteq> 0)) s else s);
            s2 = s1\<lparr>snd_sent := seq_len\<rparr>
        in if seq_len = 0 \<and> flags s2 AND TCP_ACK_PENDING = 0 then s2
           else
             let s3 = (if seq_len \<noteq> 0 then tcp_start_timer env s2 else s2)
             in (case tcp_alloc_iob env (len + TCP_MAX_HEADER_LEN) s3 of
                   (False, s4) \<Rightarrow> s4
                 | (True, s4) \<Rightarrow> tcp_xmit_packet env sack_seq len flgs s4))"

definition tcp_xmit :: "tcp_env \<Rightarrow> tcp_sys \<Rightarrow> tcp_sys" where
  "tcp_xmit env s = tcp_xmit_sack env (rcv_ack s) s"

definition tcp_xmit_reset ::
  "tcp_env \<Rightarrow> sockaddr_tcpip \<Rightarrow> u16 \<Rightarrow> u16 \<Rightarrow> u32 \<Rightarrow> u32 \<Rightarrow> tcp_sys \<Rightarrow> errno option \<times> tcp_sys" where
  "tcp_xmit_reset env st_dest in_src in_dest in_seq in_ack s =
     (case tcp_alloc_iob env TCP_MAX_HEADER_LEN s of
        (False, s1) \<Rightarrow> (Some ENOMEM, s1)
      | (True, s1) \<Rightarrow>
          let (pkt, s2) = pkt_push (replicate 20 0)
                            (\<lparr>pkt_headroom = int TCP_MAX_HEADER_LEN, pkt_data = []\<rparr>, s1);
              hdr = tcp_header in_dest in_src in_ack in_seq (push_bit 4 (20 div 4)) (TCP_RST OR TCP_ACK) 0;
              pkt = pkt\<lparr>pkt_data := tcp_with_csum hdr []\<rparr>;
              rc = env_tcpip_tx env (trace s2) pkt st_dest
          in (rc, s2\<lparr>trace := Tcpip_tx pkt st_dest rc # trace s2\<rparr>))"

section \<open>Data transfer interface\<close>

definition tcp_xfer_close :: "tcp_env \<Rightarrow> errno option \<Rightarrow> tcp_sys \<Rightarrow> tcp_sys" where
  "tcp_xfer_close env rc s = tcp_xmit env (tcp_close env rc s)"

definition tcp_xfer_deliver :: "tcp_env \<Rightarrow> bytes \<Rightarrow> tcp_sys \<Rightarrow> tcp_sys" where
  "tcp_xfer_deliver env iobuf s =
     tcp_xmit env (tcp_pending_data_get
       (s\<lparr>tx_queue := tx_queue s @ [iobuf], trace := App_data iobuf # trace s\<rparr>))"

definition tcp_progress :: "tcp_sys \<Rightarrow> string option" where
  "tcp_progress s =
     (if \<not> TCP_HAS_BEEN_ESTABLISHED (tcp_state s) then Some ''connecting'' else None)"

text \<open>A call by the application; once the interface has been shut down it is ignored.\<close>

fun run_app_call :: "tcp_env \<Rightarrow> app_call \<Rightarrow> tcp_sys \<Rightarrow> tcp_sys" where
  "run_app_call env (App_send iobuf) s = (if xfer_closed s then s else tcp_xfer_deliver env iobuf s)"
| "run_app_call env (App_close rc) s = (if xfer_closed s then s else tcp_xfer_close env rc s)"

definition tcp_xfer_deliver_iob :: "tcp_env \<Rightarrow> bytes \<Rightarrow> tcp_sys \<Rightarrow> errno option \<times> tcp_sys" where
  "tcp_xfer_deliver_iob env data s =
     (if xfer_closed s then (Some EPIPE, s\<lparr>trace := Xfer_deliver data (Some EPIPE) # trace s\<rparr>)
      else
        let (rc, calls) = env_xfer_deliver env (trace s) data
        in (rc, fold (run_app_call env) calls (s\<lparr>trace := Xfer_deliver data rc # trace s\<rparr>)))"

definition tcp_xfer_window_changed :: "tcp_env \<Rightarrow> tcp_sys \<Rightarrow> tcp_sys" where
  "tcp_xfer_window_changed env s =
     (if xfer_closed s then s
      else fold (run_app_call env) (env_window_changed env (trace s))
             (s\<lparr>trace := Xfer_window_changed # trace s\<rparr>))"

section \<open>Reception\<close>

definition sack_advance :: "u32 \<Rightarrow> sack_block \<Rightarrow> sack_block" where
  "sack_advance ack b =
     (if sack_left b = sack_right b then b
      else
        let b = (if tcp_cmp (sack_left b) ack < 0 then b\<lparr>sack_left := ack\<rparr> else b)
        in if tcp_cmp (sack_right b) ack < 0 then b\<lparr>sack_right := ack\<rparr> else b)"

definition tcp_rx_seq :: "u32 \<Rightarrow> tcp_sys \<Rightarrow> tcp_sys" where
  "tcp_rx_seq seq_len s =
     (let s1 = tcp_assert (seq_len > 0) s;
          s2 = s1\<lparr>rcv_ack := rcv_ack s1 + seq_len\<rparr>;
          s3 = s2\<lparr>rcv_win := (if rcv_win s2 > seq_len then rcv_win s2 - seq_len else 0)\<rparr>;
          s4 = s3\<lparr>ts_recent := ts_val s3\<rparr>;
          s5 = s4\<lparr>sack := map (sack_advance (rcv_ack s4)) (sack s4)\<rparr>
      in s5\<lparr>flags := flags s5 OR TCP_ACK_PENDING\<rparr>)"

definition tcp_rx_syn :: "u32 \<Rightarrow> tcp_options \<Rightarrow> tcp_sys \<Rightarrow> tcp_sys" where
  "tcp_rx_syn seq options s =
     (let s1 =
          (if tcp_state s AND TCP_STATE_RCVD TCP_SYN = 0 then
             let s = s\<lparr>rcv_ack := seq\<rparr>;
                 s = (if tsopt options \<noteq> None then s\<lparr>flags := flags s OR TCP_TS_ENABLED\<rparr> else s);
                 s = (if spopt options then s\<lparr>flags := flags s OR TCP_SACK_ENABLED\<rparr> else s)
             in (case wsopt options of
                   None \<Rightarrow> s
                 | Some scale \<Rightarrow> s\<lparr>snd_win_scale := scale, rcv_win_scale := TCP_RX_WINDOW_SCALE\<rparr>)
           else s)
      in if seq \<noteq> rcv_ack s1 then s1
         else
           let s2 = tcp_rx_seq 1 s1
           in s2\<lparr>tcp_state := tcp_state s2 OR (TCP_STATE_SENT TCP_ACK OR TCP_STATE_RCVD TCP_SYN)\<rparr>)"

definition tcp_rx_data :: "tcp_env \<Rightarrow> u32 \<Rightarrow> bytes \<Rightarrow> tcp_sys \<Rightarrow> errno option \<times> tcp_sys" where
  "tcp_rx_data env seq data s =
     (let already_rcvd = rcv_ack s - seq;
          len = of_nat (length data)
      in if already_rcvd \<ge> len then (None, s)
         else
           let data = drop (unat already_rcvd) data;
               s1 = tcp_rx_seq (len - already_rcvd) s
           in tcp_xfer_deliver_iob env data s1)"

definition tcp_rx_fin :: "tcp_env \<Rightarrow> u32 \<Rightarrow> tcp_sys \<Rightarrow> tcp_sys" where
  "tcp_rx_fin env seq s =
     (if seq \<noteq> rcv_ack s then s
      else
        let s1 = tcp_rx_seq 1 s;
            s2 = s1\<lparr>tcp_state := tcp_state s1 OR TCP_STATE_RCVD TCP_FIN\<rparr>
        in tcp_close env None s2)"

definition tcp_rx_rst :: "tcp_env \<Rightarrow> u32 \<Rightarrow> tcp_sys \<Rightarrow> errno option \<times> tcp_sys" where
  "tcp_rx_rst env seq s =
     (if (if tcp_state s AND TCP_STATE_RCVD TCP_SYN \<noteq> 0 then \<not> tcp_in_window seq (rcv_ack s) (rcv_win s)
          else tcp_state s AND TCP_STATE_ACKED TCP_SYN = 0)
      then (None, s)
      else (Some ECONNRESET, tcp_close env (Some ECONNRESET) (tcp_dump_state (s\<lparr>tcp_state := TCP_CLOSED\<rparr>))))"

text \<open>Insertion before the first queued packet that starts later.\<close>

fun rx_insert :: "tcp_rx_queued \<Rightarrow> tcp_rx_queued list \<Rightarrow> tcp_rx_queued list" where
  "rx_insert p [] = [p]"
| "rx_insert p (q # queue) =
     (if tcp_cmp (rxq_seq p) (rxq_seq q) < 0 then p # q # queue else q # rx_insert p queue)"

definition tcp_rx_enqueue :: "u32 \<Rightarrow> u8 \<Rightarrow> bytes \<Rightarrow> tcp_sys \<Rightarrow> tcp_sys" where
  "tcp_rx_enqueue seq flgs data s =
     (let flgs = flgs AND TCP_FIN;
          seq_len = of_nat (length data) + (if flgs \<noteq> 0 then 1 else 0);
          nxt = seq + seq_len
      in if tcp_state s AND TCP_STATE_RCVD TCP_SYN = 0 \<or>
            tcp_cmp seq (rcv_ack s + rcv_win s) \<ge> 0 \<or>
            tcp_cmp nxt (rcv_ack s) < 0 \<or>
            seq_len = 0
         then s
         else s\<lparr>rx_queue :=
                  rx_insert \<lparr>rxq_seq = seq, rxq_nxt = nxt, rxq_flags = flgs, rxq_data = data\<rparr> (rx_queue s)\<rparr>)"

text \<open>One iteration of \<^verbatim>\<open>tcp_process_rx_queue()\<close> on the packet \<open>q\<close> taken from the queue.\<close>

definition tcp_process_rx_one :: "tcp_env \<Rightarrow> tcp_rx_queued \<Rightarrow> tcp_sys \<Rightarrow> tcp_sys" where
  "tcp_process_rx_one env q s =
     (let s1 = snd (tcp_rx_data env (rxq_seq q) (rxq_data q) s);
          seq = rxq_seq q + of_nat (length (rxq_data q))
      in if rxq_flags q AND TCP_FIN \<noteq> 0 then tcp_rx_fin env seq s1 else s1)"

section \<open>What the small steps leave alone\<close>

lemma tcp_pending_data_puts:
  "(tcp_pending_data_put ^^ n) s =
     s\<lparr>pending_data := fst ((pending_put ^^ n) (pending_data s, pending_total s)),
       pending_total := snd ((pending_put ^^ n) (pending_data s, pending_total s))\<rparr>"
  by (induction n) (simp_all add: tcp_pending_data_put_def case_prod_beta)

lemma timer_fields [simp]:
  "flags (tcp_start_timer env s) = flags s" "tcp_state (tcp_start_timer env s) = tcp_state s"
  "snd_seq (tcp_start_timer env s) = snd_seq s" "snd_sent (tcp_start_timer env s) = snd_sent s"
  "snd_win (tcp_start_timer env s) = snd_win s" "rcv_ack (tcp_start_timer env s) = rcv_ack s"
  "rcv_win (tcp_start_timer env s) = rcv_win s" "tx_queue (tcp_start_timer env s) = tx_queue s"
  "rx_queue (tcp_start_timer env s) = rx_queue s" "trace (tcp_start_timer env s) = trace s"
  "sack (tcp_start_timer env s) = sack s" "listed (tcp_start_timer env s) = listed s"
  "peer (tcp_start_timer env s) = peer s" "local_port (tcp_start_timer env s) = local_port s"
  "mss (tcp_start_timer env s) = mss s" "snd_win_scale (tcp_start_timer env s) = snd_win_scale s"
  "rcv_win_scale (tcp_start_timer env s) = rcv_win_scale s" "ts_val (tcp_start_timer env s) = ts_val s"
  "ts_recent (tcp_start_timer env s) = ts_recent s"
  "flags (tcp_stop_timer env s) = flags s" "tcp_state (tcp_stop_timer env s) = tcp_state s"
  "snd_seq (tcp_stop_timer env s) = snd_seq s" "snd_sent (tcp_stop_timer env s) = snd_sent s"
  "snd_win (tcp_stop_timer env s) = snd_win s" "rcv_ack (tcp_stop_timer env s) = rcv_ack s"
  "rcv_win (tcp_stop_timer env s) = rcv_win s" "tx_queue (tcp_stop_timer env s) = tx_queue s"
  "rx_queue (tcp_stop_timer env s) = rx_queue s" "trace (tcp_stop_timer env s) = trace s"
  "sack (tcp_stop_timer env s) = sack s" "listed (tcp_stop_timer env s) = listed s"
  "peer (tcp_stop_timer env s) = peer s" "local_port (tcp_stop_timer env s) = local_port s"
  "mss (tcp_stop_timer env s) = mss s" "snd_win_scale (tcp_stop_timer env s) = snd_win_scale s"
  "rcv_win_scale (tcp_stop_timer env s) = rcv_win_scale s" "ts_val (tcp_stop_timer env s) = ts_val s"
  "ts_recent (tcp_stop_timer env s) = ts_recent s"
  by (simp_all add: tcp_start_timer_def tcp_stop_timer_def case_prod_beta)

lemma keepalive_fields [simp]:
  "flags (tcp_start_keepalive env d s) = flags s" "tcp_state (tcp_start_keepalive env d s) = tcp_state s"
  "snd_seq (tcp_start_keepalive env d s) = snd_seq s" "snd_sent (tcp_start_keepalive env d s) = snd_sent s"
  "snd_win (tcp_start_keepalive env d s) = snd_win s" "rcv_ack (tcp_start_keepalive env d s) = rcv_ack s"
  "rcv_win (tcp_start_keepalive env d s) = rcv_win s" "tx_queue (tcp_start_keepalive env d s) = tx_queue s"
  "rx_queue (tcp_start_keepalive env d s) = rx_queue s" "trace (tcp_start_keepalive env d s) = trace s"
  "sack (tcp_start_keepalive env d s) = sack s" "listed (tcp_start_keepalive env d s) = listed s"
  "peer (tcp_start_keepalive env d s) = peer s" "local_port (tcp_start_keepalive env d s) = local_port s"
  "mss (tcp_start_keepalive env d s) = mss s" "snd_win_scale (tcp_start_keepalive env d s) = snd_win_scale s"
  "rcv_win_scale (tcp_start_keepalive env d s) = rcv_win_scale s" "ts_val (tcp_start_keepalive env d s) = ts_val s"
  "ts_recent (tcp_start_keepalive env d s) = ts_recent s"
  "flags (tcp_stop_keepalive env s) = flags s" "tcp_state (tcp_stop_keepalive env s) = tcp_state s"
  "snd_seq (tcp_stop_keepalive env s) = snd_seq s" "snd_sent (tcp_stop_keepalive env s) = snd_sent s"
  "snd_win (tcp_stop_keepalive env s) = snd_win s" "rcv_ack (tcp_stop_keepalive env s) = rcv_ack s"
  "rcv_win (tcp_stop_keepalive env s) = rcv_win s" "tx_queue (tcp_stop_keepalive env s) = tx_queue s"
  "rx_queue (tcp_stop_keepalive env s) = rx_queue s" "trace (tcp_stop_keepalive env s) = trace s"
  "sack (tcp_stop_keepalive env s) = sack s" "listed (tcp_stop_keepalive env s) = listed s"
  "peer (tcp_stop_keepalive env s) = peer s" "local_port (tcp_stop_keepalive env s) = local_port s"
  "mss (tcp_stop_keepalive env s) = mss s" "snd_win_scale (tcp_stop_keepalive env s) = snd_win_scale s"
  "rcv_win_scale (tcp_stop_keepalive env s) = rcv_win_scale s" "ts_val (tcp_stop_keepalive env s) = ts_val s"
  "ts_recent (tcp_stop_keepalive env s) = ts_recent s"
  by (simp_all add: tcp_start_keepalive_def tcp_stop_keepalive_def case_prod_beta)

lemma wait_fields [simp]:
  "flags (tcp_start_wait env d s) = flags s" "tcp_state (tcp_start_wait env d s) = tcp_state s"
  "snd_seq (tcp_start_wait env d s) = snd_seq s" "snd_sent (tcp_start_wait env d s) = snd_sent s"
  "snd_win (tcp_start_wait env d s) = snd_win s" "rcv_ack (tcp_start_wait env d s) = rcv_ack s"
  "rcv_win (tcp_start_wait env d s) = rcv_win s" "tx_queue (tcp_start_wait env d s) = tx_queue s"
  "rx_queue (tcp_start_wait env d s) = rx_queue s" "trace (tcp_start_wait env d s) = trace s"
  "sack (tcp_start_wait env d s) = sack s" "listed (tcp_start_wait env d s) = listed s"
  "peer (tcp_start_wait env d s) = peer s" "local_port (tcp_start_wait env d s) = local_port s"
  "mss (tcp_start_wait env d s) = mss s" "snd_win_scale (tcp_start_wait env d s) = snd_win_scale s"
  "rcv_win_scale (tcp_start_wait env d s) = rcv_win_scale s" "ts_val (tcp_start_wait env d s) = ts_val s"
  "ts_recent (tcp_start_wait env d s) = ts_recent s"
  "flags (tcp_stop_wait env s) = flags s" "tcp_state (tcp_stop_wait env s) = tcp_state s"
  "snd_seq (tcp_stop_wait env s) = snd_seq s" "snd_sent (tcp_stop_wait env s) = snd_sent s"
  "snd_win (tcp_stop_wait env s) = snd_win s" "rcv_ack (tcp_stop_wait env s) = rcv_ack s"
  "rcv_win (tcp_stop_wait env s) = rcv_win s" "tx_queue (tcp_stop_wait env s) = tx_queue s"
  "rx_queue (tcp_stop_wait env s) = rx_queue s" "trace (tcp_stop_wait env s) = trace s"
  "sack (tcp_stop_wait env s) = sack s" "listed (tcp_stop_wait env s) = listed s"
  "peer (tcp_stop_wait env s) = peer s" "local_port (tcp_stop_wait env s) = local_port s"
  "mss (tcp_stop_wait env s) = mss s" "snd_win_scale (tcp_stop_wait env s) = snd_win_scale s"
  "rcv_win_scale (tcp_stop_wait env s) = rcv_win_scale s" "ts_val (tcp_stop_wait env s) = ts_val s"
  "ts_recent (tcp_stop_wait env s) = ts_recent s"
  by (simp_all add: tcp_start_wait_def tcp_stop_wait_def case_prod_beta)

lemma process_fields [simp]:
  "flags (tcp_process_add s) = flags s" "tcp_state (tcp_process_add s) = tcp_state s"
  "snd_seq (tcp_process_add s) = snd_seq s" "snd_sent (tcp_process_add s) = snd_sent s"
  "snd_win (tcp_process_add s) = snd_win s" "rcv_ack (tcp_process_add s) = rcv_ack s"
  "rcv_win (tcp_process_add s) = rcv_win s" "tx_queue (tcp_process_add s) = tx_queue s"
  "rx_queue (tcp_process_add s) = rx_queue s" "trace (tcp_process_add s) = trace s"
  "sack (tcp_process_add s) = sack s" "listed (tcp_process_add s) = listed s" "peer (tcp_process_add s) = peer s"
  "local_port (tcp_process_add s) = local_port s" "mss (tcp_process_add s) = mss s"
  "snd_win_scale (tcp_process_add s) = snd_win_scale s" "rcv_win_scale (tcp_process_add s) = rcv_win_scale s"
  "ts_val (tcp_process_add s) = ts_val s" "ts_recent (tcp_process_add s) = ts_recent s"
  "flags (tcp_process_del s) = flags s" "tcp_state (tcp_process_del s) = tcp_state s"
  "snd_seq (tcp_process_del s) = snd_seq s" "snd_sent (tcp_process_del s) = snd_sent s"
  "snd_win (tcp_process_del s) = snd_win s" "rcv_ack (tcp_process_del s) = rcv_ack s"
  "rcv_win (tcp_process_del s) = rcv_win s" "tx_queue (tcp_process_del s) = tx_queue s"
  "rx_queue (tcp_process_del s) = rx_queue s" "trace (tcp_process_del s) = trace s"
  "sack (tcp_process_del s) = sack s" "listed (tcp_process_del s) = listed s" "peer (tcp_process_del s) = peer s"
  "local_port (tcp_process_del s) = local_port s" "mss (tcp_process_del s) = mss s"
  "snd_win_scale (tcp_process_del s) = snd_win_scale s" "rcv_win_scale (tcp_process_del s) = rcv_win_scale s"
  "ts_val (tcp_process_del s) = ts_val s" "ts_recent (tcp_process_del s) = ts_recent s"
  "flags (tcp_ref_put s) = flags s" "tcp_state (tcp_ref_put s) = tcp_state s" "snd_seq (tcp_ref_put s) = snd_seq s"
  "snd_sent (tcp_ref_put s) = snd_sent s" "snd_win (tcp_ref_put s) = snd_win s" "rcv_ack (tcp_ref_put s) = rcv_ack s"
  "rcv_win (tcp_ref_put s) = rcv_win s" "tx_queue (tcp_ref_put s) = tx_queue s"
  "rx_queue (tcp_ref_put s) = rx_queue s" "trace (tcp_ref_put s) = trace s" "sack (tcp_ref_put s) = sack s"
  "listed (tcp_ref_put s) = listed s" "peer (tcp_ref_put s) = peer s" "local_port (tcp_ref_put s) = local_port s"
  "mss (tcp_ref_put s) = mss s" "snd_win_scale (tcp_ref_put s) = snd_win_scale s"
  "rcv_win_scale (tcp_ref_put s) = rcv_win_scale s" "ts_val (tcp_ref_put s) = ts_val s"
  "ts_recent (tcp_ref_put s) = ts_recent s"
  by (simp_all add: tcp_process_add_def tcp_process_del_def tcp_ref_get_def tcp_ref_put_def)

lemma pending_flags_fields [simp]:
  "flags (tcp_pending_flags_get s) = flags s" "tcp_state (tcp_pending_flags_get s) = tcp_state s"
  "snd_seq (tcp_pending_flags_get s) = snd_seq s" "snd_sent (tcp_pending_flags_get s) = snd_sent s"
  "snd_win (tcp_pending_flags_get s) = snd_win s" "rcv_ack (tcp_pending_flags_get s) = rcv_ack s"
  "rcv_win (tcp_pending_flags_get s) = rcv_win s" "tx_queue (tcp_pending_flags_get s) = tx_queue s"
  "rx_queue (tcp_pending_flags_get s) = rx_queue s" "trace (tcp_pending_flags_get s) = trace s"
  "sack (tcp_pending_flags_get s) = sack s" "listed (tcp_pending_flags_get s) = listed s"
  "peer (tcp_pending_flags_get s) = peer s" "local_port (tcp_pending_flags_get s) = local_port s"
  "mss (tcp_pending_flags_get s) = mss s" "snd_win_scale (tcp_pending_flags_get s) = snd_win_scale s"
  "rcv_win_scale (tcp_pending_flags_get s) = rcv_win_scale s" "ts_val (tcp_pending_flags_get s) = ts_val s"
  "ts_recent (tcp_pending_flags_get s) = ts_recent s"
  "flags (tcp_pending_flags_put s) = flags s" "tcp_state (tcp_pending_flags_put s) = tcp_state s"
  "snd_seq (tcp_pending_flags_put s) = snd_seq s" "snd_sent (tcp_pending_flags_put s) = snd_sent s"
  "snd_win (tcp_pending_flags_put s) = snd_win s" "rcv_ack (tcp_pending_flags_put s) = rcv_ack s"
  "rcv_win (tcp_pending_flags_put s) = rcv_win s" "tx_queue (tcp_pending_flags_put s) = tx_queue s"
  "rx_queue (tcp_pending_flags_put s) = rx_queue s" "trace (tcp_pending_flags_put s) = trace s"
  "sack (tcp_pending_flags_put s) = sack s" "listed (tcp_pending_flags_put s) = listed s"
  "peer (tcp_pending_flags_put s) = peer s" "local_port (tcp_pending_flags_put s) = local_port s"
  "mss (tcp_pending_flags_put s) = mss s" "snd_win_scale (tcp_pending_flags_put s) = snd_win_scale s"
  "rcv_win_scale (tcp_pending_flags_put s) = rcv_win_scale s" "ts_val (tcp_pending_flags_put s) = ts_val s"
  "ts_recent (tcp_pending_flags_put s) = ts_recent s"
  by (simp_all add: tcp_pending_flags_get_def tcp_pending_flags_put_def case_prod_beta)

lemma pending_data_fields [simp]:
  "flags (tcp_pending_data_get s) = flags s" "tcp_state (tcp_pending_data_get s) = tcp_state s"
  "snd_seq (tcp_pending_data_get s) = snd_seq s" "snd_sent (tcp_pending_data_get s) = snd_sent s"
  "snd_win (tcp_pending_data_get s) = snd_win s" "rcv_ack (tcp_pending_data_get s) = rcv_ack s"
  "rcv_win (tcp_pending_data_get s) = rcv_win s" "tx_queue (tcp_pending_data_get s) = tx_queue s"
  "rx_queue (tcp_pending_data_get s) = rx_queue s" "trace (tcp_pending_data_get s) = trace s"
  "sack (tcp_pending_data_get s) = sack s" "listed (tcp_pending_data_get s) = listed s"
  "peer (tcp_pending_data_get s) = peer s" "local_port (tcp_pending_data_get s) = local_port s"
  "mss (tcp_pending_data_get s) = mss s" "snd_win_scale (tcp_pending_data_get s) = snd_win_scale s"
  "rcv_win_scale (tcp_pending_data_get s) = rcv_win_scale s" "ts_val (tcp_pending_data_get s) = ts_val s"
  "ts_recent (tcp_pending_data_get s) = ts_recent s"
  "flags ((tcp_pending_data_put ^^ n) s) = flags s" "tcp_state ((tcp_pending_data_put ^^ n) s) = tcp_state s"
  "snd_seq ((tcp_pending_data_put ^^ n) s) = snd_seq s" "snd_sent ((tcp_pending_data_put ^^ n) s) = snd_sent s"
  "snd_win ((tcp_pending_data_put ^^ n) s) = snd_win s" "rcv_ack ((tcp_pending_data_put ^^ n) s) = rcv_ack s"
  "rcv_win ((tcp_pending_data_put ^^ n) s) = rcv_win s" "tx_queue ((tcp_pending_data_put ^^ n) s) = tx_queue s"
  "rx_queue ((tcp_pending_data_put ^^ n) s) = rx_queue s" "trace ((tcp_pending_data_put ^^ n) s) = trace s"
  "sack ((tcp_pending_data_put ^^ n) s) = sack s" "listed ((tcp_pending_data_put ^^ n) s) = listed s"
  "peer ((tcp_pending_data_put ^^ n) s) = peer s" "local_port ((tcp_pending_data_put ^^ n) s) = local_port s"
  "mss ((tcp_pending_data_put ^^ n) s) = mss s" "snd_win_scale ((tcp_pending_data_put ^^ n) s) = snd_win_scale s"
  "rcv_win_scale ((tcp_pending_data_put ^^ n) s) = rcv_win_scale s"
  "ts_val ((tcp_pending_data_put ^^ n) s) = ts_val s" "ts_recent ((tcp_pending_data_put ^^ n) s) = ts_recent s"
  by (simp_all add: tcp_pending_data_get_def tcp_pending_data_puts case_prod_beta)

lemma assert_fields [simp]:
  "flags (tcp_assert c s) = flags s" "tcp_state (tcp_assert c s) = tcp_state s"
  "snd_seq (tcp_assert c s) = snd_seq s" "snd_sent (tcp_assert c s) = snd_sent s"
  "snd_win (tcp_assert c s) = snd_win s" "rcv_ack (tcp_assert c s) = rcv_ack s"
  "rcv_win (tcp_assert c s) = rcv_win s" "tx_queue (tcp_assert c s) = tx_queue s"
  "rx_queue (tcp_assert c s) = rx_queue s" "trace (tcp_assert c s) = trace s" "sack (tcp_assert c s) = sack s"
  "listed (tcp_assert c s) = listed s" "peer (tcp_assert c s) = peer s" "local_port (tcp_assert c s) = local_port s"
  "mss (tcp_assert c s) = mss s" "snd_win_scale (tcp_assert c s) = snd_win_scale s"
  "rcv_win_scale (tcp_assert c s) = rcv_win_scale s" "ts_val (tcp_assert c s) = ts_val s"
  "ts_recent (tcp_assert c s) = ts_recent s"
  "flags (tcp_dump_state s) = flags s" "tcp_state (tcp_dump_state s) = tcp_state s"
  "snd_seq (tcp_dump_state s) = snd_seq s" "snd_sent (tcp_dump_state s) = snd_sent s"
  "snd_win (tcp_dump_state s) = snd_win s" "rcv_ack (tcp_dump_state s) = rcv_ack s"
  "rcv_win (tcp_dump_state s) = rcv_win s" "tx_queue (tcp_dump_state s) = tx_queue s"
  "rx_queue (tcp_dump_state s) = rx_queue s" "trace (tcp_dump_state s) = trace s" "sack (tcp_dump_state s) = sack s"
  "listed (tcp_dump_state s) = listed s" "peer (tcp_dump_state s) = peer s"
  "local_port (tcp_dump_state s) = local_port s" "mss (tcp_dump_state s) = mss s"
  "snd_win_scale (tcp_dump_state s) = snd_win_scale s" "rcv_win_scale (tcp_dump_state s) = rcv_win_scale s"
  "ts_val (tcp_dump_state s) = ts_val s" "ts_recent (tcp_dump_state s) = ts_recent s"
  by (simp_all add: tcp_assert_def tcp_dump_state_def)

section \<open>The bits of the state\<close>

lemmas state_defs = TCP_STATE_SENT_def TCP_STATE_ACKED_def TCP_STATE_RCVD_def TCP_SYN_def TCP_FIN_def
  TCP_ACK_def TCP_RST_def TCP_PSH_def

lemma and_two_power: "(x :: u32) AND 2 ^ n = 0 \<longleftrightarrow> \<not> bit x n"
  by (rule and_exp_eq_0_iff_not_bit)

lemma state_and_zero [simp]:
  "x AND TCP_STATE_SENT TCP_FIN = 0 \<longleftrightarrow> \<not> bit x 0"
  "x AND TCP_STATE_SENT TCP_SYN = 0 \<longleftrightarrow> \<not> bit x 1"
  "x AND TCP_STATE_ACKED TCP_SYN = 0 \<longleftrightarrow> \<not> bit x 9"
  "x AND TCP_STATE_RCVD TCP_SYN = 0 \<longleftrightarrow> \<not> bit x 17"
  "x AND TCP_STATE_RCVD TCP_FIN = 0 \<longleftrightarrow> \<not> bit x 16"
  using and_two_power [of x 0] and_two_power [of x 1] and_two_power [of x 9] and_two_power [of x 17]
    and_two_power [of x 16]
  by (simp_all add: state_defs push_bit_eq_mult)

lemma bit_two_power_is: "bit (2 ^ n :: 'a::len word) m \<longleftrightarrow> m = n \<and> n < LENGTH('a)"
  by (auto simp: bit_simps possible_bit_def)

lemma bit_states [simp]:
  "bit (TCP_STATE_SENT TCP_FIN) n \<longleftrightarrow> n = 0"
  "bit (TCP_STATE_SENT TCP_ACK) n \<longleftrightarrow> n = 4"
  "bit (TCP_STATE_RCVD TCP_SYN) n \<longleftrightarrow> n = 17"
  "bit (TCP_STATE_RCVD TCP_FIN) n \<longleftrightarrow> n = 16"
  using bit_two_power_is [where ?'a = 32, of 0 n] bit_two_power_is [where ?'a = 32, of 4 n]
    bit_two_power_is [where ?'a = 32, of 17 n] bit_two_power_is [where ?'a = 32, of 16 n]
  by (simp_all add: state_defs push_bit_eq_mult)

lemma bit_acked [simp]: "bit (TCP_STATE_ACKED f) n \<longleftrightarrow> 8 \<le> n \<and> bit f (n - 8)"
  using bit_imp_le_length [of f "n - 8"] by (auto simp: TCP_STATE_ACKED_def bit_simps)

lemma bit_u8_high [simp]: "\<not> bit (f :: u8) 8" "\<not> bit (f :: u8) 9"
  using bit_imp_le_length [of f 8] bit_imp_le_length [of f 9] by auto

lemma bit_flags_sending [simp]:
  "bit (TCP_FLAGS_SENDING st) n \<longleftrightarrow> n < 8 \<and> bit st n \<and> \<not> bit st (n + 8)"
  by (auto simp: TCP_FLAGS_SENDING_def TCP_FLAGS_SENT_def TCP_FLAGS_ACKED_def bit_simps add.commute)

lemma bit_syn_fin [simp]:
  "bit TCP_SYN n \<longleftrightarrow> n = 1" "bit TCP_FIN n \<longleftrightarrow> n = 0" "bit (TCP_SYN OR TCP_FIN) n \<longleftrightarrow> n = 0 \<or> n = 1"
proof -
  show a: "bit TCP_SYN n \<longleftrightarrow> n = 1" "bit TCP_FIN n \<longleftrightarrow> n = 0"
    using bit_two_power_is [where ?'a = 8, of 1 n] bit_two_power_is [where ?'a = 8, of 0 n]
    by (simp_all add: state_defs)
  show "bit (TCP_SYN OR TCP_FIN) n \<longleftrightarrow> n = 0 \<or> n = 1" by (auto simp: bit_or_iff a)
qed

lemma and_pair:
  fixes x :: "'a::len word"
  assumes "a < LENGTH('a)" "b < LENGTH('a)" "a \<noteq> b"
  shows "x AND (2 ^ a OR 2 ^ b) = 0 \<longleftrightarrow> \<not> bit x a \<and> \<not> bit x b"
    "x AND (2 ^ a OR 2 ^ b) = 2 ^ a \<longleftrightarrow> bit x a \<and> \<not> bit x b"
    "x AND (2 ^ a OR 2 ^ b) = 2 ^ a OR 2 ^ b \<longleftrightarrow> bit x a \<and> bit x b"
  using assms by (auto simp: bit_eq_iff [where ?'a = "'a word"] bit_and_iff bit_or_iff bit_two_power_is)

lemma flags_and_zero [simp]:
  "f AND TCP_SYN = 0 \<longleftrightarrow> \<not> bit f 1" "f AND TCP_FIN = 0 \<longleftrightarrow> \<not> bit f 0"
  "f AND (TCP_SYN OR TCP_FIN) = 0 \<longleftrightarrow> \<not> bit f 0 \<and> \<not> bit f 1"
  using and_exp_eq_0_iff_not_bit [of f 1] and_exp_eq_0_iff_not_bit [of f 0] and_pair(1) [of 1 0 f]
  by (auto simp: state_defs)

lemma can_send_data_iff [simp]: "TCP_CAN_SEND_DATA st \<longleftrightarrow> bit st 9 \<and> \<not> bit st 0"
  using and_pair(2) [of 9 0 st] by (simp add: TCP_CAN_SEND_DATA_def state_defs push_bit_eq_mult)

lemma has_been_established_iff [simp]: "TCP_HAS_BEEN_ESTABLISHED st \<longleftrightarrow> bit st 9 \<and> bit st 17"
  using and_pair(3) [of 9 17 st] by (simp add: TCP_HAS_BEEN_ESTABLISHED_def state_defs push_bit_eq_mult)

lemma closed_gracefully_iff [simp]: "TCP_CLOSED_GRACEFULLY st \<longleftrightarrow> bit st 8 \<and> bit st 16"
  using and_pair(3) [of 8 16 st] by (simp add: TCP_CLOSED_GRACEFULLY_def state_defs push_bit_eq_mult)

section \<open>What does not touch reception\<close>

text \<open>The data delivered to the application so far, in order.\<close>

fun delivered_calls :: "tcp_call list \<Rightarrow> bytes" where
  "delivered_calls [] = []"
| "delivered_calls (Xfer_deliver d rc # calls) = delivered_calls calls @ d"
| "delivered_calls (_ # calls) = delivered_calls calls"

abbreviation delivered :: "tcp_sys \<Rightarrow> bytes" where
  "delivered s \<equiv> delivered_calls (trace s)"

definition syn_rcvd :: "tcp_sys \<Rightarrow> bool" where
  "syn_rcvd s \<longleftrightarrow> bit (tcp_state s) 17"

definition fin_rcvd :: "tcp_sys \<Rightarrow> bool" where
  "fin_rcvd s \<longleftrightarrow> bit (tcp_state s) 16"

text \<open>
  A step that leaves reception alone: the same data is expected next, packets may have been
  dropped from the end of the receive queue, and nothing has been delivered.
\<close>

definition rx_frame :: "tcp_sys \<Rightarrow> tcp_sys \<Rightarrow> bool" where
  "rx_frame s t \<longleftrightarrow>
     rcv_ack t = rcv_ack s \<and> (\<exists>m. rx_queue t = take m (rx_queue s)) \<and>
     delivered t = delivered s \<and> (syn_rcvd t \<longleftrightarrow> syn_rcvd s) \<and> (fin_rcvd t \<longrightarrow> fin_rcvd s)"

lemma rx_frame_refl [simp, intro]: "rx_frame s s"
  by (auto simp: rx_frame_def intro: exI [of _ "length (rx_queue s)"])

lemma rx_frame_trans: "rx_frame s t \<Longrightarrow> rx_frame t u \<Longrightarrow> rx_frame s u"
  by (fastforce simp: rx_frame_def take_take)

lemma rx_frameI:
  assumes "rcv_ack t = rcv_ack s" "rx_queue t = rx_queue s" "delivered t = delivered s"
    "bit (tcp_state t) 17 \<longleftrightarrow> bit (tcp_state s) 17" "bit (tcp_state t) 16 \<longleftrightarrow> bit (tcp_state s) 16"
  shows "rx_frame s t"
  using assms by (auto simp: rx_frame_def syn_rcvd_def fin_rcvd_def intro: exI [of _ "length (rx_queue s)"])


lemma tx_queue_remove_fields [simp]:
  "tx_queue (tcp_tx_queue_remove n s) = fst (snd (snd (process_tx_queue n True (tx_queue s))))"
  "rcv_ack (tcp_tx_queue_remove n s) = rcv_ack s" "rx_queue (tcp_tx_queue_remove n s) = rx_queue s"
  "trace (tcp_tx_queue_remove n s) = trace s" "tcp_state (tcp_tx_queue_remove n s) = tcp_state s"
  "flags (tcp_tx_queue_remove n s) = flags s" "snd_seq (tcp_tx_queue_remove n s) = snd_seq s"
  "snd_sent (tcp_tx_queue_remove n s) = snd_sent s" "snd_win (tcp_tx_queue_remove n s) = snd_win s"
  "listed (tcp_tx_queue_remove n s) = listed s"
  by (simp_all add: tcp_tx_queue_remove_def case_prod_beta)

lemma rx_frame_ack_fin: "rx_frame s (tcp_ack_fin s)"
  by (rule rx_frameI) (simp_all add: tcp_ack_fin_def bit_or_iff)

lemma rx_frame_ack_new: "rx_frame s (tcp_ack_new env ack ack_len s)"
  unfolding tcp_ack_new_def Let_def
  by (rule rx_frame_trans [OF _ rx_frame_ack_fin]) (rule rx_frameI; simp add: bit_or_iff)

lemma rx_frame_rx_ack: "rx_frame s (snd (tcp_rx_ack env ack win s))"
proof -
  have "rx_frame s (if bit (tcp_state s) 0 then s\<lparr>snd_win := win\<rparr>
      else tcp_start_keepalive env TCP_KEEPALIVE_DELAY (s\<lparr>snd_win := win\<rparr>))"
    by (rule rx_frameI) simp_all
  then show ?thesis
    using rx_frame_trans [OF _ rx_frame_ack_new] by (auto simp: tcp_rx_ack_def Let_def)
qed

lemma rx_frame_close: "rx_frame s (tcp_close env rc s)"
proof (cases "bit (tcp_state s) 17")
  case False
  have "rcv_ack (tcp_close env rc s) = rcv_ack s" "rx_queue (tcp_close env rc s) = []"
    "delivered (tcp_close env rc s) = delivered s" "\<not> bit (tcp_state (tcp_close env rc s)) 17"
    "\<not> bit (tcp_state (tcp_close env rc s)) 16"
    using False
    by (simp_all add: tcp_close_def tcp_delete_def tcp_intf_shutdown_def Let_def TCP_CLOSED_def TCP_RST_def)
  then show ?thesis using False by (auto simp: rx_frame_def syn_rcvd_def fin_rcvd_def intro: exI [of _ 0])
next
  case True
  have 1: "rx_frame s ((tcp_intf_shutdown rc s)\<lparr>flags := flags s OR TCP_XFER_CLOSED\<rparr>)"
    by (rule rx_frameI) (simp_all add: tcp_intf_shutdown_def)
  have 2: "rx_frame t (tcp_close_syn env t)" for t
    by (simp add: tcp_close_syn_def rx_frame_rx_ack)
  have 3: "rx_frame t (tcp_stop_keepalive env t)" for t by (rule rx_frameI) simp_all
  have 4: "rx_frame t (tcp_close_fin t)" for t
    by (rule rx_frameI) (simp_all add: tcp_close_fin_def bit_or_iff)
  show ?thesis using True rx_frame_trans [OF rx_frame_trans [OF rx_frame_trans [OF 1 2] 3] 4]
    by (simp add: tcp_close_def Let_def tcp_intf_shutdown_def)
qed

lemma pkt_push_fields [simp]:
  "flags (snd (pkt_push hdr ps)) = flags (snd ps)" "tcp_state (snd (pkt_push hdr ps)) = tcp_state (snd ps)"
  "snd_seq (snd (pkt_push hdr ps)) = snd_seq (snd ps)" "snd_sent (snd (pkt_push hdr ps)) = snd_sent (snd ps)"
  "snd_win (snd (pkt_push hdr ps)) = snd_win (snd ps)" "rcv_ack (snd (pkt_push hdr ps)) = rcv_ack (snd ps)"
  "rcv_win (snd (pkt_push hdr ps)) = rcv_win (snd ps)" "tx_queue (snd (pkt_push hdr ps)) = tx_queue (snd ps)"
  "rx_queue (snd (pkt_push hdr ps)) = rx_queue (snd ps)" "trace (snd (pkt_push hdr ps)) = trace (snd ps)"
  "sack (snd (pkt_push hdr ps)) = sack (snd ps)" "listed (snd (pkt_push hdr ps)) = listed (snd ps)"
  "peer (snd (pkt_push hdr ps)) = peer (snd ps)" "local_port (snd (pkt_push hdr ps)) = local_port (snd ps)"
  "mss (snd (pkt_push hdr ps)) = mss (snd ps)" "snd_win_scale (snd (pkt_push hdr ps)) = snd_win_scale (snd ps)"
  "rcv_win_scale (snd (pkt_push hdr ps)) = rcv_win_scale (snd ps)" "ts_val (snd (pkt_push hdr ps)) = ts_val (snd ps)"
  "ts_recent (snd (pkt_push hdr ps)) = ts_recent (snd ps)"
  by (simp_all add: pkt_push_def case_prod_beta Let_def)

lemma expand_rcv_win_fields [simp]:
  "flags (tcp_expand_rcv_win env s) = flags s" "tcp_state (tcp_expand_rcv_win env s) = tcp_state s"
  "snd_seq (tcp_expand_rcv_win env s) = snd_seq s" "snd_sent (tcp_expand_rcv_win env s) = snd_sent s"
  "snd_win (tcp_expand_rcv_win env s) = snd_win s" "rcv_ack (tcp_expand_rcv_win env s) = rcv_ack s"
  "tx_queue (tcp_expand_rcv_win env s) = tx_queue s" "rx_queue (tcp_expand_rcv_win env s) = rx_queue s"
  "trace (tcp_expand_rcv_win env s) = trace s" "sack (tcp_expand_rcv_win env s) = sack s"
  "listed (tcp_expand_rcv_win env s) = listed s" "peer (tcp_expand_rcv_win env s) = peer s"
  "local_port (tcp_expand_rcv_win env s) = local_port s" "mss (tcp_expand_rcv_win env s) = mss s"
  "snd_win_scale (tcp_expand_rcv_win env s) = snd_win_scale s"
  "rcv_win_scale (tcp_expand_rcv_win env s) = rcv_win_scale s" "ts_val (tcp_expand_rcv_win env s) = ts_val s"
  "ts_recent (tcp_expand_rcv_win env s) = ts_recent s"
  by (simp_all add: tcp_expand_rcv_win_def Let_def)

lemma sack_fields [simp]:
  "flags (snd (tcp_sack q s)) = flags s" "tcp_state (snd (tcp_sack q s)) = tcp_state s"
  "snd_seq (snd (tcp_sack q s)) = snd_seq s" "snd_sent (snd (tcp_sack q s)) = snd_sent s"
  "snd_win (snd (tcp_sack q s)) = snd_win s" "rcv_ack (snd (tcp_sack q s)) = rcv_ack s"
  "rcv_win (snd (tcp_sack q s)) = rcv_win s" "tx_queue (snd (tcp_sack q s)) = tx_queue s"
  "rx_queue (snd (tcp_sack q s)) = rx_queue s" "trace (snd (tcp_sack q s)) = trace s"
  "listed (snd (tcp_sack q s)) = listed s" "peer (snd (tcp_sack q s)) = peer s"
  "local_port (snd (tcp_sack q s)) = local_port s" "mss (snd (tcp_sack q s)) = mss s"
  "snd_win_scale (snd (tcp_sack q s)) = snd_win_scale s" "rcv_win_scale (snd (tcp_sack q s)) = rcv_win_scale s"
  "ts_val (snd (tcp_sack q s)) = ts_val s" "ts_recent (snd (tcp_sack q s)) = ts_recent s"
  by (simp_all add: tcp_sack_def Let_def)

lemma push_options_fields [simp]:
  "flags (snd (tcp_push_options env flgs q ps)) = flags (snd ps)"
  "tcp_state (snd (tcp_push_options env flgs q ps)) = tcp_state (snd ps)"
  "snd_seq (snd (tcp_push_options env flgs q ps)) = snd_seq (snd ps)"
  "snd_sent (snd (tcp_push_options env flgs q ps)) = snd_sent (snd ps)"
  "snd_win (snd (tcp_push_options env flgs q ps)) = snd_win (snd ps)"
  "rcv_ack (snd (tcp_push_options env flgs q ps)) = rcv_ack (snd ps)"
  "rcv_win (snd (tcp_push_options env flgs q ps)) = rcv_win (snd ps)"
  "tx_queue (snd (tcp_push_options env flgs q ps)) = tx_queue (snd ps)"
  "rx_queue (snd (tcp_push_options env flgs q ps)) = rx_queue (snd ps)"
  "trace (snd (tcp_push_options env flgs q ps)) = trace (snd ps)"
  "listed (snd (tcp_push_options env flgs q ps)) = listed (snd ps)"
  "peer (snd (tcp_push_options env flgs q ps)) = peer (snd ps)"
  "local_port (snd (tcp_push_options env flgs q ps)) = local_port (snd ps)"
  "mss (snd (tcp_push_options env flgs q ps)) = mss (snd ps)"
  "snd_win_scale (snd (tcp_push_options env flgs q ps)) = snd_win_scale (snd ps)"
  "rcv_win_scale (snd (tcp_push_options env flgs q ps)) = rcv_win_scale (snd ps)"
  "ts_val (snd (tcp_push_options env flgs q ps)) = ts_val (snd ps)"
  "ts_recent (snd (tcp_push_options env flgs q ps)) = ts_recent (snd ps)"
  by (simp_all add: tcp_push_options_def push_sack_option_def push_ts_option_def push_syn_options_def case_prod_beta)

lemma xmit_packet_calls:
  "\<exists>pkt dest rc. trace (tcp_xmit_packet env sack_seq len flgs s) = Tcpip_tx pkt dest rc # trace s"
  by (simp add: tcp_xmit_packet_def Let_def case_prod_beta split: option.split)

lemma xmit_packet_fields [simp]:
  "rcv_ack (tcp_xmit_packet env sack_seq len flgs s) = rcv_ack s"
  "rx_queue (tcp_xmit_packet env sack_seq len flgs s) = rx_queue s"
  "tcp_state (tcp_xmit_packet env sack_seq len flgs s) = tcp_state s"
  "tx_queue (tcp_xmit_packet env sack_seq len flgs s) = tx_queue s"
  "snd_seq (tcp_xmit_packet env sack_seq len flgs s) = snd_seq s"
  "snd_sent (tcp_xmit_packet env sack_seq len flgs s) = snd_sent s"
  "snd_win (tcp_xmit_packet env sack_seq len flgs s) = snd_win s"
  "listed (tcp_xmit_packet env sack_seq len flgs s) = listed s"
  by (simp_all add: tcp_xmit_packet_def Let_def case_prod_beta split: option.split)

lemma rx_frame_xmit_packet: "rx_frame s (tcp_xmit_packet env sack_seq len flgs s)"
  using xmit_packet_calls [of env sack_seq len flgs s] by (intro rx_frameI) auto

lemma rx_frame_alloc: "rx_frame s (snd (tcp_alloc_iob env len s))"
  by (auto simp: tcp_alloc_iob_def rx_frame_def syn_rcvd_def fin_rcvd_def case_prod_beta)

lemma rx_frame_xmit_sack: "rx_frame s (tcp_xmit_sack env sack_seq s)"
proof (cases "running (timer s)")
  case False
  define s2 where "s2 = (if TCP_FLAGS_SENDING (tcp_state s) AND (TCP_SYN OR TCP_FIN) \<noteq> 0
      then tcp_assert (\<not> (TCP_FLAGS_SENDING (tcp_state s) AND TCP_SYN \<noteq> 0 \<and>
             TCP_FLAGS_SENDING (tcp_state s) AND TCP_FIN \<noteq> 0)) s else s)\<lparr>snd_sent := tcp_xmit_seq_len s\<rparr>"
  define s3 where "s3 = (if tcp_xmit_seq_len s \<noteq> 0 then tcp_start_timer env s2 else s2)"
  have 2: "rx_frame s s2" by (rule rx_frameI) (simp_all add: s2_def)
  have 3: "rx_frame s s3" by (rule rx_frameI) (simp_all add: s3_def s2_def)
  obtain ok s4 where a: "tcp_alloc_iob env (tcp_xmit_len s + TCP_MAX_HEADER_LEN) s3 = (ok, s4)" by fastforce
  have 4: "rx_frame s s4" using rx_frame_trans [OF 3 rx_frame_alloc] a by (metis snd_conv)
  have "tcp_xmit_sack env sack_seq s =
      (if tcp_xmit_seq_len s = 0 \<and> flags s2 AND TCP_ACK_PENDING = 0 then s2
       else if ok then tcp_xmit_packet env sack_seq (tcp_xmit_len s) (TCP_FLAGS_SENDING (tcp_state s)) s4 else s4)"
    using False a unfolding tcp_xmit_sack_def Let_def s2_def [symmetric] s3_def [symmetric]
    by (simp split: bool.split)
  then show ?thesis using 2 4 rx_frame_trans [OF 4 rx_frame_xmit_packet] by simp
qed (simp add: tcp_xmit_sack_def)

lemma rx_frame_xmit: "rx_frame s (tcp_xmit env s)"
  by (simp add: tcp_xmit_def rx_frame_xmit_sack)

lemma rx_frame_xfer_deliver: "rx_frame s (tcp_xfer_deliver env iobuf s)"
proof -
  have "rx_frame s (tcp_pending_data_get
      (s\<lparr>tx_queue := tx_queue s @ [iobuf], trace := App_data iobuf # trace s\<rparr>))"
    by (rule rx_frameI) simp_all
  then show ?thesis unfolding tcp_xfer_deliver_def by (rule rx_frame_trans [OF _ rx_frame_xmit])
qed

lemma rx_frame_app_call: "rx_frame s (run_app_call env call s)"
  by (cases call)
    (simp_all add: rx_frame_xfer_deliver tcp_xfer_close_def rx_frame_trans [OF rx_frame_close rx_frame_xmit])

lemma rx_frame_app_calls: "rx_frame s (fold (run_app_call env) calls s)"
proof (induction calls arbitrary: s)
  case (Cons c calls)
  show ?case using rx_frame_trans [OF rx_frame_app_call Cons] by simp
qed simp

lemma rx_frame_window_changed: "rx_frame s (tcp_xfer_window_changed env s)"
proof -
  have "rx_frame s (s\<lparr>trace := Xfer_window_changed # trace s\<rparr>)" by (rule rx_frameI) simp_all
  then show ?thesis
    unfolding tcp_xfer_window_changed_def by (auto intro: rx_frame_trans [OF _ rx_frame_app_calls])
qed

text \<open>A delivery: the data is handed over, and whatever the application does leaves reception alone.\<close>

lemma rx_frame_deliver_iob:
  "\<exists>rc. rx_frame (s\<lparr>trace := Xfer_deliver data rc # trace s\<rparr>) (snd (tcp_xfer_deliver_iob env data s))"
  by (auto simp: tcp_xfer_deliver_iob_def Let_def case_prod_beta intro: rx_frame_app_calls)

lemma rx_seq_fields [simp]:
  "rcv_ack (tcp_rx_seq n s) = rcv_ack s + n" "rx_queue (tcp_rx_seq n s) = rx_queue s"
  "trace (tcp_rx_seq n s) = trace s" "tcp_state (tcp_rx_seq n s) = tcp_state s"
  by (simp_all add: tcp_rx_seq_def Let_def)

lemma rx_queue_shrinks: "rx_frame s t \<Longrightarrow> length (rx_queue t) \<le> length (rx_queue s)"
  by (auto simp: rx_frame_def)

lemma rx_data_shrinks: "length (rx_queue (snd (tcp_rx_data env seq data s))) \<le> length (rx_queue s)"
proof -
  have "length (rx_queue (snd (tcp_xfer_deliver_iob env d t))) \<le> length (rx_queue t)" for d t
    using rx_frame_deliver_iob [where s = t and data = d and env = env] rx_queue_shrinks by fastforce
  from this [of "drop (unat (rcv_ack s - seq)) data" "tcp_rx_seq (of_nat (length data) - (rcv_ack s - seq)) s"]
  show ?thesis by (simp add: tcp_rx_data_def Let_def)
qed

lemma rx_fin_shrinks: "length (rx_queue (tcp_rx_fin env seq s)) \<le> length (rx_queue s)"
  using rx_queue_shrinks [OF rx_frame_close [of "tcp_rx_seq 1 s\<lparr>tcp_state := tcp_state s OR TCP_STATE_RCVD TCP_FIN\<rparr>" env None]]
  by (simp add: tcp_rx_fin_def Let_def)

lemma process_rx_one_shrinks: "length (rx_queue (tcp_process_rx_one env q s)) \<le> length (rx_queue s)"
  using rx_data_shrinks [of env "rxq_seq q" "rxq_data q" s]
    le_trans [OF rx_fin_shrinks rx_data_shrinks [of env "rxq_seq q" "rxq_data q" s]]
  by (simp add: tcp_process_rx_one_def Let_def)

section \<open>Processing the receive queue\<close>

text \<open>
  The loop takes a packet from the queue in each iteration, and nothing it calls adds one.
\<close>

function tcp_process_rx_queue :: "tcp_env \<Rightarrow> tcp_sys \<Rightarrow> tcp_sys" where
  "tcp_process_rx_queue env s =
     (case rx_queue s of
        [] \<Rightarrow> s
      | q # queue \<Rightarrow>
          if tcp_cmp (rxq_seq q) (rcv_ack s) > 0 then s
          else tcp_process_rx_queue env (tcp_process_rx_one env q (s\<lparr>rx_queue := queue\<rparr>)))"
  by pat_completeness auto

termination
proof (relation "measure (\<lambda>(env, s). length (rx_queue s))", goal_cases)
  case (2 env s q queue)
  then show ?case using process_rx_one_shrinks [of env q "s\<lparr>rx_queue := queue\<rparr>"] by simp
qed simp

declare tcp_process_rx_queue.simps [simp del]

section \<open>Timers\<close>

definition tcp_expired :: "tcp_env \<Rightarrow> bool \<Rightarrow> tcp_sys \<Rightarrow> tcp_sys" where
  "tcp_expired env over s =
     (let s1 = tcp_assert (tcp_state s \<in> {TCP_SYN_SENT, TCP_SYN_RCVD, TCP_ESTABLISHED, TCP_FIN_WAIT_1,
                 TCP_CLOSE_WAIT, TCP_CLOSING_OR_LAST_ACK}) s
      in if over then tcp_close env (Some ETIMEDOUT) (tcp_dump_state (s1\<lparr>tcp_state := TCP_CLOSED\<rparr>))
         else tcp_xmit env s1)"

definition tcp_keepalive_expired :: "tcp_env \<Rightarrow> bool \<Rightarrow> tcp_sys \<Rightarrow> tcp_sys" where
  "tcp_keepalive_expired env over s =
     (let s1 = tcp_start_keepalive env TCP_KEEPALIVE_DELAY s
      in tcp_xmit env (s1\<lparr>flags := flags s1 OR TCP_ACK_PENDING\<rparr>))"

definition tcp_wait_expired :: "tcp_env \<Rightarrow> bool \<Rightarrow> tcp_sys \<Rightarrow> tcp_sys" where
  "tcp_wait_expired env over s =
     (let s1 = tcp_assert (tcp_state s = TCP_TIME_WAIT) s
      in tcp_close env None (tcp_dump_state (s1\<lparr>tcp_state := TCP_CLOSED\<rparr>)))"

section \<open>Received packets\<close>

text \<open>
  The options behind the header; \<open>data\<close> is what remains of them.  The length byte of an option
  is its second byte.
\<close>

definition option_min :: "u8 \<Rightarrow> nat" where
  "option_min kind =
     (if kind = TCP_OPTION_WS then 3 else if kind = TCP_OPTION_SACK_PERMITTED then 2
      else if kind = TCP_OPTION_TS then 10 else 2)"

definition option_record :: "bytes \<Rightarrow> tcp_options \<Rightarrow> tcp_options" where
  "option_record data options =
     (if data ! 0 = TCP_OPTION_WS then options\<lparr>wsopt := Some (data ! 2)\<rparr>
      else if data ! 0 = TCP_OPTION_SACK_PERMITTED then options\<lparr>spopt := True\<rparr>
      else if data ! 0 = TCP_OPTION_TS
      then options\<lparr>tsopt := Some (get32 (data ! 2) (data ! 3) (data ! 4) (data ! 5))\<rparr>
      else options)"

function tcp_rx_opts :: "bytes \<Rightarrow> tcp_options \<Rightarrow> errno + tcp_options" where
  "tcp_rx_opts data options =
     (if data = [] then Inr options
      else if data ! 0 = TCP_OPTION_END then Inr options
      else if data ! 0 = TCP_OPTION_NOP then tcp_rx_opts (drop 1 data) options
      else if length data < option_min (data ! 0) then Inl EINVAL
      else if unat (data ! 1) < option_min (data ! 0) then Inl EINVAL
      else if unat (data ! 1) > length data then Inl EINVAL
      else tcp_rx_opts (drop (unat (data ! 1)) data) (option_record data options))"
  by pat_completeness auto

termination
  by (relation "measure (\<lambda>(data, options). length data)")
    (auto simp: option_min_def split: if_splits)

declare tcp_rx_opts.simps [simp del]

definition no_options :: tcp_options where
  "no_options = \<lparr>wsopt = None, spopt = False, tsopt = None\<rparr>"

text \<open>The part of \<^verbatim>\<open>tcp_rx()\<close> after the connection has been found.\<close>

definition tcp_rx_finish :: "tcp_env \<Rightarrow> u32 \<Rightarrow> nat \<Rightarrow> tcp_sys \<Rightarrow> tcp_sys" where
  "tcp_rx_finish env seq old_xfer_window s =
     (let s1 = tcp_dump_state s;
          s2 = (if rx_queue s1 = [] then tcp_process_add s1 else tcp_xmit_sack env seq s1);
          s3 = (if TCP_CLOSED_GRACEFULLY (tcp_state s2)
                then tcp_start_wait env (2 * TCP_MSL) (tcp_stop_wait env s2) else s2)
      in if tcp_xfer_window s3 \<noteq> old_xfer_window then tcp_xfer_window_changed env s3 else s3)"

definition tcp_rx_body ::
  "tcp_env \<Rightarrow> u32 \<Rightarrow> u8 \<Rightarrow> tcp_options \<Rightarrow> bytes \<Rightarrow> nat \<Rightarrow> tcp_sys \<Rightarrow> errno option \<times> tcp_sys" where
  "tcp_rx_body env seq flgs options data old_xfer_window s =
     (let s1 = (if tcp_state s AND TCP_STATE_RCVD TCP_SYN \<noteq> 0 \<and> seq \<noteq> rcv_ack s
                then s\<lparr>flags := flags s OR TCP_ACK_PENDING\<rparr> else s);
          s2 = (if flgs AND TCP_SYN \<noteq> 0 then tcp_rx_syn seq options s1 else s1);
          seq = (if flgs AND TCP_SYN \<noteq> 0 then seq + 1 else seq)
      in case (if flgs AND TCP_RST \<noteq> 0 then tcp_rx_rst env seq s2 else (None, s2)) of
           (Some rc, s3) \<Rightarrow> (Some rc, s3)
         | (None, s3) \<Rightarrow>
             (None, tcp_rx_finish env seq old_xfer_window
                      (tcp_process_rx_queue env (tcp_rx_enqueue seq flgs data s3))))"

definition tcp_rx_conn ::
  "tcp_env \<Rightarrow> sockaddr_tcpip \<Rightarrow> u16 \<Rightarrow> u16 \<Rightarrow> u32 \<Rightarrow> u32 \<Rightarrow> u16 \<Rightarrow> u8 \<Rightarrow> tcp_options \<Rightarrow> bytes \<Rightarrow> tcp_sys
   \<Rightarrow> errno option \<times> tcp_sys" where
  "tcp_rx_conn env st_src src dest seq ack raw_win flgs options data s =
     (let old_xfer_window = tcp_xfer_window s
      in case (if flgs AND TCP_ACK \<noteq> 0 then tcp_rx_ack env ack (shl32 (ucast raw_win) (snd_win_scale s)) s
               else (None, s)) of
           (Some rc, s1) \<Rightarrow> (Some rc, snd (tcp_xmit_reset env st_src src dest seq ack s1))
         | (None, s1) \<Rightarrow> tcp_rx_body env seq flgs options data old_xfer_window s1)"

section \<open>All connections\<close>

text \<open>
  The list \<^verbatim>\<open>tcp_conns\<close> and what the connections share.  A handler runs on one connection; the
  rounds of discarding its allocations caused also drop packets from the others, and a
  connection that has been deleted leaves the list.
\<close>

record tcp_global =
  conns :: "tcp_connection list"
  calls_made :: "tcp_call list"
  all_pending :: u32
  all_failures :: nat

fun discard_rounds :: "tcp_call list \<Rightarrow> nat" where
  "discard_rounds [] = 0"
| "discard_rounds (Alloc_iob len rounds ok # calls) = rounds + discard_rounds calls"
| "discard_rounds (_ # calls) = discard_rounds calls"

definition attach :: "tcp_global \<Rightarrow> tcp_connection \<Rightarrow> tcp_sys" where
  "attach g tcp = tcp_connection.extend tcp (tcp_sys.fields (calls_made g) (all_pending g) (all_failures g))"

definition discard_many :: "nat \<Rightarrow> tcp_connection \<Rightarrow> tcp_connection" where
  "discard_many rounds tcp = tcp\<lparr>rx_queue := take (length (rx_queue tcp) - rounds) (rx_queue tcp)\<rparr>"

definition with_conn :: "(tcp_sys \<Rightarrow> 'r \<times> tcp_sys) \<Rightarrow> nat \<Rightarrow> tcp_global \<Rightarrow> 'r \<times> tcp_global" where
  "with_conn f i g =
     (let (r, s) = f (attach g (conns g ! i));
          rounds = discard_rounds (take (length (trace s) - length (calls_made g)) (trace s))
      in (r, \<lparr>conns = map (discard_many rounds) (take i (conns g))
                        @ (if listed s then [tcp_connection.truncate s] else [])
                        @ map (discard_many rounds) (drop (Suc i) (conns g)),
              calls_made = trace s, all_pending = pending_total s, all_failures = tcp_failures s\<rparr>))"

text \<open>The first connection with a property, by its position on the list.\<close>

fun conn_index :: "(tcp_connection \<Rightarrow> bool) \<Rightarrow> tcp_connection list \<Rightarrow> nat option" where
  "conn_index P [] = None"
| "conn_index P (tcp # rest) = (if P tcp then Some 0 else map_option Suc (conn_index P rest))"

definition tcp_demux :: "u32 \<Rightarrow> tcp_global \<Rightarrow> nat option" where
  "tcp_demux port g = conn_index (\<lambda>tcp. local_port tcp = port) (conns g)"

definition tcp_port_available :: "tcp_global \<Rightarrow> u16 \<Rightarrow> errno + u16" where
  "tcp_port_available g port = (if tcp_demux (ucast port) g \<noteq> None then Inl EADDRINUSE else Inr port)"

text \<open>
  Opening: \<open>zalloc\<close> tells whether the connection could be allocated, \<open>random_seq\<close> and
  \<open>random_port\<close> are the random numbers drawn.
\<close>

definition tcp_new :: "u32 \<Rightarrow> sockaddr_tcpip \<Rightarrow> tcp_connection" where
  "tcp_new random_seq st_peer =
     \<lparr>refcnt = ref_init, flags = 0, peer = st_peer, local_port = 0, mss = 0,
      tcp_state = TCP_STATE_SENT TCP_SYN, prev_tcp_state = TCP_STATE_SENT TCP_SYN,
      snd_seq = random_seq, snd_sent = 0, snd_win = 0, rcv_ack = 0, rcv_win = 0, ts_val = 0, ts_recent = 0,
      snd_win_scale = 0, rcv_win_scale = 0,
      sack = replicate TCP_SACK_MAX \<lparr>sack_left = 0, sack_right = 0\<rparr>, tx_queue = [], rx_queue = [],
      process = False, timer = timer_init, keepalive = timer_init, wait = timer_init,
      pending_flags = 0, pending_data = 0, listed = False\<rparr>"

definition tcp_open ::
  "('iob, 'r) tcpip_net_protocol list \<Rightarrow> tcp_env \<Rightarrow> bool \<Rightarrow> u32 \<Rightarrow> u32 \<Rightarrow> sockaddr_tcpip \<Rightarrow> sockaddr_tcpip option
   \<Rightarrow> tcp_global \<Rightarrow> errno option \<times> tcp_global" where
  "tcp_open table env zalloc random_seq random_port st_peer st_local g =
     (if \<not> zalloc then (Some ENOMEM, g)
      else
        let tcp = tcp_new random_seq st_peer;
            mtu = tcpip_mtu table (peer tcp)
        in if mtu = 0 then (Some ENETUNREACH, g)
           else
             (case tcpip_bind (tcp_port_available g) random_port st_local of
                Inl rc \<Rightarrow> (Some rc, g)
              | Inr port \<Rightarrow>
                  let s = attach g (tcp\<lparr>mss := mtu - 20, local_port := ucast port\<rparr>);
                      s = tcp_pending_flags_get (tcp_start_timer_nodelay env s);
                      s = s\<lparr>listed := True\<rparr>
                  in (None, \<lparr>conns = tcp_connection.truncate s # conns g, calls_made = trace s,
                             all_pending = pending_total s, all_failures = tcp_failures s\<rparr>)))"

text \<open>
  \<^verbatim>\<open>tcp_rx()\<close>: the checks, the header, and the handling by the connection.  The packet's
  timestamp is recorded before anything else.
\<close>

definition tcp_hlen :: "bytes \<Rightarrow> nat" where
  "tcp_hlen pkt = unat (pkt ! 12 AND TCP_MASK_HLEN) div 16 * 4"

definition tcp_rx_ts :: "tcp_options \<Rightarrow> tcp_sys \<Rightarrow> tcp_sys" where
  "tcp_rx_ts options s = (case tsopt options of None \<Rightarrow> s | Some tsval \<Rightarrow> s\<lparr>ts_val := tsval\<rparr>)"

definition tcp_rx_packet :: "tcp_env \<Rightarrow> sockaddr_tcpip \<Rightarrow> bytes \<Rightarrow> tcp_options \<Rightarrow> tcp_sys \<Rightarrow> errno option \<times> tcp_sys" where
  "tcp_rx_packet env st_src pkt options s =
     tcp_rx_conn env st_src (get16 (pkt ! 0) (pkt ! 1)) (get16 (pkt ! 2) (pkt ! 3))
       (get32 (pkt ! 4) (pkt ! 5) (pkt ! 6) (pkt ! 7)) (get32 (pkt ! 8) (pkt ! 9) (pkt ! 10) (pkt ! 11))
       (get16 (pkt ! 14) (pkt ! 15)) (pkt ! 13) options (drop (tcp_hlen pkt) pkt) (tcp_rx_ts options s)"

definition tcp_rx :: "tcp_env \<Rightarrow> sockaddr_tcpip \<Rightarrow> u16 \<Rightarrow> bytes \<Rightarrow> tcp_global \<Rightarrow> errno option \<times> tcp_global" where
  "tcp_rx env st_src pshdr_csum pkt g =
     (if length pkt < 20 then (Some EINVAL, g)
      else if tcp_hlen pkt < 20 then (Some EINVAL, g)
      else if tcp_hlen pkt > length pkt then (Some EINVAL, g)
      else if generic_tcpip_continue_chksum pshdr_csum pkt \<noteq> 0 then (Some EINVAL, g)
      else
        (case tcp_rx_opts (drop 20 (take (tcp_hlen pkt) pkt)) no_options of
           Inl rc \<Rightarrow> (Some rc, g)
         | Inr options \<Rightarrow>
             (case tcp_demux (ucast (get16 (pkt ! 2) (pkt ! 3))) g of
                None \<Rightarrow> (Some ENOTCONN, g)
              | Some i \<Rightarrow> with_conn (tcp_rx_packet env st_src pkt options) i g)))"

text \<open>Discarding cached data and shutting down.\<close>

definition tcp_discard :: "tcp_global \<Rightarrow> nat \<times> tcp_global" where
  "tcp_discard g =
     (sum_list (map (fst \<circ> tcp_discard_one) (conns g)), g\<lparr>conns := map (snd \<circ> tcp_discard_one) (conns g)\<rparr>)"

definition tcp_unclosed :: "tcp_connection \<Rightarrow> bool" where
  "tcp_unclosed tcp \<longleftrightarrow> flags tcp AND TCP_XFER_CLOSED = 0"

definition tcp_first_unclosed :: "tcp_global \<Rightarrow> nat option" where
  "tcp_first_unclosed g = conn_index tcp_unclosed (conns g)"

definition tcp_first_unfinished :: "tcp_global \<Rightarrow> nat option" where
  "tcp_first_unfinished g =
     conn_index (\<lambda>tcp. \<not> TCP_CLOSED_GRACEFULLY (tcp_state tcp) \<or> process tcp) (conns g)"

section \<open>Shutting down\<close>

lemma close_syn_fields [simp]:
  "flags (tcp_close_syn env s) = flags s" "listed (tcp_close_syn env s) = listed s"
  by (simp_all add: tcp_close_syn_def tcp_rx_ack_def tcp_ack_new_def tcp_ack_fin_def Let_def)

lemma close_flags [simp]: "flags (tcp_close env rc s) = flags s OR TCP_XFER_CLOSED"
  by (simp add: tcp_close_def tcp_delete_def tcp_close_fin_def tcp_intf_shutdown_def Let_def)

lemma close_listed: "listed (tcp_close env rc s) \<longleftrightarrow> bit (tcp_state s) 17 \<and> listed s"
  by (simp add: tcp_close_def tcp_delete_def tcp_close_fin_def tcp_intf_shutdown_def Let_def)

lemma attach_fields [simp]:
  "flags (attach g tcp) = flags tcp" "tcp_state (attach g tcp) = tcp_state tcp"
  "rx_queue (attach g tcp) = rx_queue tcp" "listed (attach g tcp) = listed tcp"
  "rcv_ack (attach g tcp) = rcv_ack tcp" "local_port (attach g tcp) = local_port tcp"
  "trace (attach g tcp) = calls_made g" "process (attach g tcp) = process tcp"
  by (simp_all add: attach_def tcp_connection.defs tcp_sys.defs)

lemma truncate_fields [simp]:
  "flags (tcp_connection.truncate s) = flags s" "tcp_state (tcp_connection.truncate s) = tcp_state s"
  "rx_queue (tcp_connection.truncate s) = rx_queue s" "listed (tcp_connection.truncate s) = listed s"
  "rcv_ack (tcp_connection.truncate s) = rcv_ack s" "local_port (tcp_connection.truncate s) = local_port s"
  "process (tcp_connection.truncate s) = process s"
  by (simp_all add: tcp_connection.defs)

lemma discard_many_fields [simp]:
  "flags (discard_many n tcp) = flags tcp" "tcp_state (discard_many n tcp) = tcp_state tcp"
  "listed (discard_many n tcp) = listed tcp" "local_port (discard_many n tcp) = local_port tcp"
  "process (discard_many n tcp) = process tcp" "rcv_ack (discard_many n tcp) = rcv_ack tcp"
  by (simp_all add: discard_many_def)

lemma conn_index_SomeD: "conn_index P xs = Some i \<Longrightarrow> i < length xs \<and> P (xs ! i) \<and> (\<forall>j<i. \<not> P (xs ! j))"
proof (induction xs arbitrary: i)
  case (Cons x xs)
  then show ?case
  proof (cases "P x")
    case False
    then obtain k where "conn_index P xs = Some k" "i = Suc k" using Cons.prems by auto
    then show ?thesis using Cons.IH [of k] False by (auto simp: less_Suc_eq_0_disj)
  qed simp
qed simp

lemma conn_index_None: "conn_index P xs = None \<longleftrightarrow> (\<forall>x\<in>set xs. \<not> P x)"
  by (induction xs) auto

lemma length_filter_nth:
  "i < length xs \<Longrightarrow> length (filter P xs) =
     length (filter P (take i xs)) + of_bool (P (xs ! i)) + length (filter P (drop (Suc i) xs))"
proof (induction xs arbitrary: i)
  case (Cons x xs)
  then show ?case by (cases i) simp_all
qed simp

text \<open>
  A predicate that discarding does not touch holds after a handler for the connections it
  held for before, but for the one that was handled.
\<close>

lemma with_conn_filter_split:
  assumes "f (attach g (conns g ! i)) = (r, s)" "\<And>n tcp. P (discard_many n tcp) = P tcp"
  shows "length (filter P (conns (snd (with_conn f i g)))) =
    length (filter P (take i (conns g))) + of_bool (listed s \<and> P (tcp_connection.truncate s)) +
    length (filter P (drop (Suc i) (conns g)))"
proof -
  have "length (filter P (map (discard_many n) xs)) = length (filter P xs)" for n xs
    by (induction xs) (auto simp: assms(2))
  then show ?thesis
    unfolding with_conn_def Let_def assms(1)
    by (cases "listed s"; cases "P (tcp_connection.truncate s)") simp_all
qed

lemma with_conn_filter:
  assumes "i < length (conns g)" "\<And>n tcp. P (discard_many n tcp) = P tcp"
  shows "length (filter P (conns (snd (with_conn f i g)))) =
    length (filter P (conns g)) - of_bool (P (conns g ! i)) +
    of_bool (listed (snd (f (attach g (conns g ! i)))) \<and>
             P (tcp_connection.truncate (snd (f (attach g (conns g ! i))))))"
  unfolding length_filter_nth [OF assms(1), of P]
    with_conn_filter_split [where P = P and f = f, OF prod.collapse [symmetric] assms(2)]
  by linarith

definition tcp_shutdown_close :: "tcp_env \<Rightarrow> nat \<Rightarrow> tcp_global \<Rightarrow> tcp_global" where
  "tcp_shutdown_close env i g = snd (with_conn (\<lambda>s. ((), tcp_close env (Some ECANCELED) s)) i g)"

definition tcp_force_close :: "tcp_env \<Rightarrow> tcp_global \<Rightarrow> tcp_global" where
  "tcp_force_close env g =
     snd (with_conn (\<lambda>s. ((), tcp_close env (Some ECANCELED) (tcp_dump_state (s\<lparr>tcp_state := TCP_CLOSED\<rparr>)))) 0 g)"

lemma xfer_closed_bit: "(x OR TCP_XFER_CLOSED) AND TCP_XFER_CLOSED \<noteq> 0"
  using and_two_power [of "x OR TCP_XFER_CLOSED" 0] by (simp add: TCP_XFER_CLOSED_def bit_or_iff)

lemma close_unclosed [simp]:
  "\<not> tcp_unclosed (tcp_connection.truncate (tcp_close env rc s))"
  using xfer_closed_bit by (simp only: tcp_unclosed_def truncate_fields close_flags not_False_eq_True)

lemma discard_many_unclosed [simp]: "tcp_unclosed (discard_many n tcp) = tcp_unclosed tcp"
  by (simp add: tcp_unclosed_def)

text \<open>The loop that closes every connection gracefully.\<close>

function tcp_close_unclosed :: "tcp_env \<Rightarrow> tcp_global \<Rightarrow> tcp_global" where
  "tcp_close_unclosed env g =
     (case tcp_first_unclosed g of
        None \<Rightarrow> g
      | Some i \<Rightarrow> tcp_close_unclosed env (tcp_shutdown_close env i g))"
  by pat_completeness auto

termination
proof (relation "measure (\<lambda>(env, g). length (filter tcp_unclosed (conns g)))", goal_cases)
  case (2 env g i)
  then have "i < length (conns g)" "tcp_unclosed (conns g ! i)"
    using conn_index_SomeD by (auto simp: tcp_first_unclosed_def)
  moreover from this have "filter tcp_unclosed (conns g) \<noteq> []"
    by (auto simp: filter_empty_conv)
  ultimately show ?case
    by (simp add: tcp_shutdown_close_def with_conn_filter)
qed simp

text \<open>
  The loop that waits for the connections to finish.  \<open>step_fn n\<close> is what the processes do in
  the \<open>n\<close>-th call of \<^verbatim>\<open>step()\<close>, and \<open>clock n\<close> is the time before it.
\<close>

partial_function (option) tcp_wait_finished ::
  "(nat \<Rightarrow> tcp_global \<Rightarrow> tcp_global) \<Rightarrow> (nat \<Rightarrow> u64) \<Rightarrow> u64 \<Rightarrow> nat \<Rightarrow> tcp_global \<Rightarrow> tcp_global option" where
  "tcp_wait_finished step_fn clock started n g =
     (if tcp_first_unfinished g \<noteq> None \<and> clock n - started < TCP_FINISH_TIMEOUT
      then tcp_wait_finished step_fn clock started (Suc n) (step_fn n g)
      else Some g)"

text \<open>The loop that deletes what remains.\<close>

lemma force_close_conns:
  "conns g \<noteq> [] \<Longrightarrow> length (conns (tcp_force_close env g)) = length (conns g) - 1"
  by (simp add: tcp_force_close_def with_conn_def Let_def close_listed TCP_CLOSED_def TCP_RST_def)

function tcp_close_remaining :: "tcp_env \<Rightarrow> tcp_global \<Rightarrow> tcp_global" where
  "tcp_close_remaining env g =
     (case conns g of [] \<Rightarrow> g | _ # _ \<Rightarrow> tcp_close_remaining env (tcp_force_close env g))"
  by pat_completeness auto

termination
proof (relation "measure (\<lambda>(env, g). length (conns g))", goal_cases)
  case (2 env g)
  then show ?case using force_close_conns [of g env] by simp
qed simp

declare tcp_close_unclosed.simps [simp del] tcp_close_remaining.simps [simp del]

definition tcp_shutdown ::
  "tcp_env \<Rightarrow> (nat \<Rightarrow> tcp_global \<Rightarrow> tcp_global) \<Rightarrow> (nat \<Rightarrow> u64) \<Rightarrow> tcp_global \<Rightarrow> tcp_global option" where
  "tcp_shutdown env step_fn clock g =
     map_option (tcp_close_remaining env)
       (tcp_wait_finished step_fn clock (clock 0) 0 (tcp_close_unclosed env g))"

lemma close_remaining_conns: "conns (tcp_close_remaining env g) = []"
proof (induction env g rule: tcp_close_remaining.induct)
  case (1 env g)
  then show ?case by (subst tcp_close_remaining.simps) (auto split: list.split)
qed

lemma wait_finished_returns:
  assumes "clock m - started \<ge> TCP_FINISH_TIMEOUT" "n \<le> m"
  shows "\<exists>g'. tcp_wait_finished step_fn clock started n g = Some g'"
  using assms(2)
proof (induction "m - n" arbitrary: n g)
  case 0
  then show ?case using assms(1) by (subst tcp_wait_finished.simps) auto
next
  case (Suc k)
  then have "\<exists>g'. tcp_wait_finished step_fn clock started (Suc n) (step_fn n g) = Some g'" by simp
  then show ?case by (subst tcp_wait_finished.simps) auto
qed


definition quiet_env :: tcp_env where
  "quiet_env =
     \<lparr>env_currticks = \<lambda>calls. of_nat (length calls), env_alloc_iob = \<lambda>calls len. (0, True),
      env_tcpip_tx = \<lambda>calls pkt dest. None, env_xfer_window = \<lambda>calls. 0x10000,
      env_xfer_deliver = \<lambda>calls data. (None, []), env_window_changed = \<lambda>calls. []\<rparr>"

definition demo_peer :: sockaddr_tcpip where
  "demo_peer = \<lparr>st_family = 2, st_flags = 0, st_port = 80, st_scope_id = 0, st_pad = []\<rparr>"

end
