(* ===== verification/Tcp_Stream.thy ===== *)
theory Tcp_Stream
  imports Tcp
begin

text \<open>
  The byte streams of a TCP connection: what is delivered to the application is what the peer
  sent, whatever the network does to the packets, and what is sent is what the application handed over.
\<close>

section \<open>Sequence numbers\<close>

text \<open>
  A position in the peer's stream is a natural number; its sequence number is the position
  after the SYN modulo \<open>2\<^sup>3\<^sup>2\<close>.  Comparison gives the distance of positions that are
  less than \<open>2\<^sup>3\<^sup>1\<close> apart.
\<close>

definition seq_of :: "u32 \<Rightarrow> nat \<Rightarrow> u32" where
  "seq_of isn n = isn + 1 + of_nat n"

lemma seq_of_add: "seq_of isn n + of_nat k = seq_of isn (n + k)"
  by (simp add: seq_of_def)

lemma seq_of_Suc: "seq_of isn n + 1 = seq_of isn (Suc n)"
  by (simp add: seq_of_def)

lemma seq_of_diff: "a \<ge> b \<Longrightarrow> seq_of isn a - seq_of isn b = of_nat (a - b)"
  by (simp add: seq_of_def of_nat_diff)

lemma sint_word_of_int32: "- (2 ^ 31) \<le> k \<Longrightarrow> k < 2 ^ 31 \<Longrightarrow> sint (word_of_int k :: u32) = k"
  by (simp add: int_word_sint)

lemma tcp_cmp_seq_of:
  assumes "\<bar>int a - int b\<bar> < 2 ^ 31"
  shows "tcp_cmp (seq_of isn a) (seq_of isn b) = int a - int b"
proof -
  have "seq_of isn a - seq_of isn b = word_of_int (int a - int b)"
    by (simp add: seq_of_def)
  then show ?thesis
    using assms sint_word_of_int32 [of "int a - int b"] unfolding tcp_cmp_def by (simp add: abs_less_iff)
qed

lemma seq_of_inj:
  assumes "\<bar>int a - int b\<bar> < 2 ^ 31" "seq_of isn a = seq_of isn b"
  shows "a = b"
  using tcp_cmp_seq_of [OF assms(1), of isn] assms(2) by (simp add: tcp_cmp_def)

section \<open>What is on the receive queue\<close>

text \<open>
  A queued packet \<open>q\<close> carries the data of the stream \<open>D\<close> at position \<open>p\<close>; a FIN stands after
  the last byte.
\<close>

definition carries :: "u32 \<Rightarrow> bytes \<Rightarrow> nat \<Rightarrow> tcp_rx_queued \<Rightarrow> bool" where
  "carries isn D p q \<longleftrightarrow>
     rxq_seq q = seq_of isn p \<and> length (rxq_data q) < 2 ^ 16 \<and>
     rxq_data q = take (length (rxq_data q)) (drop p D) \<and>
     (bit (rxq_flags q) 0 \<longrightarrow> p + length (rxq_data q) = length D)"

definition end_of :: "nat \<Rightarrow> tcp_rx_queued \<Rightarrow> nat" where
  "end_of p q = p + length (rxq_data q) + (if bit (rxq_flags q) 0 then 1 else 0)"

text \<open>
  The receive queue holds packets at the positions \<open>ps\<close>, in order, and all positions that
  occur lie between \<open>b\<close> and \<open>b + 2\<^sup>3\<^sup>0\<close>.
\<close>

definition queue_at :: "u32 \<Rightarrow> bytes \<Rightarrow> nat list \<Rightarrow> tcp_rx_queued list \<Rightarrow> bool" where
  "queue_at isn D ps queue \<longleftrightarrow> list_all2 (carries isn D) ps queue \<and> sorted ps"

definition in_range :: "int \<Rightarrow> nat \<Rightarrow> bool" where
  "in_range b p \<longleftrightarrow> b \<le> int p \<and> int p \<le> b + 2 ^ 30"

lemma rx_insert_at:
  assumes "list_all2 (carries isn D) ps queue" "sorted ps" "carries isn D p q"
    "in_range b p" "\<forall>p\<in>set ps. in_range b p"
  shows "\<exists>ps'. list_all2 (carries isn D) ps' (rx_insert q queue) \<and> sorted ps' \<and> set ps' = insert p (set ps)"
  using assms(1,2,5)
proof (induction ps queue rule: list_all2_induct)
  case Nil
  then show ?case using assms(3) by (intro exI [of _ "[p]"]) simp
next
  case (Cons p' ps q' queue)
  have "tcp_cmp (rxq_seq q) (rxq_seq q') = int p - int p'"
    using Cons.prems(2) Cons.hyps(1) assms(3,4)
    by (auto simp: carries_def in_range_def intro!: tcp_cmp_seq_of)
  show ?case
  proof (cases "p < p'")
    case True
    then show ?thesis
      using Cons assms(3) \<open>tcp_cmp _ _ = _\<close>
      by (intro exI [of _ "p # p' # ps"]) (auto simp: less_imp_le intro: order_trans)
  next
    case False
    obtain ps' where "list_all2 (carries isn D) ps' (rx_insert q queue)" "sorted ps'" "set ps' = insert p (set ps)"
      using Cons by auto
    then show ?thesis
      using False Cons \<open>tcp_cmp _ _ = _\<close> by (intro exI [of _ "p' # ps'"]) auto
  qed
qed

section \<open>The state of reception\<close>

text \<open>Everything before position \<open>n\<close> has been delivered, and nothing else.\<close>

definition rx_at :: "u32 \<Rightarrow> bytes \<Rightarrow> int \<Rightarrow> nat \<Rightarrow> nat list \<Rightarrow> tcp_sys \<Rightarrow> bool" where
  "rx_at isn D b n ps s \<longleftrightarrow>
     syn_rcvd s \<and> (fin_rcvd s \<longrightarrow> n = length D + 1) \<and>
     rcv_ack s = seq_of isn n \<and> n \<le> length D + 1 \<and> delivered s = take n D \<and>
     queue_at isn D ps (rx_queue s) \<and> (\<forall>p\<in>set ps. in_range b p) \<and>
     b \<le> int n \<and> int n \<le> b + 2 ^ 30 + 2 ^ 16"

lemma queue_at_take: "queue_at isn D ps queue \<Longrightarrow> queue_at isn D (take m ps) (take m queue)"
  by (auto simp: queue_at_def sorted_wrt_take intro: list_all2_takeI)

lemma rx_at_frame:
  assumes "rx_at isn D b n ps s" "rx_frame s t"
  obtains m where "rx_at isn D b n (take m ps) t"
proof -
  obtain m where "rx_queue t = take m (rx_queue s)" using assms(2) by (auto simp: rx_frame_def)
  then have "rx_at isn D b n (take m ps) t"
    using assms queue_at_take [of isn D ps "rx_queue s" m]
    by (auto simp: rx_at_def rx_frame_def dest: in_set_takeD)
  then show thesis by (rule that)
qed

lemma rx_at_frameE:
  assumes "rx_at isn D b n ps s" "rx_frame s t" "\<And>ps'. rx_at isn D b n ps' t \<Longrightarrow> set ps' \<subseteq> set ps \<Longrightarrow> P"
  shows P
  using rx_at_frame [OF assms(1,2)] assms(3) by (meson set_take_subset)

lemma carries_end:
  assumes "carries isn D p q"
  shows "rxq_data q \<noteq> [] \<Longrightarrow> p + length (rxq_data q) \<le> length D"
  using arg_cong [OF conjunct1 [OF conjunct2 [OF conjunct2 [OF assms [unfolded carries_def]]]], of length]
  by (cases "rxq_data q") (auto simp: min_def split: if_splits)

text \<open>New data is delivered exactly from the position reached so far.\<close>

lemma rx_data_at:
  assumes at: "rx_at isn D b n ps s" and q: "carries isn D p q" and p: "in_range b p" "p \<le> n"
  obtains ps' where
    "rx_at isn D b (if n < p + length (rxq_data q) then p + length (rxq_data q) else n) ps'
       (snd (tcp_rx_data env (rxq_seq q) (rxq_data q) s))"
proof -
  let ?data = "rxq_data q"
  define k where "k = n - p"
  have k: "n = p + k" "int k < 2 ^ 31" using at p by (auto simp: k_def rx_at_def in_range_def)
  have len: "length ?data < 2 ^ 16" using q by (simp add: carries_def)
  have rcvd: "rcv_ack s - rxq_seq q = of_nat k"
    using at q p(2) seq_of_diff [of p n isn] by (simp add: rx_at_def carries_def k_def)
  have unat_k: "unat (of_nat k :: u32) = k" using k(2) by (simp add: unat_of_nat)
  have le: "of_nat (length ?data) \<le> (of_nat k :: u32) \<longleftrightarrow> length ?data \<le> k"
    using len k(2) by (simp add: word_le_nat_alt unat_of_nat)
  show thesis
  proof (cases "length ?data \<le> k")
    case True
    then show ?thesis using that [of ps] at k(1) rcvd le by (simp add: tcp_rx_data_def)
  next
    case False
    let ?s1 = "tcp_rx_seq (of_nat (length ?data) - of_nat k) s"
    let ?d = "drop k ?data"
    have end_le: "p + length ?data \<le> length D" using carries_end [OF q] False by fastforce
    have ack: "rcv_ack ?s1 = seq_of isn (p + length ?data)"
      using at by (simp add: rx_at_def k(1) seq_of_def)
    have "delivered s @ ?d = take (p + length ?data) D"
    proof -
      have "?data = take (length ?data) (drop p D)" using q by (simp add: carries_def)
      then have "?d = drop k (take (length ?data) (drop p D))" by simp
      also have "\<dots> = drop n (take (p + length ?data) D)"
        by (simp add: k(1) drop_take add.commute)
      finally have "?d = drop n (take (p + length ?data) D)" .
      moreover have "delivered s = take n (take (p + length ?data) D)"
        using at False k(1) by (simp add: rx_at_def)
      ultimately show ?thesis by (simp only: append_take_drop_id)
    qed
    obtain rc where fr: "rx_frame (?s1\<lparr>trace := Xfer_deliver ?d rc # trace ?s1\<rparr>) (snd (tcp_xfer_deliver_iob env ?d ?s1))"
      using rx_frame_deliver_iob by blast
    have "rx_at isn D b (p + length ?data) ps (?s1\<lparr>trace := Xfer_deliver ?d rc # trace ?s1\<rparr>)"
      using at ack \<open>delivered s @ ?d = _\<close> end_le p(1) len False k(1)
      by (auto simp: rx_at_def syn_rcvd_def fin_rcvd_def in_range_def)
    then obtain m where "rx_at isn D b (p + length ?data) (take m ps) (snd (tcp_xfer_deliver_iob env ?d ?s1))"
      using rx_at_frame fr by blast
    moreover have "snd (tcp_rx_data env (rxq_seq q) ?data s) = snd (tcp_xfer_deliver_iob env ?d ?s1)"
      using False by (simp add: tcp_rx_data_def rcvd le unat_k Let_def)
    ultimately show ?thesis using that [of "take m ps"] False k(1) by simp
  qed
qed

lemma rx_fin_at:
  assumes at: "rx_at isn D b n ps s" and l: "b \<le> int (length D)" "int (length D) < b + 2 ^ 30 + 2 ^ 16"
  obtains ps' where
    "rx_at isn D b (if n = length D then Suc n else n) ps' (tcp_rx_fin env (seq_of isn (length D)) s)"
proof (cases "n = length D")
  case True
  let ?s2 = "(tcp_rx_seq 1 s)\<lparr>tcp_state := tcp_state s OR TCP_STATE_RCVD TCP_FIN\<rparr>"
  have "rx_at isn D b (Suc n) ps ?s2"
    using at l True by (auto simp: rx_at_def syn_rcvd_def fin_rcvd_def bit_or_iff seq_of_Suc)
  then obtain m where "rx_at isn D b (Suc n) (take m ps) (tcp_close env None ?s2)"
    using rx_at_frame rx_frame_close by blast
  moreover have "tcp_rx_fin env (seq_of isn (length D)) s = tcp_close env None ?s2"
    using at True by (simp add: tcp_rx_fin_def rx_at_def)
  ultimately show thesis using that [of "take m ps"] True by simp
next
  case False
  moreover have "\<bar>int (length D) - int n\<bar> < 2 ^ 31" using at l by (simp add: rx_at_def abs_less_iff)
  ultimately have "seq_of isn (length D) \<noteq> rcv_ack s"
    using at seq_of_inj [of "length D" n isn] by (auto simp: rx_at_def)
  then show thesis using that [of ps] at False by (simp add: tcp_rx_fin_def)
qed

lemma process_rx_one_at:
  assumes at: "rx_at isn D b n ps s" and q: "carries isn D p q" and p: "in_range b p" "p \<le> n"
  obtains n' ps' where "rx_at isn D b n' ps' (tcp_process_rx_one env q s)" "n \<le> n'" "end_of p q \<le> n'"
proof -
  let ?len = "length (rxq_data q)"
  let ?s1 = "snd (tcp_rx_data env (rxq_seq q) (rxq_data q) s)"
  define n1 where "n1 = (if n < p + ?len then p + ?len else n)"
  obtain ps1 where s1: "rx_at isn D b n1 ps1 ?s1" unfolding n1_def using rx_data_at [OF at q p] by blast
  have n1: "n \<le> n1" "p + ?len \<le> n1" by (auto simp: n1_def)
  show thesis
  proof (cases "bit (rxq_flags q) 0")
    case False
    then show ?thesis
      using that [of n1 ps1] s1 n1 by (simp add: tcp_process_rx_one_def end_of_def)
  next
    case True
    then have l: "p + ?len = length D" "?len < 2 ^ 16" using q by (auto simp: carries_def)
    then have "b \<le> int (length D)" "int (length D) < b + 2 ^ 30 + 2 ^ 16"
      using p(1) by (auto simp: in_range_def)
    then obtain ps2 where s2:
        "rx_at isn D b (if n1 = length D then Suc n1 else n1) ps2 (tcp_rx_fin env (seq_of isn (length D)) ?s1)"
      using rx_fin_at [OF s1] by blast
    have "tcp_process_rx_one env q s = tcp_rx_fin env (seq_of isn (length D)) ?s1"
      using True seq_of_add [of isn p ?len] q [unfolded carries_def, THEN conjunct1]
      unfolding tcp_process_rx_one_def l(1) Let_def by simp
    then show ?thesis
      using that [of "if n1 = length D then Suc n1 else n1" ps2] s2 n1 True l(1)
      by (auto simp: end_of_def split: if_splits)
  qed
qed

text \<open>
  The loop delivers everything that is contiguous: it ends with all queued packets beyond the
  position reached.
\<close>

lemma rx_at_Cons:
  assumes "rx_at isn D b n ps s" "rx_queue s = q # queue"
  obtains p ps' where "ps = p # ps'" "carries isn D p q" "in_range b p"
    "rx_at isn D b n ps' (s\<lparr>rx_queue := queue\<rparr>)" "\<forall>p'\<in>set ps'. p \<le> p'"
    "tcp_cmp (rxq_seq q) (rcv_ack s) = int p - int n"
proof -
  obtain p ps' where ps: "ps = p # ps'" "carries isn D p q" "list_all2 (carries isn D) ps' queue"
    using assms by (auto simp: rx_at_def queue_at_def list_all2_Cons2)
  moreover have "in_range b p" using assms ps(1) by (simp add: rx_at_def)
  moreover have "rx_at isn D b n ps' (s\<lparr>rx_queue := queue\<rparr>)"
    using assms ps by (auto simp: rx_at_def queue_at_def syn_rcvd_def fin_rcvd_def)
  moreover have "\<forall>p'\<in>set ps'. p \<le> p'" using assms ps(1) by (simp add: rx_at_def queue_at_def)
  moreover have "tcp_cmp (rxq_seq q) (rcv_ack s) = int p - int n"
    using assms ps \<open>in_range b p\<close> tcp_cmp_seq_of [of p n isn]
    by (simp add: rx_at_def in_range_def carries_def abs_less_iff)
  ultimately show thesis using that [of p ps'] by blast
qed

lemma process_rx_queue_at:
  assumes "rx_at isn D b n ps s"
  shows "\<exists>n' ps'. rx_at isn D b n' ps' (tcp_process_rx_queue env s) \<and> n \<le> n' \<and> (\<forall>p\<in>set ps'. n' < p) \<and>
    (ps \<noteq> [] \<longrightarrow> hd ps \<le> n \<longrightarrow> end_of (hd ps) (hd (rx_queue s)) \<le> n')"
  using assms
proof (induction env s arbitrary: n ps rule: tcp_process_rx_queue.induct)
  case (1 env s)
  show ?case
  proof (cases "rx_queue s")
    case Nil
    then have "tcp_process_rx_queue env s = s" by (subst tcp_process_rx_queue.simps) simp
    moreover have "ps = []" using "1.prems" Nil by (simp add: rx_at_def queue_at_def)
    ultimately show ?thesis using "1.prems" by (intro exI [of _ n] exI [of _ ps]) simp
  next
    case (Cons q queue)
    from rx_at_Cons [OF "1.prems" this] obtain p ps' where ps: "ps = p # ps'" "carries isn D p q" "in_range b p"
      and at: "rx_at isn D b n ps' (s\<lparr>rx_queue := queue\<rparr>)" and le: "\<forall>p'\<in>set ps'. p \<le> p'"
      and cmp: "tcp_cmp (rxq_seq q) (rcv_ack s) = int p - int n" .
    show ?thesis
    proof (cases "n < p")
      case True
      then have "tcp_process_rx_queue env s = s"
        using Cons cmp by (subst tcp_process_rx_queue.simps) simp
      moreover have "\<forall>p\<in>set ps. n < p" using True ps(1) le by fastforce
      ultimately show ?thesis using "1.prems" True ps(1) by (intro exI [of _ n] exI [of _ ps]) simp
    next
      case False
      then have "p \<le> n" by simp
      obtain n1 ps1 where one: "rx_at isn D b n1 ps1 (tcp_process_rx_one env q (s\<lparr>rx_queue := queue\<rparr>))"
        "n \<le> n1" "end_of p q \<le> n1"
        using process_rx_one_at [OF at ps(2,3) \<open>p \<le> n\<close>] by blast
      have eq: "tcp_process_rx_queue env s = tcp_process_rx_queue env (tcp_process_rx_one env q (s\<lparr>rx_queue := queue\<rparr>))"
        using Cons cmp False by (subst tcp_process_rx_queue.simps) simp
      have "\<not> tcp_cmp (rxq_seq q) (rcv_ack s) > 0" using cmp False by simp
      from "1.IH" [OF Cons this one(1)] obtain n2 ps2 where
        "rx_at isn D b n2 ps2 (tcp_process_rx_queue env s)" "n1 \<le> n2" "\<forall>p\<in>set ps2. n2 < p"
        unfolding eq by (elim exE conjE)
      then show ?thesis using one(2,3) ps(1) Cons by (intro exI [of _ n2] exI [of _ ps2]) simp
    qed
  qed
qed

section \<open>Segments\<close>

text \<open>
  A segment of the peer: the data at position \<open>p\<close> of the stream, with the SYN before it or the
  FIN after it if these flags are set.  The other flags are arbitrary.
\<close>

definition segment :: "u32 \<Rightarrow> bytes \<Rightarrow> nat \<Rightarrow> u32 \<Rightarrow> u8 \<Rightarrow> bytes \<Rightarrow> bool" where
  "segment isn D p seq flgs data \<longleftrightarrow>
     length data < 2 ^ 16 \<and> data = take (length data) (drop p D) \<and>
     (if flgs AND TCP_SYN \<noteq> 0 then p = 0 \<and> seq = isn else seq = isn + 1 + of_nat p) \<and>
     (flgs AND TCP_FIN \<noteq> 0 \<longrightarrow> p + length data = length D)"

text \<open>A reset carries no data.\<close>

definition is_reset :: "u8 \<Rightarrow> bytes \<Rightarrow> bool" where
  "is_reset flgs data \<longleftrightarrow> flgs AND TCP_RST \<noteq> 0 \<and> flgs AND (TCP_SYN OR TCP_FIN) = 0 \<and> data = []"

text \<open>The state between packets: nothing that could be delivered is left on the queue.\<close>

definition rx_ok :: "u32 \<Rightarrow> bytes \<Rightarrow> nat \<Rightarrow> tcp_sys \<Rightarrow> bool" where
  "rx_ok isn D n s \<longleftrightarrow> (\<exists>ps. rx_at isn D (int n - 2 ^ 29) n ps s \<and> (\<forall>p\<in>set ps. n < p))"

definition rx_idle :: "tcp_sys \<Rightarrow> bool" where
  "rx_idle s \<longleftrightarrow> \<not> syn_rcvd s \<and> \<not> fin_rcvd s \<and> delivered s = [] \<and> rx_queue s = []"

lemma rx_ok_frame: "rx_ok isn D n s \<Longrightarrow> rx_frame s t \<Longrightarrow> rx_ok isn D n t"
  unfolding rx_ok_def by (blast elim: rx_at_frameE)

lemma enqueue_at:
  assumes "rx_at isn D b n ps s" "segment isn D p seq flgs data" "in_range b p"
  obtains ps' where "rx_at isn D b n ps' (tcp_rx_enqueue (seq_of isn p) flgs data s)" "set ps' \<subseteq> insert p (set ps)"
proof -
  let ?q = "\<lparr>rxq_seq = seq_of isn p,
    rxq_nxt = seq_of isn p + (of_nat (length data) + (if flgs AND TCP_FIN \<noteq> 0 then 1 else 0)),
    rxq_flags = flgs AND TCP_FIN, rxq_data = data\<rparr>"
  have q: "carries isn D p ?q"
    using assms(2) by (auto simp: carries_def segment_def bit_and_iff)
  obtain ps' where "queue_at isn D ps' (rx_insert ?q (rx_queue s))" "set ps' = insert p (set ps)"
    using rx_insert_at [OF _ _ q assms(3)] assms(1) unfolding rx_at_def queue_at_def by blast
  then have "rx_at isn D b n ps' (s\<lparr>rx_queue := rx_insert ?q (rx_queue s)\<rparr>)"
    using assms(1,3) by (auto simp: rx_at_def syn_rcvd_def fin_rcvd_def)
  moreover have "tcp_rx_enqueue (seq_of isn p) flgs data s \<in> {s, s\<lparr>rx_queue := rx_insert ?q (rx_queue s)\<rparr>}"
    by (simp add: tcp_rx_enqueue_def Let_def)
  ultimately show thesis
    using that [of ps'] that [of ps, OF _ subset_insertI] assms(1) \<open>set ps' = _\<close> by fastforce
qed

section \<open>Reception of a segment\<close>

lemma rx_frame_flags: "rx_frame s (s\<lparr>flags := f\<rparr>)"
  by (rule rx_frameI) simp_all

lemma rx_frame_xmit_reset: "rx_frame s (snd (tcp_xmit_reset env dst src dest seq ack s))"
proof -
  obtain ok s1 where a: "tcp_alloc_iob env TCP_MAX_HEADER_LEN s = (ok, s1)" by fastforce
  then have 1: "rx_frame s s1" using rx_frame_alloc [of s env TCP_MAX_HEADER_LEN] by simp
  have 2: "rx_frame s1 (snd (pkt_push hdr (pkt, s1)))" for hdr pkt by (rule rx_frameI) simp_all
  have 3: "rx_frame t (t\<lparr>trace := Tcpip_tx pkt d rc # trace t\<rparr>)" for t pkt d rc by (rule rx_frameI) simp_all
  show ?thesis
    using 1 rx_frame_trans [OF rx_frame_trans [OF 1 2] 3]
    by (auto simp: tcp_xmit_reset_def a Let_def case_prod_beta split: bool.split)
qed

lemma rx_frame_finish: "rx_frame s (tcp_rx_finish env seq w s)"
proof -
  have 1: "rx_frame t (tcp_dump_state t)" "rx_frame t (tcp_process_add t)" "rx_frame t (tcp_stop_wait env t)"
    "rx_frame t (tcp_start_wait env d t)" for t d
    by (rule rx_frameI; simp)+
  define s1 where "s1 = tcp_dump_state s"
  define s2 where "s2 = (if rx_queue s1 = [] then tcp_process_add s1 else tcp_xmit_sack env seq s1)"
  define s3 where "s3 = (if TCP_CLOSED_GRACEFULLY (tcp_state s2)
    then tcp_start_wait env (2 * TCP_MSL) (tcp_stop_wait env s2) else s2)"
  have "rx_frame s s1" by (simp add: s1_def 1)
  moreover have "rx_frame s1 s2" by (simp add: s2_def 1 rx_frame_xmit_sack)
  moreover have "rx_frame s2 s3" using rx_frame_trans [OF 1(3) 1(4)] by (simp add: s3_def)
  ultimately have s3: "rx_frame s s3" by (meson rx_frame_trans)
  have "tcp_rx_finish env seq w s = (if tcp_xfer_window s3 \<noteq> w then tcp_xfer_window_changed env s3 else s3)"
    unfolding tcp_rx_finish_def s1_def s2_def s3_def Let_def by (rule refl)
  then show ?thesis using s3 rx_frame_trans [OF s3 rx_frame_window_changed] by simp
qed

lemma rx_syn_ok:
  assumes "rx_ok isn D n s" "n \<le> 2 ^ 29"
  shows "tcp_rx_syn isn options s = s"
proof -
  have "isn \<noteq> seq_of isn n"
    using seq_of_inj [of "n + 1" 0 "isn - 1"] assms(2) by (auto simp: seq_of_def)
  then show ?thesis using assms(1) by (auto simp: rx_ok_def rx_at_def tcp_rx_syn_def syn_rcvd_def fin_rcvd_def)
qed

lemma rx_syn_idle:
  assumes "rx_idle s"
  shows "rx_ok isn D 0 (tcp_rx_syn isn options s)"
  using assms
  by (auto simp: rx_idle_def rx_ok_def rx_at_def tcp_rx_syn_def syn_rcvd_def fin_rcvd_def Let_def seq_of_def queue_at_def
      bit_or_iff intro!: exI [of _ "[]"] split: option.split)

definition seg_end :: "nat \<Rightarrow> u8 \<Rightarrow> bytes \<Rightarrow> nat" where
  "seg_end p flgs data = p + length data + (if flgs AND TCP_FIN \<noteq> 0 then 1 else 0)"

lemma rx_at_settle:
  assumes "rx_at isn D b n ps s" "\<forall>p\<in>set ps. n < p" "b \<le> int n - 2 ^ 29"
  shows "rx_ok isn D n s"
  using assms by (fastforce simp: rx_ok_def rx_at_def in_range_def)

lemma rx_process_ok:
  assumes "rx_ok isn D n s" "segment isn D p seq flgs data" "\<bar>int p - int n\<bar> \<le> 2 ^ 29"
  shows "\<exists>n'\<ge>n. rx_ok isn D n' (tcp_process_rx_queue env (tcp_rx_enqueue (seq_of isn p) flgs data s))"
proof -
  define b where "b = int n - 2 ^ 29"
  obtain ps where ps: "rx_at isn D b n ps s" "\<forall>p\<in>set ps. n < p"
    using assms(1) by (auto simp: rx_ok_def b_def)
  have "in_range b p" using assms(3) by (auto simp: b_def in_range_def abs_le_iff)
  then obtain ps' where "rx_at isn D b n ps' (tcp_rx_enqueue (seq_of isn p) flgs data s)"
    using enqueue_at [OF ps(1) assms(2)] by blast
  from process_rx_queue_at [OF this, of env] obtain n' ps'' where
    "rx_at isn D b n' ps'' (tcp_process_rx_queue env (tcp_rx_enqueue (seq_of isn p) flgs data s))"
    "n \<le> n'" "\<forall>p\<in>set ps''. n' < p" by (elim exE conjE)
  then show ?thesis by (intro exI [of _ n']) (simp add: rx_at_settle b_def)
qed

text \<open>A segment that continues what has been received, within the window, is delivered at once.\<close>

lemma rx_enqueue_accepts:
  assumes "rx_at isn D b n ps s" "p \<le> n" "n \<le> p + 2 ^ 29" "n < seg_end p flgs data" "length data < 2 ^ 16"
    "rcv_win s > 0" "rcv_win s \<le> 2 ^ 30"
  shows "tcp_rx_enqueue (seq_of isn p) flgs data s =
    s\<lparr>rx_queue := rx_insert \<lparr>rxq_seq = seq_of isn p, rxq_nxt = seq_of isn (seg_end p flgs data),
        rxq_flags = flgs AND TCP_FIN, rxq_data = data\<rparr> (rx_queue s)\<rparr>"
proof -
  let ?e = "seg_end p flgs data"
  obtain w where w: "rcv_win s = of_nat w" "0 < w" "w \<le> 2 ^ 30"
    using assms(6,7) that [of "unat (rcv_win s)"] by (simp add: word_less_nat_alt word_le_nat_alt)
  have ack: "rcv_ack s = seq_of isn n" "syn_rcvd s" using assms(1) by (simp_all add: rx_at_def)
  have "seq_of isn n + rcv_win s = seq_of isn (n + w)" by (simp add: seq_of_def w(1))
  then have 1: "tcp_cmp (seq_of isn p) (seq_of isn n + rcv_win s) < 0"
    using tcp_cmp_seq_of [of p "n + w" isn] w(2,3) assms(2,3) by (simp add: abs_less_iff)
  have e: "?e \<le> p + 2 ^ 16" using assms(5) by (simp add: seg_end_def)
  then have 2: "tcp_cmp (seq_of isn ?e) (seq_of isn n) \<ge> 0"
    using tcp_cmp_seq_of [of ?e n isn] assms(2,3,4) by (simp add: abs_less_iff)
  define l where "l = length data + (if flgs AND TCP_FIN \<noteq> 0 then 1 else 0)"
  have l: "?e = p + l" "0 < l" "l \<le> 2 ^ 16" using assms(2,4,5) by (auto simp: seg_end_def l_def)
  have len: "of_nat (length data) + (if flgs AND TCP_FIN \<noteq> 0 then 1 else 0) = (of_nat l :: u32)"
    by (simp add: l_def)
  have 3: "(of_nat l :: u32) \<noteq> 0" using l(2,3) by (simp add: word_unat_eq_iff unat_of_nat)
  show ?thesis
    using 1 2 3 ack unfolding tcp_rx_enqueue_def Let_def len l(1) by (simp add: seq_of_add syn_rcvd_def fin_rcvd_def)
qed

lemma rx_process_progress:
  assumes "rx_ok isn D n s" "segment isn D p seq flgs data" "p \<le> n" "n \<le> p + 2 ^ 29"
    "rcv_win s > 0" "rcv_win s \<le> 2 ^ 30"
  shows "\<exists>n'\<ge>n. seg_end p flgs data \<le> n' \<and>
    rx_ok isn D n' (tcp_process_rx_queue env (tcp_rx_enqueue (seq_of isn p) flgs data s))"
proof (cases "n < seg_end p flgs data")
  case False
  then show ?thesis using rx_process_ok [OF assms(1,2), of env] assms(3,4) by fastforce
next
  case True
  define b where "b = int n - 2 ^ 29"
  define q where "q = \<lparr>rxq_seq = seq_of isn p, rxq_nxt = seq_of isn (seg_end p flgs data),
        rxq_flags = flgs AND TCP_FIN, rxq_data = data\<rparr>"
  obtain ps where ps: "rx_at isn D b n ps s" "\<forall>p\<in>set ps. n < p"
    using assms(1) by (auto simp: rx_ok_def b_def)
  have len: "length data < 2 ^ 16" using assms(2) by (simp add: segment_def)
  have p: "in_range b p" using assms(3,4) by (auto simp: b_def in_range_def)
  have q: "carries isn D p q" using assms(2) by (auto simp: q_def carries_def segment_def bit_and_iff)
  have insert: "rx_insert q (rx_queue s) = q # rx_queue s"
  proof (cases "rx_queue s")
    case (Cons q' queue)
    from rx_at_Cons [OF ps(1) this] obtain p' ps' where p': "ps = p' # ps'" "carries isn D p' q'" "in_range b p'"
      by blast
    then have "tcp_cmp (rxq_seq q) (rxq_seq q') = int p - int p'"
      using tcp_cmp_seq_of [of p p' isn] p q by (simp add: carries_def in_range_def abs_less_iff)
    then show ?thesis using p' ps(2) assms(3) Cons by auto
  qed simp
  have eq: "tcp_rx_enqueue (seq_of isn p) flgs data s = s\<lparr>rx_queue := q # rx_queue s\<rparr>"
    using rx_enqueue_accepts [OF ps(1) assms(3,4) True len assms(5,6)] insert by (simp add: q_def)
  have "rx_at isn D b n (p # ps) (s\<lparr>rx_queue := q # rx_queue s\<rparr>)"
    using ps p q assms(3) by (fastforce simp: rx_at_def queue_at_def syn_rcvd_def fin_rcvd_def)
  from process_rx_queue_at [OF this, of env] obtain n' ps'' where
    n': "rx_at isn D b n' ps'' (tcp_process_rx_queue env (s\<lparr>rx_queue := q # rx_queue s\<rparr>))"
    "n \<le> n'" "\<forall>p\<in>set ps''. n' < p" "end_of p q \<le> n'" using assms(3) by (elim exE conjE) simp
  moreover have "end_of p q = seg_end p flgs data" by (simp add: end_of_def seg_end_def q_def bit_and_iff)
  ultimately show ?thesis
    unfolding eq by (intro exI [of _ n']) (simp add: rx_at_settle b_def)
qed

section \<open>The whole reception path\<close>

text \<open>
  Between packets a listed connection either has not received a SYN and nothing has been
  delivered, or it has delivered a prefix of the stream; a deleted one has delivered a prefix.
\<close>

definition rx_inv :: "u32 \<Rightarrow> bytes \<Rightarrow> tcp_sys \<Rightarrow> bool" where
  "rx_inv isn D s \<longleftrightarrow>
     (if listed s then rx_idle s \<or> (\<exists>n. rx_ok isn D n s)
      else (\<exists>n. delivered s = take n D) \<and> (fin_rcvd s \<longrightarrow> delivered s = D))"

lemma rx_ok_delivered: "rx_ok isn D n s \<Longrightarrow> delivered s = take n D"
  by (auto simp: rx_ok_def rx_at_def)

lemma rx_ok_fin: "rx_ok isn D n s \<Longrightarrow> fin_rcvd s \<Longrightarrow> delivered s = D"
  by (auto simp: rx_ok_def rx_at_def)

lemma rx_inv_fin: "rx_inv isn D s \<Longrightarrow> fin_rcvd s \<Longrightarrow> delivered s = D"
  using rx_ok_fin [of isn D _ s] by (auto simp: rx_inv_def rx_idle_def split: if_splits)

lemma rx_inv_delivered: "rx_inv isn D s \<Longrightarrow> \<exists>n. delivered s = take n D"
  using rx_ok_delivered [of isn D _ s] by (auto simp: rx_inv_def rx_idle_def intro: exI [of _ 0] split: if_splits)

lemma rx_inv_idle: "rx_idle s \<Longrightarrow> rx_inv isn D s"
  by (auto simp: rx_inv_def rx_idle_def intro: exI [of _ 0])

lemma rx_inv_ok: "rx_ok isn D n s \<Longrightarrow> rx_inv isn D s"
  using rx_ok_delivered [of isn D n s] rx_ok_fin [of isn D n s] by (auto simp: rx_inv_def)

lemma rx_idle_frame: "rx_idle s \<Longrightarrow> rx_frame s t \<Longrightarrow> rx_idle t"
  by (auto simp: rx_idle_def rx_frame_def)

lemma rx_inv_frame:
  assumes "rx_inv isn D s" "rx_frame s t" "listed s"
  shows "rx_inv isn D t"
proof (cases "listed t")
  case True
  then show ?thesis
    using assms(1,3) rx_idle_frame [OF _ assms(2)] rx_ok_frame [OF _ assms(2)] by (auto simp: rx_inv_def)
next
  case False
  then show ?thesis
    using rx_inv_delivered [OF assms(1)] rx_inv_fin [OF assms(1)] assms(2) by (simp add: rx_inv_def rx_frame_def)
qed

lemma rx_inv_closed:
  assumes "rx_inv isn D s" "delivered t = delivered s"
  shows "rx_inv isn D (tcp_close env rc (tcp_dump_state (t\<lparr>tcp_state := TCP_CLOSED\<rparr>)))"
proof -
  let ?t = "tcp_dump_state (t\<lparr>tcp_state := TCP_CLOSED\<rparr>)"
  have "delivered (tcp_close env rc ?t) = delivered ?t" "\<not> fin_rcvd (tcp_close env rc ?t)"
    using rx_frame_close [of ?t env rc] by (auto simp: rx_frame_def fin_rcvd_def TCP_CLOSED_def TCP_RST_def)
  then show ?thesis
    using rx_inv_delivered [OF assms(1)] assms(2) by (simp add: rx_inv_def close_listed TCP_CLOSED_def TCP_RST_def)
qed

lemma rx_syn_delivered: "delivered (tcp_rx_syn seq options s) = delivered s"
  by (simp add: tcp_rx_syn_def Let_def split: option.split)

lemma rx_body_ok:
  assumes inv: "rx_idle s \<or> (\<exists>n. rx_ok isn D n s \<and> \<bar>int p - int n\<bar> \<le> 2 ^ 29)" "rx_inv isn D s"
    and seg: "segment isn D p seq flgs data"
  shows "rx_inv isn D (snd (tcp_rx_body env seq flgs options data w s))"
proof -
  define s1 where "s1 = (if tcp_state s AND TCP_STATE_RCVD TCP_SYN \<noteq> 0 \<and> seq \<noteq> rcv_ack s
                then s\<lparr>flags := flags s OR TCP_ACK_PENDING\<rparr> else s)"
  define s2 where "s2 = (if flgs AND TCP_SYN \<noteq> 0 then tcp_rx_syn seq options s1 else s1)"
  have f1: "rx_frame s s1" by (simp add: s1_def rx_frame_flags)
  have seq: "(if flgs AND TCP_SYN \<noteq> 0 then seq + 1 else seq) = seq_of isn p"
    using seg by (auto simp: segment_def seq_of_def split: if_splits)
  have i1: "rx_idle s1" if "rx_idle s" using rx_idle_frame [OF that f1] .
  have o1: "rx_ok isn D n s1" if "rx_ok isn D n s" for n using rx_ok_frame [OF that f1] .
  have d2: "delivered s2 = delivered s"
    using f1 by (simp add: s2_def rx_frame_def rx_syn_delivered)
  consider (idle) "rx_idle s2" | (ok) n where "rx_ok isn D n s2" "\<bar>int p - int n\<bar> \<le> 2 ^ 29"
  proof (cases "flgs AND TCP_SYN \<noteq> 0")
    case False
    then have "s2 = s1" by (simp add: s2_def)
    then show thesis using inv(1) i1 o1 that by blast
  next
    case True
    then have s2: "s2 = tcp_rx_syn isn options s1" and p: "p = 0" "seq = isn"
      using seg by (auto simp: s2_def segment_def)
    from inv(1) show thesis
    proof
      assume "rx_idle s"
      then show thesis using that(2) [of 0] rx_syn_idle [OF i1] p s2 by simp
    next
      assume "\<exists>n. rx_ok isn D n s \<and> \<bar>int p - int n\<bar> \<le> 2 ^ 29"
      then obtain n where n: "rx_ok isn D n s" "\<bar>int p - int n\<bar> \<le> 2 ^ 29" by blast
      then have "s2 = s1" using rx_syn_ok [OF o1] p(1) s2 by simp
      then show thesis using that(2) [of n] o1 n by simp
    qed
  qed
  note s2 = this
  have body: "tcp_rx_body env seq flgs options data w s =
      (case (if flgs AND TCP_RST \<noteq> 0 then tcp_rx_rst env (seq_of isn p) s2 else (None, s2)) of
         (Some rc, s3) \<Rightarrow> (Some rc, s3)
       | (None, s3) \<Rightarrow> (None, tcp_rx_finish env (seq_of isn p) w
           (tcp_process_rx_queue env (tcp_rx_enqueue (seq_of isn p) flgs data s3))))"
    unfolding tcp_rx_body_def Let_def seq s1_def s2_def by (rule refl)
  have cont: "rx_inv isn D (tcp_rx_finish env (seq_of isn p) w
      (tcp_process_rx_queue env (tcp_rx_enqueue (seq_of isn p) flgs data s2)))"
    using s2
  proof cases
    case idle
    then have "tcp_process_rx_queue env (tcp_rx_enqueue (seq_of isn p) flgs data s2) = s2"
      by (subst tcp_process_rx_queue.simps) (simp add: tcp_rx_enqueue_def rx_idle_def syn_rcvd_def fin_rcvd_def)
    then show ?thesis using rx_inv_idle rx_idle_frame [OF idle rx_frame_finish] by simp
  next
    case (ok n)
    then show ?thesis
      using rx_process_ok [OF ok(1) seg ok(2), of env] rx_ok_frame [OF _ rx_frame_finish] rx_inv_ok by blast
  qed
  show ?thesis
    using cont rx_inv_closed [OF inv(2) d2, of env "Some ECONNRESET"]
    unfolding body by (simp add: tcp_rx_rst_def)
qed

text \<open>A segment is less than half a gigabyte from what has been delivered.\<close>

definition nearby :: "nat \<Rightarrow> tcp_sys \<Rightarrow> bool" where
  "nearby p s \<longleftrightarrow> \<bar>int p - int (length (delivered s))\<bar> < 2 ^ 29"

lemma rx_ok_nearby:
  assumes "rx_ok isn D n s" "nearby p s"
  shows "\<bar>int p - int n\<bar> \<le> 2 ^ 29"
proof -
  have "n = length (delivered s) \<or> n = Suc (length (delivered s))"
    using assms(1) by (auto simp: rx_ok_def rx_at_def)
  then show ?thesis using assms(2) by (auto simp: nearby_def)
qed

lemma rx_frame_ts: "rx_frame s (tcp_rx_ts options s)"
  by (cases "tsopt options") (auto simp: tcp_rx_ts_def intro: rx_frameI)

lemma rx_ts_listed [simp]: "listed (tcp_rx_ts options s) = listed s"
  by (simp add: tcp_rx_ts_def split: option.split)

lemma rx_ack_listed: "listed (snd (tcp_rx_ack env ack win s)) = listed s"
  by (simp add: tcp_rx_ack_def tcp_ack_new_def tcp_ack_fin_def Let_def)

lemma process_rx_queue_ok: "rx_ok isn D n s \<Longrightarrow> tcp_process_rx_queue env s = s"
proof -
  assume "rx_ok isn D n s"
  then obtain ps where ps: "rx_at isn D (int n - 2 ^ 29) n ps s" "\<forall>p\<in>set ps. n < p" by (auto simp: rx_ok_def)
  show ?thesis
  proof (cases "rx_queue s")
    case (Cons q queue)
    from rx_at_Cons [OF ps(1) this] obtain p ps' where "ps = p # ps'" "tcp_cmp (rxq_seq q) (rcv_ack s) = int p - int n"
      by blast
    then show ?thesis using ps(2) Cons by (subst tcp_process_rx_queue.simps) simp
  qed (subst tcp_process_rx_queue.simps, simp)
qed

lemma rx_body_reset:
  assumes inv: "rx_inv isn D s" "listed s" and r: "is_reset flgs data"
  shows "rx_inv isn D (snd (tcp_rx_body env seq flgs options data w s))"
proof -
  define s1 where "s1 = (if tcp_state s AND TCP_STATE_RCVD TCP_SYN \<noteq> 0 \<and> seq \<noteq> rcv_ack s
                then s\<lparr>flags := flags s OR TCP_ACK_PENDING\<rparr> else s)"
  have f1: "rx_frame s s1" by (simp add: s1_def rx_frame_flags)
  then have d1: "delivered s1 = delivered s" by (simp add: rx_frame_def)
  have q: "tcp_process_rx_queue env s1 = s1"
  proof (cases "rx_idle s1")
    case True
    then show ?thesis by (subst tcp_process_rx_queue.simps) (simp add: rx_idle_def)
  next
    case False
    then obtain n where "rx_ok isn D n s1"
      using inv rx_idle_frame [OF _ f1] rx_ok_frame [OF _ f1] by (auto simp: rx_inv_def)
    then show ?thesis by (rule process_rx_queue_ok)
  qed
  have no: "flgs AND TCP_SYN = 0" "flgs AND TCP_RST \<noteq> 0" "flgs AND TCP_FIN = 0" "data = []"
    using r by (auto simp: is_reset_def)
  have e: "tcp_rx_enqueue seq flgs data s1 = s1" using no by (simp add: tcp_rx_enqueue_def)
  have "tcp_rx_body env seq flgs options data w s =
      (case tcp_rx_rst env seq s1 of
         (Some rc, s3) \<Rightarrow> (Some rc, s3)
       | (None, s3) \<Rightarrow> (None, tcp_rx_finish env seq w (tcp_process_rx_queue env (tcp_rx_enqueue seq flgs data s3))))"
    using no(1,2) unfolding tcp_rx_body_def Let_def s1_def by simp
  then show ?thesis
    using rx_inv_closed [OF inv(1) d1, of env "Some ECONNRESET"] e q
      rx_inv_frame [OF inv(1) rx_frame_trans [OF f1 rx_frame_finish] inv(2)]
    by (simp add: tcp_rx_rst_def)
qed

lemma rx_conn_inv:
  assumes "rx_inv isn D s" "listed s" "segment isn D p seq flgs data \<and> nearby p s \<or> is_reset flgs data"
  shows "rx_inv isn D (snd (tcp_rx_conn env st_src src dest seq ack raw_win flgs options data s))"
proof -
  let ?a = "if flgs AND TCP_ACK \<noteq> 0 then tcp_rx_ack env ack (shl32 (ucast raw_win) (snd_win_scale s)) s
            else (None, s)"
  obtain rc s1 where a: "?a = (rc, s1)" by fastforce
  have f: "rx_frame s s1"
    using arg_cong [OF a, of snd] rx_frame_rx_ack [of s env ack "shl32 (ucast raw_win) (snd_win_scale s)"]
    by (auto split: if_splits)
  have s1: "rx_idle s1 \<or> (\<exists>n. rx_ok isn D n s1 \<and> \<bar>int p - int n\<bar> \<le> 2 ^ 29)" if "nearby p s"
  proof (cases "rx_idle s")
    case True
    then show ?thesis using rx_idle_frame [OF _ f] by simp
  next
    case False
    then obtain n where "rx_ok isn D n s1" using assms(1,2) rx_ok_frame [OF _ f] by (auto simp: rx_inv_def)
    moreover have "nearby p s1" using that f by (simp add: nearby_def rx_frame_def)
    ultimately show ?thesis using rx_ok_nearby by blast
  qed
  have l: "listed s1" using arg_cong [OF a, of "\<lambda>x. listed (snd x)"] assms(2) by (simp add: rx_ack_listed split: if_splits)
  have inv: "rx_inv isn D s1" using rx_inv_frame [OF assms(1) f assms(2)] .
  show ?thesis
  proof (cases rc)
    case None
    then show ?thesis
      using rx_body_ok [OF s1 inv] rx_body_reset [OF inv l] assms(3) unfolding tcp_rx_conn_def Let_def a by auto
  next
    case (Some e)
    have "rx_frame s (snd (tcp_xmit_reset env st_src src dest seq ack s1))"
      by (rule rx_frame_trans [OF f rx_frame_xmit_reset])
    then show ?thesis
      using rx_inv_frame [OF assms(1) _ assms(2)] Some unfolding tcp_rx_conn_def Let_def a by simp
  qed
qed

lemma rx_ack_established:
  "TCP_HAS_BEEN_ESTABLISHED (tcp_state s) \<Longrightarrow> fst (tcp_rx_ack env ack win s) = None"
  by (simp add: tcp_rx_ack_def Let_def)

lemma rx_ack_rcv_win: "rcv_win (snd (tcp_rx_ack env ack win s)) = rcv_win s"
  by (simp add: tcp_rx_ack_def tcp_ack_new_def tcp_ack_fin_def tcp_tx_queue_remove_def case_prod_beta Let_def)

lemma rx_conn_progress:
  assumes ok: "rx_ok isn D n s" and seg: "segment isn D p seq flgs data" and p: "p \<le> n" "n \<le> p + 2 ^ 29"
    and win: "rcv_win s > 0" "rcv_win s \<le> 2 ^ 30"
    and flgs: "flgs AND (TCP_SYN OR TCP_RST) = 0" "flgs AND TCP_ACK = 0 \<or> TCP_HAS_BEEN_ESTABLISHED (tcp_state s)"
  shows "\<exists>n'\<ge>seg_end p flgs data. rx_ok isn D n'
    (snd (tcp_rx_conn env st_src src dest seq ack raw_win flgs options data s))"
proof -
  let ?a = "if flgs AND TCP_ACK \<noteq> 0 then tcp_rx_ack env ack (shl32 (ucast raw_win) (snd_win_scale s)) s
            else (None, s)"
  define s1 where "s1 = snd ?a"
  have a: "?a = (None, s1)"
    using flgs(2) rx_ack_established by (auto simp: s1_def intro: prod_eqI)
  have no: "flgs AND TCP_SYN = 0" "flgs AND TCP_RST = 0"
    using flgs(1) by (simp_all add: bit_eq_iff [where ?'a = "8 word"] bit_and_iff bit_or_iff)
  have seq: "seq = seq_of isn p" using seg no(1) by (simp add: segment_def seq_of_def)
  define s2 where "s2 = (if tcp_state s1 AND TCP_STATE_RCVD TCP_SYN \<noteq> 0 \<and> seq \<noteq> rcv_ack s1
                then s1\<lparr>flags := flags s1 OR TCP_ACK_PENDING\<rparr> else s1)"
  have f: "rx_frame s s2"
    unfolding s2_def s1_def using rx_frame_trans [OF rx_frame_rx_ack rx_frame_flags] rx_frame_rx_ack rx_frame_flags
    by simp
  have w: "rcv_win s2 = rcv_win s" by (simp add: s2_def s1_def rx_ack_rcv_win)
  obtain n' where n': "n \<le> n'" "seg_end p flgs data \<le> n'"
      "rx_ok isn D n' (tcp_process_rx_queue env (tcp_rx_enqueue seq flgs data s2))"
    using rx_process_progress [OF rx_ok_frame [OF ok f] seg p, of env] win unfolding w seq by blast
  have "tcp_rx_conn env st_src src dest seq ack raw_win flgs options data s =
      (None, tcp_rx_finish env seq (tcp_xfer_window s)
         (tcp_process_rx_queue env (tcp_rx_enqueue seq flgs data s2)))"
    unfolding tcp_rx_conn_def tcp_rx_body_def Let_def a s2_def using no by simp
  then show ?thesis using rx_ok_frame [OF n'(3) rx_frame_finish] n'(2) by auto
qed

section \<open>Runs of a connection\<close>

text \<open>
  Everything that can happen to a connection once it has been opened: segments of the peer
  arrive in any order, any number of times or never, with arbitrary acknowledgements and
  options, and so do resets; timers expire; the process is run; the application sends and closes; memory
  pressure drops queued packets.  The timer and process bookkeeping done by the caller of a
  handler is left arbitrary.
\<close>

inductive tcp_local :: "tcp_env \<Rightarrow> tcp_sys \<Rightarrow> tcp_sys \<Rightarrow> bool" for env where
  expired: "tcp_local env s (tcp_expired env over (s\<lparr>timer := t, refcnt := r\<rparr>))"
| keepalive: "tcp_local env s (tcp_keepalive_expired env over (s\<lparr>keepalive := t, refcnt := r\<rparr>))"
| waited: "tcp_local env s (tcp_wait_expired env over (s\<lparr>wait := t, refcnt := r\<rparr>))"
| step: "tcp_local env s (tcp_xmit env (s\<lparr>process := b, refcnt := r\<rparr>))"
| app: "tcp_local env s (run_app_call env call s)"
| discarded: "tcp_local env s (s\<lparr>rx_queue := take m (rx_queue s)\<rparr>)"

inductive tcp_run :: "tcp_env \<Rightarrow> u32 \<Rightarrow> bytes \<Rightarrow> u32 \<Rightarrow> tcp_sys \<Rightarrow> bool" for env isn D iss where
  opened: "tcp_open (table :: (bytes, unit) tcpip_net_protocol list) env True iss random_port st_peer st_local g = (None, g') \<Longrightarrow>
    calls_made g = [] \<Longrightarrow> tcp_run env isn D iss (attach g' (hd (conns g')))"
| received: "tcp_run env isn D iss s \<Longrightarrow> listed s \<Longrightarrow>
    segment isn D p seq flgs data \<and> nearby p s \<or> is_reset flgs data \<Longrightarrow>
    tcp_run env isn D iss
      (snd (tcp_rx_conn env st_src src dest seq ack raw_win flgs options data (tcp_rx_ts options s)))"
| local: "tcp_run env isn D iss s \<Longrightarrow> listed s \<Longrightarrow> tcp_local env s t \<Longrightarrow> tcp_run env isn D iss t"

lemma rx_frame_bookkeeping:
  "rx_frame s (s\<lparr>timer := t, refcnt := r\<rparr>)" "rx_frame s (s\<lparr>keepalive := t, refcnt := r\<rparr>)"
  "rx_frame s (s\<lparr>wait := t, refcnt := r\<rparr>)" "rx_frame s (s\<lparr>process := b, refcnt := r\<rparr>)"
  "rx_frame s (tcp_assert c s)" "rx_frame s (tcp_start_keepalive env d s)"
  by (rule rx_frameI; simp)+

lemma rx_frame_discard: "rx_frame s (s\<lparr>rx_queue := take m (rx_queue s)\<rparr>)"
  by (auto simp: rx_frame_def syn_rcvd_def fin_rcvd_def)

lemma rx_frame_keepalive_expired: "rx_frame s (tcp_keepalive_expired env over s)"
  unfolding tcp_keepalive_expired_def Let_def
  by (rule rx_frame_trans [OF rx_frame_bookkeeping(6) rx_frame_trans [OF rx_frame_flags rx_frame_xmit]])

lemma rx_inv_expired:
  assumes "rx_inv isn D s" "listed s"
  shows "rx_inv isn D (tcp_expired env over (s\<lparr>timer := t, refcnt := r\<rparr>))"
proof -
  let ?c = "tcp_state s \<in> {TCP_SYN_SENT, TCP_SYN_RCVD, TCP_ESTABLISHED, TCP_FIN_WAIT_1,
    TCP_CLOSE_WAIT, TCP_CLOSING_OR_LAST_ACK}"
  let ?s = "tcp_assert ?c (s\<lparr>timer := t, refcnt := r\<rparr>)"
  have "rx_frame s ?s" by (rule rx_frame_trans [OF rx_frame_bookkeeping(1) rx_frame_bookkeeping(5)])
  then have "rx_inv isn D (tcp_xmit env ?s)" "delivered ?s = delivered s"
    using rx_inv_frame [OF assms(1) rx_frame_trans [OF _ rx_frame_xmit] assms(2)] by (auto simp: rx_frame_def)
  then show ?thesis using rx_inv_closed [OF assms(1), of ?s env "Some ETIMEDOUT"] by (simp add: tcp_expired_def Let_def)
qed

lemma rx_inv_waited:
  assumes "rx_inv isn D s"
  shows "rx_inv isn D (tcp_wait_expired env over (s\<lparr>wait := t, refcnt := r\<rparr>))"
  unfolding tcp_wait_expired_def Let_def by (rule rx_inv_closed [OF assms]) simp

lemma open_idle:
  assumes "tcp_open table env True random_seq random_port st_peer st_local g = (None, g')" "calls_made g = []"
  shows "rx_idle (attach g' (hd (conns g')))"
  using assms
  by (auto simp: tcp_open_def Let_def tcp_new_def rx_idle_def syn_rcvd_def fin_rcvd_def state_defs
      tcp_start_timer_nodelay_def tcp_pending_flags_get_def case_prod_beta split: if_splits sum.splits)

lemma rx_inv_local:
  assumes "tcp_local env s t" "rx_inv isn D s" "listed s"
  shows "rx_inv isn D t"
  using assms(1)
proof cases
  case (step b r)
  then show ?thesis
    using rx_inv_frame [OF assms(2) rx_frame_trans [OF rx_frame_bookkeeping(4) rx_frame_xmit] assms(3)] by simp
next
  case (keepalive over t' r)
  then show ?thesis
    using rx_inv_frame [OF assms(2) rx_frame_trans [OF rx_frame_bookkeeping(2) rx_frame_keepalive_expired] assms(3)]
    by simp
qed (use assms(2,3) rx_inv_frame [OF assms(2) rx_frame_app_call assms(3)]
      rx_inv_frame [OF assms(2) rx_frame_discard assms(3)] in \<open>simp_all add: rx_inv_expired rx_inv_waited\<close>)

lemma tcp_run_inv: "tcp_run env isn D iss s \<Longrightarrow> rx_inv isn D s"
proof (induction rule: tcp_run.induct)
  case (opened table random_port st_peer st_local g g')
  then show ?case by (rule rx_inv_idle [OF open_idle])
next
  case (received s p seq flgs data st_src src dest ack raw_win options)
  have "rx_inv isn D (tcp_rx_ts options s)" "nearby p s \<longrightarrow> nearby p (tcp_rx_ts options s)"
    using rx_inv_frame [OF received.IH rx_frame_ts received.hyps(2)] rx_frame_ts [of s options]
    by (auto simp: nearby_def rx_frame_def)
  then show ?case
    using received.hyps(2,3) by (intro rx_conn_inv [where p = p]) auto
next
  case (local s t)
  then show ?case using rx_inv_local by blast
qed

text \<open>C3. Reception: whatever segments of the peer's stream \<open>D\<close> arrive, in whatever order, however
  often and with whatever else happening on the connection, the data delivered to the
  application is a prefix of \<open>D\<close>; and once the connection has received the FIN, it is all of
  \<open>D\<close>.\<close>

theorem rx_stream_correct:
  assumes "tcp_run env isn D iss s"
  shows "(\<exists>n. delivered s = take n D) \<and>
    (tcp_state s AND TCP_STATE_RCVD TCP_FIN \<noteq> 0 \<longrightarrow> delivered s = D)"
  using rx_inv_delivered [OF tcp_run_inv [OF assms]] rx_inv_fin [OF tcp_run_inv [OF assms]]
  by (auto simp: fin_rcvd_def)

definition demo_table :: "(bytes, unit) tcpip_net_protocol list" where
  "demo_table = [\<lparr>tcpip_net_name = ''IPv4'', sa_family = 2, header_len = 20,
     tcpip_net_tx = \<lambda>_ _ _ _ _ _. (), tcpip_net_netdev = \<lambda>_. Some \<lparr>netdev_mtu = 1500\<rparr>\<rparr>]"

definition demo_opened :: tcp_global where
  "demo_opened = snd (tcp_open demo_table quiet_env True 1000 0 demo_peer (Some (demo_peer\<lparr>st_port := 1025\<rparr>))
     \<lparr>conns = [], calls_made = [], all_pending = 0, all_failures = 0\<rparr>)"

lemma demo_opens:
  "tcp_open demo_table quiet_env True 1000 0 demo_peer (Some (demo_peer\<lparr>st_port := 1025\<rparr>))
     \<lparr>conns = [], calls_made = [], all_pending = 0, all_failures = 0\<rparr> = (None, demo_opened)"
  by code_simp

definition demo_syn_sent :: tcp_sys where
  "demo_syn_sent = tcp_expired quiet_env False
     ((attach demo_opened (hd (conns demo_opened)))\<lparr>timer := timer_init, refcnt := ref_init\<rparr>)"

definition demo_segment :: "u32 \<Rightarrow> u8 \<Rightarrow> bytes \<Rightarrow> tcp_sys \<Rightarrow> tcp_sys" where
  "demo_segment seq flgs data s =
     snd (tcp_rx_conn quiet_env demo_peer 80 1025 seq 0 8192 flgs no_options data (tcp_rx_ts no_options s))"

text \<open>The connection sends its SYN, receives a SYN, and then the data.\<close>

definition demo_syn_rcvd :: tcp_sys where
  "demo_syn_rcvd = demo_segment 7 TCP_SYN [] demo_syn_sent"
definition demo_data :: tcp_sys where
  "demo_data = demo_segment 8 TCP_FIN [1, 2, 3] demo_syn_rcvd"

lemma demo_conn:
  "listed (attach demo_opened (hd (conns demo_opened)))" "tcp_state (attach demo_opened (hd (conns demo_opened))) = 2"
  "rx_queue (attach demo_opened (hd (conns demo_opened))) = []" "tx_queue (attach demo_opened (hd (conns demo_opened))) = []"
  "trace (attach demo_opened (hd (conns demo_opened))) = []" "rcv_win (attach demo_opened (hd (conns demo_opened))) = 0"
  "flags (attach demo_opened (hd (conns demo_opened))) = 0" "rcv_win_scale (attach demo_opened (hd (conns demo_opened))) = 0"
  "snd_seq (attach demo_opened (hd (conns demo_opened))) = 1000" "peer (attach demo_opened (hd (conns demo_opened))) = demo_peer"
  by code_simp+

lemma xmit_packet_rcv_win:
  "rcv_win (tcp_xmit_packet env sack_seq len flgs s) = rcv_win (tcp_expand_rcv_win env s)"
  by (simp add: tcp_xmit_packet_def Let_def case_prod_beta split: option.split)

lemma xmit_sack_sends:
  assumes "\<not> running (timer s)" "tcp_xmit_seq_len s \<noteq> 0"
    "env_alloc_iob env (trace s) (tcp_xmit_len s + TCP_MAX_HEADER_LEN) = (0, True)"
  obtains t where
    "tcp_xmit_sack env q s = tcp_xmit_packet env q (tcp_xmit_len s) (TCP_FLAGS_SENDING (tcp_state s)) t"
    "listed t = listed s" "tcp_state t = tcp_state s" "rx_queue t = rx_queue s" "tx_queue t = tx_queue s"
    "rcv_win t = rcv_win s" "rcv_win_scale t = rcv_win_scale s" "flags t = flags s"
    "snd_seq t = snd_seq s" "peer t = peer s"
proof -
  define s2 where "s2 = (if TCP_FLAGS_SENDING (tcp_state s) AND (TCP_SYN OR TCP_FIN) \<noteq> 0
      then tcp_assert (\<not> (TCP_FLAGS_SENDING (tcp_state s) AND TCP_SYN \<noteq> 0 \<and>
             TCP_FLAGS_SENDING (tcp_state s) AND TCP_FIN \<noteq> 0)) s else s)\<lparr>snd_sent := tcp_xmit_seq_len s\<rparr>"
  have f: "listed s2 = listed s" "tcp_state s2 = tcp_state s" "rx_queue s2 = rx_queue s" "tx_queue s2 = tx_queue s"
    "rcv_win s2 = rcv_win s" "rcv_win_scale s2 = rcv_win_scale s" "flags s2 = flags s" "trace s2 = trace s"
    "snd_seq s2 = snd_seq s" "peer s2 = peer s"
    by (simp_all add: s2_def)
  have "tcp_xmit_sack env q s =
      (case tcp_alloc_iob env (tcp_xmit_len s + TCP_MAX_HEADER_LEN) (tcp_start_timer env s2) of
         (False, s4) \<Rightarrow> s4
       | (True, s4) \<Rightarrow> tcp_xmit_packet env q (tcp_xmit_len s) (TCP_FLAGS_SENDING (tcp_state s)) s4)"
    using assms(1,2) unfolding tcp_xmit_sack_def Let_def s2_def [symmetric] by simp
  then show thesis
    using that [of "snd (tcp_alloc_iob env (tcp_xmit_len s + TCP_MAX_HEADER_LEN) (tcp_start_timer env s2))"]
      assms(3) f by (simp add: tcp_alloc_iob_def)
qed

lemma demo_syn_sent_is:
  obtains q t where "demo_syn_sent = tcp_xmit_packet quiet_env q 0 TCP_SYN t"
    "listed t" "tcp_state t = 2" "rx_queue t = []" "tx_queue t = []" "rcv_win t = 0" "rcv_win_scale t = 0" "flags t = 0"
    "snd_seq t = 1000" "peer t = demo_peer"
proof -
  let ?s = "(attach demo_opened (hd (conns demo_opened)))\<lparr>timer := timer_init, refcnt := ref_init\<rparr>"
  have x: "tcp_xmit_seq_len ?s = 1" "tcp_xmit_len ?s = 0"
    using demo_conn by (simp_all add: tcp_xmit_seq_len_def tcp_xmit_len_def bit_simps)
  have e: "demo_syn_sent = tcp_xmit_sack quiet_env (rcv_ack ?s) ?s"
    using demo_conn by (simp add: demo_syn_sent_def tcp_expired_def tcp_xmit_def TCP_SYN_SENT_def state_defs
        tcp_assert_def)
  have f: "TCP_FLAGS_SENDING 2 = TCP_SYN"
    by (simp add: TCP_FLAGS_SENDING_def TCP_FLAGS_SENT_def TCP_FLAGS_ACKED_def TCP_SYN_def)
  have "\<not> running (timer ?s)" "env_alloc_iob quiet_env (trace ?s) (tcp_xmit_len ?s + TCP_MAX_HEADER_LEN) = (0, True)"
    by (simp_all add: timer_init_def quiet_env_def)
  then obtain t where "demo_syn_sent = tcp_xmit_packet quiet_env (rcv_ack ?s) 0 TCP_SYN t"
    "listed t" "tcp_state t = 2" "rx_queue t = []" "tx_queue t = []" "rcv_win t = 0" "rcv_win_scale t = 0" "flags t = 0"
    "snd_seq t = 1000" "peer t = demo_peer"
    using xmit_sack_sends [of ?s quiet_env "rcv_ack ?s"] demo_conn x f unfolding e by auto
  then show thesis by (rule that)
qed

lemma demo_syn_sent_fields:
  "listed demo_syn_sent" "tcp_state demo_syn_sent = 2" "rx_queue demo_syn_sent = []" "tx_queue demo_syn_sent = []"
  "rcv_win demo_syn_sent = 65532"
proof -
  obtain q t where t: "demo_syn_sent = tcp_xmit_packet quiet_env q 0 TCP_SYN t"
    "listed t" "tcp_state t = 2" "rx_queue t = []" "tx_queue t = []" "rcv_win t = 0" "rcv_win_scale t = 0" "flags t = 0"
    by (rule demo_syn_sent_is)
  show "listed demo_syn_sent" "tcp_state demo_syn_sent = 2" "rx_queue demo_syn_sent = []" "tx_queue demo_syn_sent = []"
    "rcv_win demo_syn_sent = 65532"
    using t(2-) unfolding t(1)
    by (simp_all add: xmit_packet_rcv_win tcp_expand_rcv_win_def tcp_xfer_peer_window_def xfer_closed_def
        quiet_env_def TCP_MAX_WINDOW_SIZE_def shl32_def Let_def)
qed

lemma demo_run_syn_sent: "tcp_run quiet_env isn D 1000 demo_syn_sent"
proof -
  have "tcp_run quiet_env isn D 1000 (attach demo_opened (hd (conns demo_opened)))"
    by (rule tcp_run.opened [OF demo_opens]) simp
  then show ?thesis unfolding demo_syn_sent_def by (rule tcp_run.local [OF _ demo_conn(1) tcp_local.expired])
qed

lemma demo_run_syn_rcvd: "tcp_run quiet_env 7 [1, 2, 3] 1000 demo_syn_rcvd" "rx_ok 7 [1, 2, 3] 0 demo_syn_rcvd"
  "listed demo_syn_rcvd" "rcv_win demo_syn_rcvd = 65531"
proof -
  note s = demo_run_syn_sent [of 7 "[1, 2, 3]"]
  have inv: "rx_idle demo_syn_sent"
    using tcp_run_inv [OF s] demo_syn_sent_fields by (auto simp: rx_inv_def rx_ok_def rx_at_def syn_rcvd_def)
  show "tcp_run quiet_env 7 [1, 2, 3] 1000 demo_syn_rcvd"
    unfolding demo_syn_rcvd_def demo_segment_def
    by (rule tcp_run.received [OF s demo_syn_sent_fields(1), where p = 0])
       (use inv in \<open>simp_all add: segment_def nearby_def rx_idle_def TCP_SYN_def TCP_FIN_def\<close>)
  let ?t = "tcp_rx_syn 7 no_options demo_syn_sent"
  have t: "rx_queue ?t = []" "tx_queue ?t = []" "listed ?t" "rcv_win ?t = 65531"
    "\<not> bit (tcp_state ?t) 9" "\<not> bit (tcp_state ?t) 8"
    using demo_syn_sent_fields by (simp_all add: tcp_rx_syn_def tcp_rx_seq_def Let_def no_options_def bit_or_iff tcp_assert_def)
  have q: "tcp_process_rx_queue quiet_env (tcp_rx_enqueue 8 TCP_SYN [] ?t) = ?t"
    using t(1) by (subst tcp_process_rx_queue.simps) (simp add: tcp_rx_enqueue_def)
  have "demo_syn_rcvd = tcp_rx_finish quiet_env 8 0 ?t"
    using demo_syn_sent_fields q
    by (simp add: demo_syn_rcvd_def demo_segment_def tcp_rx_conn_def tcp_rx_body_def tcp_xfer_window_def
        tcp_xmit_win_def state_defs tcp_rx_ts_def no_options_def)
  also have "\<dots> = tcp_process_add (tcp_dump_state ?t)"
    using t by (simp add: tcp_rx_finish_def Let_def tcp_xfer_window_def tcp_xmit_win_def)
  finally have r: "demo_syn_rcvd = tcp_process_add (tcp_dump_state ?t)" .
  show "listed demo_syn_rcvd" "rcv_win demo_syn_rcvd = 65531" using t by (simp_all add: r)
  have "rx_frame ?t demo_syn_rcvd" unfolding r by (rule rx_frameI) simp_all
  then show "rx_ok 7 [1, 2, 3] 0 demo_syn_rcvd" using rx_ok_frame rx_syn_idle [OF inv] by blast
qed

lemma demo_delivered: "delivered demo_data = [1, 2, 3]"
proof -
  have "segment 7 [1, 2, 3] 0 8 TCP_FIN [1, 2, 3]" by (simp add: segment_def TCP_SYN_def TCP_FIN_def)
  moreover have "rx_ok 7 [1, 2, 3] 0 (tcp_rx_ts no_options demo_syn_rcvd)"
    "rcv_win (tcp_rx_ts no_options demo_syn_rcvd) = 65531"
    using demo_run_syn_rcvd by (simp_all add: tcp_rx_ts_def no_options_def)
  ultimately obtain n where "Suc (Suc (Suc (Suc 0))) \<le> n" "rx_ok 7 [1, 2, 3] n demo_data"
    using rx_conn_progress [of 7 "[1, 2, 3]" 0 "tcp_rx_ts no_options demo_syn_rcvd" 0 8 TCP_FIN "[1, 2, 3]"
        quiet_env demo_peer 80 1025 0 8192 no_options]
    by (auto simp: demo_data_def demo_segment_def seg_end_def state_defs)
  then show ?thesis using rx_ok_delivered [of 7 "[1, 2, 3]" n demo_data] by simp
qed

theorem rx_stream_correct_witness:
  "tcp_run quiet_env 7 [1, 2, 3] 1000 demo_data \<and> delivered demo_data = [1, 2, 3] \<and>
   (\<exists>n. delivered demo_data = take n [1, 2, 3])"
proof -
  have "tcp_run quiet_env 7 [1, 2, 3] 1000 demo_data"
    unfolding demo_data_def demo_segment_def
    by (rule tcp_run.received [OF demo_run_syn_rcvd(1,3), where p = 0])
      (use rx_ok_delivered [OF demo_run_syn_rcvd(2)] in
        \<open>simp_all add: segment_def nearby_def TCP_SYN_def TCP_FIN_def\<close>)
  then show ?thesis using rx_stream_correct demo_delivered by blast
qed

text \<open>C32. Progress of reception: a segment that continues or overlaps what has been received, on a
  connection with an open window, is delivered to the application at once, up to its end.\<close>

theorem rx_in_order_delivered:
  assumes "tcp_run env isn D iss s" "listed s" "tcp_state s AND TCP_STATE_RCVD TCP_SYN \<noteq> 0"
    "segment isn D p seq flgs data" "p \<le> length (delivered s)" "length (delivered s) < p + 2 ^ 29"
    "0 < rcv_win s" "rcv_win s \<le> 2 ^ 30" "flgs AND (TCP_SYN OR TCP_RST) = 0"
    "flgs AND TCP_ACK = 0 \<or> TCP_HAS_BEEN_ESTABLISHED (tcp_state s)"
  shows "\<exists>n\<ge>p + length data.
    delivered (snd (tcp_rx_conn env st_src src dest seq ack raw_win flgs options data s)) = take n D"
proof -
  obtain n where n: "rx_ok isn D n s"
    using tcp_run_inv [OF assms(1)] assms(2,3) by (auto simp: rx_inv_def rx_idle_def syn_rcvd_def)
  then have "n = length (delivered s) \<or> n = Suc (length (delivered s))" by (auto simp: rx_ok_def rx_at_def)
  then have "p \<le> n" "n \<le> p + 2 ^ 29" using assms(5,6) by auto
  from rx_conn_progress [OF n assms(4) this assms(7-10)]
  obtain n' where "seg_end p flgs data \<le> n'"
      "rx_ok isn D n' (snd (tcp_rx_conn env st_src src dest seq ack raw_win flgs options data s))" by blast
  then show ?thesis using rx_ok_delivered by (intro exI [of _ n']) (simp add: seg_end_def)
qed

theorem rx_in_order_delivered_witness:
  "\<exists>n\<ge>0 + length [1, 2, 3 :: u8].
     delivered (snd (tcp_rx_conn quiet_env demo_peer 80 1025 8 0 8192 TCP_FIN no_options [1, 2, 3] demo_syn_rcvd))
       = take n [1, 2, 3]"
proof (rule rx_in_order_delivered [OF demo_run_syn_rcvd(1,3)])
  show "tcp_state demo_syn_rcvd AND TCP_STATE_RCVD TCP_SYN \<noteq> 0"
    using demo_run_syn_rcvd(2) by (auto simp: rx_ok_def rx_at_def syn_rcvd_def)
qed (use demo_run_syn_rcvd(4) rx_ok_delivered [OF demo_run_syn_rcvd(2)] in
      \<open>simp_all add: segment_def state_defs\<close>)
end
