(* ===== verification/Tcp_Transmit.thy ===== *)
theory Tcp_Transmit
  imports Tcp_Stream
begin

text \<open>
  Transmission: every packet that a connection sends is a segment of the stream that its
  application handed over, so that the two directions of a connection fit together.
\<close>

section \<open>The transmit queue\<close>

text \<open>
  The queue is the concatenation of its buffers: its first \<open>n\<close> bytes are copied, and removed
  from the front; only buffers that have become empty are freed.
\<close>

lemma process_tx_queue_copy:
  "process_tx_queue n False queue = (min n (length (concat queue)), take n (concat queue), queue, 0)"
  by (induction queue arbitrary: n) (auto simp: Let_def)

lemma process_tx_queue_remove:
  "fst (process_tx_queue n True queue) = min n (length (concat queue)) \<and>
   concat (fst (snd (snd (process_tx_queue n True queue)))) = drop n (concat queue) \<and>
   length queue = length (fst (snd (snd (process_tx_queue n True queue)))) + snd (snd (snd (process_tx_queue n True queue)))"
  by (induction queue arbitrary: n) (auto simp: Let_def case_prod_beta)

section \<open>The bytes of a packet\<close>

lemma get32_put32: "put32 x = [a, b, c, d] \<Longrightarrow> get32 a b c d = x"
proof (rule bit_word_eqI)
  fix n assume p: "put32 x = [a, b, c, d]" and "n < LENGTH(32)"
  then consider "n < 8" | "8 \<le> n" "n < 16" | "16 \<le> n" "n < 24" | "24 \<le> n" "n < 32" by fastforce
  then show "bit (get32 a b c d) n \<longleftrightarrow> bit x n"
    using p by cases (auto simp: put32_def get32_def bit_simps)
qed

lemma header_fields:
  assumes "length csum = 2"
  shows "length (tcp_header src dest seq ack hlen flgs win csum) = 20"
    "tcp_header src dest seq ack hlen flgs win csum ! 12 = hlen"
    "tcp_header src dest seq ack hlen flgs win csum ! 13 = flgs"
    "get32 (tcp_header src dest seq ack hlen flgs win csum ! 4) (tcp_header src dest seq ack hlen flgs win csum ! 5)
       (tcp_header src dest seq ack hlen flgs win csum ! 6) (tcp_header src dest seq ack hlen flgs win csum ! 7) = seq"
proof -
  obtain x y where c: "csum = [x, y]" using assms by (cases csum; cases "tl csum") auto
  show "length (tcp_header src dest seq ack hlen flgs win csum) = 20"
    "tcp_header src dest seq ack hlen flgs win csum ! 12 = hlen"
    "tcp_header src dest seq ack hlen flgs win csum ! 13 = flgs"
    by (simp_all add: tcp_header_def put16_def put32_def c)
  show "get32 (tcp_header src dest seq ack hlen flgs win csum ! 4) (tcp_header src dest seq ack hlen flgs win csum ! 5)
       (tcp_header src dest seq ack hlen flgs win csum ! 6) (tcp_header src dest seq ack hlen flgs win csum ! 7) = seq"
    by (rule get32_put32) (simp add: tcp_header_def put16_def put32_def c)
qed

lemma sack_count: "fst (tcp_sack q s) \<le> 3"
proof -
  have "length new \<le> 3 \<Longrightarrow> length (tcp_sack_old s old new) \<le> 3" for old new
    by (induction old arbitrary: new) (auto simp: TCP_SACK_MAX_def split: option.split)
  then show ?thesis by (simp add: tcp_sack_def Let_def split: option.split)
qed

definition quads :: "bytes \<Rightarrow> nat \<Rightarrow> bool" where
  "quads opts m \<longleftrightarrow> (\<exists>k\<le>m. length opts = 4 * k)"

text \<open>Options are put in front of the payload and fill whole words.\<close>

lemma push_syn_data:
  "\<exists>opts. pkt_data (fst (push_syn_options flgs ps)) = opts @ pkt_data (fst ps) \<and>
     quads opts (if flgs AND TCP_SYN \<noteq> 0 then 3 else 0)"
  by (auto simp: push_syn_options_def pkt_push_def case_prod_beta Let_def quads_def tcp_mss_option_def put16_def
      tcp_window_scale_padded_option_def tcp_sack_permitted_padded_option_def)

lemma push_ts_data:
  "\<exists>opts. pkt_data (fst (push_ts_option env flgs ps)) = opts @ pkt_data (fst ps) \<and> quads opts 3"
proof (cases "flgs AND TCP_SYN \<noteq> 0 \<or> flags (snd ps) AND TCP_TS_ENABLED \<noteq> 0")
  case True
  then show ?thesis
    by (auto simp: push_ts_option_def pkt_push_def case_prod_beta Let_def quads_def tcp_timestamp_padded_option_def put32_def)
qed (auto simp: push_ts_option_def quads_def)

lemma length_sack_option: "length (tcp_sack_padded_option blocks) = 4 * (1 + 2 * length blocks)"
  by (induction blocks) (simp_all add: tcp_sack_padded_option_def put32_def)

lemma push_sack_data:
  "\<exists>opts. pkt_data (fst (push_sack_option q ps)) = opts @ pkt_data (fst ps) \<and>
     quads opts (if rx_queue (snd ps) \<noteq> [] then 7 else 0)"
proof -
  have "quads (tcp_sack_padded_option (take (fst (tcp_sack q s)) blocks)) 7" for s blocks
    using sack_count [of q s] unfolding quads_def length_sack_option
    by (intro exI [of _ "1 + 2 * length (take (fst (tcp_sack q s)) blocks)"]) auto
  moreover have "quads [] n" for n by (simp add: quads_def)
  ultimately show ?thesis
    by (auto simp: push_sack_option_def pkt_push_def case_prod_beta Let_def)
qed

lemma push_options_data:
  "\<exists>opts. pkt_data (fst (tcp_push_options env flgs q ps)) = opts @ pkt_data (fst ps) \<and>
     quads opts (if flgs AND TCP_SYN \<noteq> 0 \<and> rx_queue (snd ps) \<noteq> [] then 13 else 10)"
proof -
  obtain o1 where 1: "pkt_data (fst (push_syn_options flgs ps)) = o1 @ pkt_data (fst ps)"
      "quads o1 (if flgs AND TCP_SYN \<noteq> 0 then 3 else 0)" using push_syn_data by blast
  obtain o2 where 2: "pkt_data (fst (push_ts_option env flgs (push_syn_options flgs ps))) = o2 @ o1 @ pkt_data (fst ps)"
      "quads o2 3" using push_ts_data [of env flgs "push_syn_options flgs ps"] unfolding 1(1) by blast
  let ?ps = "push_ts_option env flgs (push_syn_options flgs ps)"
  have rq: "rx_queue (snd ?ps) = rx_queue (snd ps)" by (simp add: push_ts_option_def push_syn_options_def)
  obtain o3 where 3: "pkt_data (fst (tcp_push_options env flgs q ps)) = o3 @ o2 @ o1 @ pkt_data (fst ps)"
      "quads o3 (if rx_queue (snd ps) \<noteq> [] then 7 else 0)"
    using push_sack_data [of q ?ps] unfolding 2(1) tcp_push_options_def rq by blast
  have "quads (o3 @ o2 @ o1) (if flgs AND TCP_SYN \<noteq> 0 \<and> rx_queue (snd ps) \<noteq> [] then 13 else 10)"
  proof -
    obtain a b c where "length o1 = 4 * a" "length o2 = 4 * b" "length o3 = 4 * c" "b \<le> 3"
        "c \<le> (if rx_queue (snd ps) \<noteq> [] then 7 else 0)"
        "a \<le> (if flgs AND TCP_SYN \<noteq> 0 then 3 else 0)" using 1(2) 2(2) 3(2) unfolding quads_def by blast
    then show ?thesis unfolding quads_def by (intro exI [of _ "a + b + c"]) (auto split: if_splits)
  qed
  then show ?thesis using 3(1) by (intro exI [of _ "o3 @ o2 @ o1"]) simp
qed

lemma hlen_field:
  assumes "k \<le> 15"
  shows "unat (of_nat (16 * k) AND TCP_MASK_HLEN :: u8) div 16 * 4 = 4 * k"
proof -
  have "\<forall>k\<in>set [0..<16]. unat (of_nat (16 * k) AND TCP_MASK_HLEN :: u8) div 16 * 4 = 4 * k"
    by (simp add: upt_conv_Cons TCP_MASK_HLEN_def)
  then show ?thesis using assms by simp
qed

lemma hlen_field_long:
  assumes "15 < k" "k \<le> 18"
  shows "unat (of_nat (16 * k) AND TCP_MASK_HLEN :: u8) div 16 * 4 < 20"
proof -
  have "k \<in> {16, 17, 18}" using assms by auto
  then show ?thesis by (auto simp: TCP_MASK_HLEN_def)
qed

text \<open>
  What a packet carries: its sequence number, its flags, and -- unless the header is too long
  for its length field, which only happens with a SYN and packets on the receive queue -- its
  payload.
\<close>

definition packet_of :: "u32 \<Rightarrow> u8 \<Rightarrow> bytes \<Rightarrow> bool \<Rightarrow> bytes \<Rightarrow> bool" where
  "packet_of seq flgs payload long pkt \<longleftrightarrow>
     20 \<le> length pkt \<and> get32 (pkt ! 4) (pkt ! 5) (pkt ! 6) (pkt ! 7) = seq \<and> pkt ! 13 = flgs \<and>
     (20 \<le> tcp_hlen pkt \<and> drop (tcp_hlen pkt) pkt = payload \<or> flgs AND TCP_SYN \<noteq> 0 \<and> long \<and> tcp_hlen pkt < 20)"

lemma csum_bytes_length [simp]: "length (csum_bytes c) = 2"
  by (simp add: csum_bytes_def)

lemma header_packet_of:
  assumes "quads opts (if flgs AND TCP_SYN \<noteq> 0 \<and> long then 13 else 10)" "flgs' AND TCP_SYN = flgs AND TCP_SYN"
  shows "packet_of seq flgs' payload long
    (tcp_with_csum (tcp_header src dest seq ack (of_nat ((20 + length opts) * 4)) flgs' win) (opts @ payload))"
proof -
  let ?h = "\<lambda>csum. tcp_header src dest seq ack (of_nat ((20 + length opts) * 4)) flgs' win csum"
  let ?c = "csum_bytes (tcpip_chksum (?h [0, 0] @ opts @ payload))"
  let ?p = "?h ?c @ opts @ payload"
  obtain k where k: "length opts = 4 * k" "k \<le> (if flgs AND TCP_SYN \<noteq> 0 \<and> long then 13 else 10)"
    using assms(1) by (auto simp: quads_def)
  have h: "length (?h ?c) = 20" "?h ?c ! 12 = of_nat ((20 + length opts) * 4)" "?h ?c ! 13 = flgs'"
    "get32 (?h ?c ! 4) (?h ?c ! 5) (?h ?c ! 6) (?h ?c ! 7) = seq"
    using header_fields [of ?c src dest seq ack "of_nat ((20 + length opts) * 4)" flgs' win] by simp_all
  have nth: "?p ! i = ?h ?c ! i" if "i < 20" for i using that h(1) by (simp add: nth_append)
  have hlen: "tcp_hlen ?p = unat (of_nat (16 * (5 + k)) AND TCP_MASK_HLEN :: u8) div 16 * 4"
    using nth [of 12] h(2) k(1) by (simp add: tcp_hlen_def algebra_simps)
  have "20 \<le> tcp_hlen ?p \<and> drop (tcp_hlen ?p) ?p = payload \<or>
      flgs' AND TCP_SYN \<noteq> 0 \<and> long \<and> tcp_hlen ?p < 20"
  proof (cases "5 + k \<le> 15")
    case True
    then have "tcp_hlen ?p = 20 + length opts" using hlen_field [OF True] hlen k(1) by simp
    then show ?thesis using h(1) by simp
  next
    case False
    then show ?thesis using k(2) hlen_field_long [of "5 + k"] hlen assms(2) by (simp split: if_splits)
  qed
  then show ?thesis
    using h nth [of 4] nth [of 5] nth [of 6] nth [of 7] nth [of 13]
    unfolding packet_of_def tcp_with_csum_def by simp
qed

lemma psh_bits [simp]: "\<not> bit TCP_PSH 0" "\<not> bit TCP_PSH (Suc 0)" "\<not> bit TCP_PSH 2"
  by (simp_all add: TCP_PSH_def)

lemma and_rst [simp]: "f AND TCP_RST = 0 \<longleftrightarrow> \<not> bit f 2"
  using and_exp_eq_0_iff_not_bit [of f 2] by (simp add: TCP_RST_def)

lemma xmit_packet_sends:
  obtains pkt rc where "trace (tcp_xmit_packet env q len flgs s) = Tcpip_tx pkt (peer s) rc # trace s"
    "packet_of (snd_seq s) (if len \<noteq> 0 then flgs OR TCP_PSH else flgs) (take len (concat (tx_queue s)))
      (rx_queue s \<noteq> []) (pkt_data pkt)"
proof -
  let ?payload = "take len (concat (tx_queue s))"
  let ?flgs = "if len \<noteq> 0 then flgs OR TCP_PSH else flgs"
  let ?s1 = "tcp_expand_rcv_win env s"
  obtain pkt2 s2 where p2: "tcp_push_options env flgs q (\<lparr>pkt_headroom = int TCP_MAX_HEADER_LEN, pkt_data = ?payload\<rparr>, ?s1)
      = (pkt2, s2)" by fastforce
  have f2: "snd_seq s2 = snd_seq s" "peer s2 = peer s" "trace s2 = trace s"
    using arg_cong [OF p2, of "\<lambda>x. snd_seq (snd x)"] arg_cong [OF p2, of "\<lambda>x. peer (snd x)"]
      arg_cong [OF p2, of "\<lambda>x. trace (snd x)"] by simp_all
  obtain opts where opts: "pkt_data pkt2 = opts @ ?payload" "quads opts (if flgs AND TCP_SYN \<noteq> 0 \<and> rx_queue s \<noteq> [] then 13 else 10)"
    using push_options_data [of env flgs q "(\<lparr>pkt_headroom = int TCP_MAX_HEADER_LEN, pkt_data = ?payload\<rparr>, ?s1)"] p2
    by auto
  obtain pkt3 s3 where p3: "pkt_push (replicate 20 0) (pkt2, s2) = (pkt3, s3)" by fastforce
  have f3: "snd_seq s3 = snd_seq s" "peer s3 = peer s" "trace s3 = trace s"
    using arg_cong [OF p3, of "\<lambda>x. snd_seq (snd x)"] arg_cong [OF p3, of "\<lambda>x. peer (snd x)"]
      arg_cong [OF p3, of "\<lambda>x. trace (snd x)"] f2 by simp_all
  have d3: "pkt_data pkt3 = replicate 20 0 @ opts @ ?payload"
    using arg_cong [OF p3, of "\<lambda>x. pkt_data (fst x)"] opts(1) by (simp add: pkt_push_def Let_def)
  define hdr where "hdr = tcp_header (ucast (local_port s3)) (st_port (peer s)) (snd_seq s) (rcv_ack s3)
    (of_nat ((20 + length opts) * 4)) ?flgs (ucast (drop_bit (unat (rcv_win_scale s3)) (rcv_win s3)))"
  define pkt where "pkt = pkt3\<lparr>pkt_data := tcp_with_csum hdr (opts @ ?payload)\<rparr>"
  define rc where "rc = env_tcpip_tx env (trace s) pkt (peer s)"
  define s4 where "s4 = s3\<lparr>trace := Tcpip_tx pkt (peer s) rc # trace s3\<rparr>"
  have l3: "length (pkt_data pkt3) - length ?payload = 20 + length opts" "drop 20 (pkt_data pkt3) = opts @ ?payload"
    by (simp_all add: d3)
  have payload: "tcp_tx_queue_data len s = ?payload"
    by (simp add: tcp_tx_queue_data_def process_tx_queue_copy)
  have "tcp_xmit_packet env q len flgs s =
      (case rc of Some e \<Rightarrow> s4 | None \<Rightarrow> s4\<lparr>flags := flags s4 AND NOT TCP_ACK_PENDING\<rparr>)"
    unfolding tcp_xmit_packet_def Let_def payload p2 prod.case p3 s4_def rc_def pkt_def hdr_def f3 l3
    by (rule refl)
  then have "trace (tcp_xmit_packet env q len flgs s) = Tcpip_tx pkt (peer s) rc # trace s"
    by (simp add: s4_def f3(3) split: option.split)
  moreover have "packet_of (snd_seq s) ?flgs ?payload (rx_queue s \<noteq> []) (pkt_data pkt)"
  proof -
    have "?flgs AND TCP_SYN = flgs AND TCP_SYN"
      by (auto simp: bit_eq_iff [where ?'a = "8 word"] bit_and_iff bit_or_iff)
    moreover have "pkt_data pkt = tcp_with_csum hdr (opts @ ?payload)" by (simp add: pkt_def)
    ultimately show ?thesis unfolding hdr_def by (simp only: header_packet_of [OF opts(2)])
  qed
  ultimately show thesis by (rule that)
qed

section \<open>What has been handed over and what has been sent\<close>

fun handed_calls :: "tcp_call list \<Rightarrow> bytes" where
  "handed_calls [] = []"
| "handed_calls (App_data d # calls) = handed_calls calls @ d"
| "handed_calls (_ # calls) = handed_calls calls"

abbreviation handed :: "tcp_sys \<Rightarrow> bytes" where
  "handed s \<equiv> handed_calls (trace s)"

definition pkt_seq :: "bytes \<Rightarrow> u32" where
  "pkt_seq pkt = get32 (pkt ! 4) (pkt ! 5) (pkt ! 6) (pkt ! 7)"

text \<open>
  A packet is a reset, or has a header that any receiver refuses, or is a segment of the
  stream \<open>T\<close>; a FIN is only sent when the stream is closed.
\<close>

definition pkt_ok :: "u32 \<Rightarrow> bytes \<Rightarrow> bool \<Rightarrow> bytes \<Rightarrow> bool" where
  "pkt_ok iss T closed pkt \<longleftrightarrow>
     is_reset (pkt ! 13) (drop (tcp_hlen pkt) pkt) \<or> tcp_hlen pkt < 20 \<or>
     (\<exists>p\<le>length T + 1. segment iss T p (pkt_seq pkt) (pkt ! 13) (drop (tcp_hlen pkt) pkt)) \<and>
     (pkt ! 13 AND TCP_FIN \<noteq> 0 \<longrightarrow> closed)"

definition pkts_ok :: "u32 \<Rightarrow> tcp_sys \<Rightarrow> bool" where
  "pkts_ok iss s \<longleftrightarrow>
     (\<forall>pkt dest rc. Tcpip_tx pkt dest rc \<in> set (trace s) \<longrightarrow> pkt_ok iss (handed s) (xfer_closed s) (pkt_data pkt))"

definition sending_flag :: "u32 \<Rightarrow> bool" where
  "sending_flag st \<longleftrightarrow> bit st 0 \<and> \<not> bit st 8 \<or> bit st 1 \<and> \<not> bit st 9"

definition tx_state :: "u32 \<Rightarrow> tcp_sys \<Rightarrow> bool" where
  "tx_state iss s \<longleftrightarrow> (let st = tcp_state s; T = handed s in
     bit st 1 \<and> (bit st 0 \<longrightarrow> tx_queue s = [] \<and> xfer_closed s) \<and> (bit st 8 \<longrightarrow> bit st 0 \<and> bit st 9) \<and>
     (if bit st 9
      then \<exists>k\<le>length T + of_bool (bit st 8). snd_seq s = seq_of iss k \<and> (\<not> bit st 8 \<longrightarrow> concat (tx_queue s) = drop k T)
      else snd_seq s = iss \<and> concat (tx_queue s) = T) \<and>
     unat (snd_sent s) \<le> length (concat (tx_queue s)) + of_bool (sending_flag st) \<and>
     (sending_flag st \<longrightarrow> snd_sent s \<le> 1))"

text \<open>A connection that has been deleted is in the state CLOSED.\<close>

definition tx_inv :: "u32 \<Rightarrow> tcp_sys \<Rightarrow> bool" where
  "tx_inv iss s \<longleftrightarrow> pkts_ok iss s \<and> (if listed s then tx_state iss s else tcp_state s = TCP_CLOSED)"

text \<open>A step that leaves transmission alone.\<close>

definition tx_bits :: "u32 \<Rightarrow> bool list" where
  "tx_bits st = map (bit st) [0, 1, 8, 9]"

definition tx_calls :: "tcp_call list \<Rightarrow> tcp_call list" where
  "tx_calls calls = filter (\<lambda>c. case c of Tcpip_tx _ _ _ \<Rightarrow> True | App_data _ \<Rightarrow> True | _ \<Rightarrow> False) calls"

definition tx_frame :: "tcp_sys \<Rightarrow> tcp_sys \<Rightarrow> bool" where
  "tx_frame s t \<longleftrightarrow>
     snd_seq t = snd_seq s \<and> snd_sent t = snd_sent s \<and> tx_queue t = tx_queue s \<and>
     tx_bits (tcp_state t) = tx_bits (tcp_state s) \<and> xfer_closed t = xfer_closed s \<and>
     listed t = listed s \<and> (\<not> listed s \<longrightarrow> tcp_state t = tcp_state s) \<and>
     tx_calls (trace t) = tx_calls (trace s)"

lemma tx_frame_refl [simp, intro]: "tx_frame s s"
  by (simp add: tx_frame_def)

lemma tx_frame_trans: "tx_frame s t \<Longrightarrow> tx_frame t u \<Longrightarrow> tx_frame s u"
  by (simp add: tx_frame_def)

lemma handed_tx_calls: "handed_calls (tx_calls calls) = handed_calls calls"
  by (induction calls rule: handed_calls.induct) (simp_all add: tx_calls_def)

lemma tx_calls_mem: "Tcpip_tx pkt dest rc \<in> set (tx_calls calls) \<longleftrightarrow> Tcpip_tx pkt dest rc \<in> set calls"
  by (simp add: tx_calls_def)

lemma tx_frame_handed: "tx_frame s t \<Longrightarrow> handed t = handed s"
  unfolding handed_tx_calls [of "trace t", symmetric] handed_tx_calls [of "trace s", symmetric]
  by (simp only: tx_frame_def)

lemma tx_inv_frame: "tx_inv iss s \<Longrightarrow> tx_frame s t \<Longrightarrow> tx_inv iss t"
proof -
  assume inv: "tx_inv iss s" and f: "tx_frame s t"
  have c: "tx_calls (trace t) = tx_calls (trace s)" using f by (simp add: tx_frame_def)
  have h: "handed t = handed s" by (rule tx_frame_handed [OF f])
  have m: "Tcpip_tx pkt dest rc \<in> set (trace t) \<longleftrightarrow> Tcpip_tx pkt dest rc \<in> set (trace s)" for pkt dest rc
    unfolding tx_calls_mem [of _ _ _ "trace t", symmetric] tx_calls_mem [of _ _ _ "trace s", symmetric] c by (rule refl)
  have b: "bit (tcp_state t) n = bit (tcp_state s) n" if "n \<in> {0, 1, 8, 9}" for n
    using f that by (auto simp: tx_frame_def tx_bits_def)
  have "pkts_ok iss t" using inv f by (simp add: tx_inv_def pkts_ok_def h m tx_frame_def)
  moreover have "tx_state iss t = tx_state iss s"
    using f b [of 0] b [of 1] b [of 8] b [of 9] h by (simp add: tx_state_def sending_flag_def tx_frame_def Let_def)
  ultimately show ?thesis using inv f by (auto simp: tx_inv_def tx_frame_def split: if_splits)
qed

section \<open>Sending a packet\<close>

lemma sending_flags_bits:
  "bit (TCP_FLAGS_SENDING st) 0 \<longleftrightarrow> bit st 0 \<and> \<not> bit st 8"
  "bit (TCP_FLAGS_SENDING st) (Suc 0) \<longleftrightarrow> bit st 1 \<and> \<not> bit st 9"
  "bit (TCP_FLAGS_SENDING st) 2 \<longleftrightarrow> bit st 2 \<and> \<not> bit st 10"
  by simp_all

lemma xmit_len_bound:
  "tcp_xmit_len s \<le> length (concat (tx_queue s))" "tcp_xmit_len s \<le> 1208"
  "sending_flag (tcp_state s) \<Longrightarrow> bit (tcp_state s) 1 \<Longrightarrow> tcp_xmit_len s = 0"
  by (auto simp: tcp_xmit_len_def tcp_tx_queue_len_def process_tx_queue_copy tcp_xmit_win_def TCP_PATH_MTU_def
      Let_def sending_flag_def)

lemma take_length_take: "take (length (take n xs)) xs = take n xs"
  by (cases "n \<le> length xs") simp_all

lemma xmit_pkt_ok:
  assumes inv: "tcp_state s = TCP_CLOSED \<or> tx_state iss s"
    and F: "F = (if tcp_xmit_len s \<noteq> 0 then TCP_FLAGS_SENDING (tcp_state s) OR TCP_PSH else TCP_FLAGS_SENDING (tcp_state s))"
    and pkt: "packet_of (snd_seq s) F (take (tcp_xmit_len s) (concat (tx_queue s))) long pkt"
  shows "pkt_ok iss (handed s) (xfer_closed s) pkt"
proof (cases "tcp_state s = TCP_CLOSED")
  case True
  then have "tcp_xmit_len s = 0" "F = TCP_RST"
    by (simp_all add: F tcp_xmit_len_def TCP_CLOSED_def TCP_FLAGS_SENDING_def TCP_FLAGS_SENT_def TCP_FLAGS_ACKED_def TCP_RST_def)
  then show ?thesis using pkt by (auto simp: pkt_ok_def packet_of_def is_reset_def TCP_RST_def)
next
  case False
  let ?st = "tcp_state s" and ?T = "handed s"
  have st: "tx_state iss s" using inv False by simp
  have bits: "bit F 0 \<longleftrightarrow> bit ?st 0 \<and> \<not> bit ?st 8" "bit F (Suc 0) \<longleftrightarrow> \<not> bit ?st 9"
    using st by (simp_all add: F bit_or_iff tx_state_def Let_def)
  have hdr: "pkt_seq pkt = snd_seq s" "pkt ! 13 = F" using pkt by (simp_all add: packet_of_def pkt_seq_def)
  show ?thesis
  proof (cases "bit ?st 9")
    case False
    then have "tcp_xmit_len s = 0" using xmit_len_bound(3) st by (simp add: tx_state_def Let_def sending_flag_def)
    moreover have "segment iss ?T 0 (snd_seq s) F []"
      using st False by (auto simp: segment_def bits tx_state_def Let_def)
    ultimately show ?thesis
      using pkt st by (auto simp: pkt_ok_def packet_of_def hdr bits tx_state_def Let_def)
  next
    case True
    then obtain k where k0: "k \<le> length ?T + of_bool (bit ?st 8)" "snd_seq s = seq_of iss k"
        "\<not> bit ?st 8 \<longrightarrow> concat (tx_queue s) = drop k ?T"
      using st by (auto simp only: tx_state_def Let_def if_True)
    have k: "k \<le> length ?T + 1" "snd_seq s = seq_of iss k"
        "\<not> bit ?st 8 \<Longrightarrow> k \<le> length ?T \<and> concat (tx_queue s) = drop k ?T" "bit ?st 0 \<Longrightarrow> tx_queue s = []"
      using k0 st by (auto simp: tx_state_def Let_def of_bool_def split: if_splits)
    define d where "d = take (tcp_xmit_len s) (concat (tx_queue s))"
    have "d = take (length d) (drop k ?T)"
    proof (cases "bit ?st 8")
      case True
      then show ?thesis using st by (simp add: tx_state_def Let_def d_def)
    next
      case False
      show ?thesis unfolding d_def conjunct2 [OF k(3) [OF False]] take_length_take by (rule refl)
    qed
    moreover have "length d < 2 ^ 16" using xmit_len_bound(2) [of s] by (simp add: d_def)
    moreover have "k + length d = length ?T" if "bit ?st 0" "\<not> bit ?st 8" using k(3,4) that by (simp add: d_def)
    ultimately have "segment iss ?T k (snd_seq s) F d"
      using True k(2) by (simp add: segment_def bits seq_of_def)
    moreover have "drop (tcp_hlen pkt) pkt = d" using pkt True by (simp add: packet_of_def bits d_def)
    moreover have "bit F 0 \<longrightarrow> xfer_closed s" using st by (simp add: bits tx_state_def Let_def)
    ultimately show ?thesis using k(1) by (auto simp: pkt_ok_def hdr)
  qed
qed

text \<open>After sending, the sequence space sent is within what the connection has to send.\<close>

lemma xmit_seq_len_ok:
  assumes "tx_state iss s"
  shows "tx_state iss (s\<lparr>snd_sent := tcp_xmit_seq_len s\<rparr>)"
proof -
  have b: "bit (tcp_state s) 1" using assms by (simp add: tx_state_def Let_def)
  have f: "TCP_FLAGS_SENDING (tcp_state s) AND (TCP_SYN OR TCP_FIN) \<noteq> 0 \<longleftrightarrow> sending_flag (tcp_state s)"
    by (auto simp: sending_flag_def)
  have "unat (tcp_xmit_seq_len s) \<le> length (concat (tx_queue s)) + of_bool (sending_flag (tcp_state s)) \<and>
      (sending_flag (tcp_state s) \<longrightarrow> tcp_xmit_seq_len s \<le> 1)"
  proof (cases "sending_flag (tcp_state s)")
    case True
    then show ?thesis using xmit_len_bound(3) [OF True b] f by (simp add: tcp_xmit_seq_len_def)
  next
    case False
    have "tcp_xmit_len s < 2 ^ 32" using xmit_len_bound(2) [of s] by simp
    then show ?thesis
      using False f xmit_len_bound(1) [of s] by (simp add: tcp_xmit_seq_len_def unat_of_nat)
  qed
  then show ?thesis using assms by (simp add: tx_state_def Let_def xfer_closed_def)
qed

lemma tx_frameI:
  assumes "snd_seq t = snd_seq s" "snd_sent t = snd_sent s" "tx_queue t = tx_queue s"
    "tcp_state t = tcp_state s" "flags t AND TCP_XFER_CLOSED = flags s AND TCP_XFER_CLOSED" "listed t = listed s"
    "tx_calls (trace t) = tx_calls (trace s)"
  shows "tx_frame s t"
  using assms by (simp add: tx_frame_def xfer_closed_def)

lemma tx_calls_simps [simp]:
  "tx_calls (Alloc_iob n r ok # calls) = tx_calls calls"
  "tx_calls (Tcpip_tx pkt dest rc # calls) = Tcpip_tx pkt dest rc # tx_calls calls"
  "tx_calls (Xfer_deliver d rc # calls) = tx_calls calls"
  "tx_calls (Xfer_window_changed # calls) = tx_calls calls"
  "tx_calls (Intf_shutdown rc # calls) = tx_calls calls"
  "tx_calls (App_data d # calls) = App_data d # tx_calls calls"
  by (simp_all add: tx_calls_def)

lemma tx_frame_alloc: "tx_frame s (snd (tcp_alloc_iob env len s))"
  by (rule tx_frameI) (simp_all add: tcp_alloc_iob_def case_prod_beta)

lemma ack_pending_closed: "(f AND NOT TCP_ACK_PENDING) AND TCP_XFER_CLOSED = f AND TCP_XFER_CLOSED"
  by (simp add: TCP_ACK_PENDING_def TCP_XFER_CLOSED_def and.assoc)

lemma xmit_packet_closed [simp]: "xfer_closed (tcp_xmit_packet env q len flgs s) = xfer_closed s"
  by (simp add: tcp_xmit_packet_def Let_def case_prod_beta xfer_closed_def ack_pending_closed split: option.split)

lemma tx_inv_send:
  assumes "tx_inv iss s" "trace t = Tcpip_tx pkt dest rc # trace s" "snd_seq t = snd_seq s"
    "snd_sent t = snd_sent s" "tx_queue t = tx_queue s" "tcp_state t = tcp_state s" "xfer_closed t = xfer_closed s"
    "listed t = listed s" "pkt_ok iss (handed s) (xfer_closed s) (pkt_data pkt)"
  shows "tx_inv iss t"
  using assms by (auto simp: tx_inv_def pkts_ok_def tx_state_def Let_def)

lemma tx_inv_xmit_sack:
  assumes inv: "tx_inv iss s"
  shows "tx_inv iss (tcp_xmit_sack env q s)"
proof (cases "running (timer s)")
  case False
  define s1 where "s1 = (if TCP_FLAGS_SENDING (tcp_state s) AND (TCP_SYN OR TCP_FIN) \<noteq> 0
      then tcp_assert (\<not> (TCP_FLAGS_SENDING (tcp_state s) AND TCP_SYN \<noteq> 0 \<and>
             TCP_FLAGS_SENDING (tcp_state s) AND TCP_FIN \<noteq> 0)) s else s)"
  define s2 where "s2 = s1\<lparr>snd_sent := tcp_xmit_seq_len s\<rparr>"
  define s3 where "s3 = (if tcp_xmit_seq_len s \<noteq> 0 then tcp_start_timer env s2 else s2)"
  obtain ok s4 where a: "tcp_alloc_iob env (tcp_xmit_len s + TCP_MAX_HEADER_LEN) s3 = (ok, s4)" by fastforce
  have l: "tcp_xmit_seq_len s1 = tcp_xmit_seq_len s" "tcp_xmit_len s1 = tcp_xmit_len s" "tcp_xmit_len s2 = tcp_xmit_len s"
    by (simp_all add: s1_def s2_def tcp_xmit_seq_len_def tcp_xmit_len_def tcp_tx_queue_len_def tcp_xmit_win_def)
  have "tx_inv iss s1" by (rule tx_inv_frame [OF inv]) (rule tx_frameI; simp add: s1_def)
  then have 2: "tx_inv iss s2"
    using xmit_seq_len_ok [of iss s1] unfolding s2_def l(1)
    by (auto simp: tx_inv_def pkts_ok_def xfer_closed_def)
  have f34: "tx_frame s2 s4"
  proof (rule tx_frame_trans)
    show "tx_frame s2 s3" by (rule tx_frameI) (simp_all add: s3_def)
    show "tx_frame s3 s4" using tx_frame_alloc [of s3 env "tcp_xmit_len s + TCP_MAX_HEADER_LEN"] a by simp
  qed
  then have 4: "tx_inv iss s4" using tx_inv_frame [OF 2] by blast
  let ?F = "TCP_FLAGS_SENDING (tcp_state s)"
  let ?p = "tcp_xmit_packet env q (tcp_xmit_len s) ?F s4"
  have p: "tx_inv iss ?p"
  proof -
    have "tcp_state s2 = tcp_state s" by (simp add: s2_def s1_def)
    moreover have "tx_queue s2 = tx_queue s4" "snd_seq s2 = snd_seq s4" "xfer_closed s2 = xfer_closed s4"
      using f34 by (simp_all add: tx_frame_def)
    ultimately have s2: "tcp_state s2 = tcp_state s" "tx_queue s2 = tx_queue s4" "snd_seq s2 = snd_seq s4"
      "xfer_closed s2 = xfer_closed s4" "handed s2 = handed s4"
      using tx_frame_handed [OF f34] by simp_all
    obtain pkt rc where t: "trace ?p = Tcpip_tx pkt (peer s4) rc # trace s4"
      "packet_of (snd_seq s4) (if tcp_xmit_len s \<noteq> 0 then ?F OR TCP_PSH else ?F)
         (take (tcp_xmit_len s) (concat (tx_queue s4))) (rx_queue s4 \<noteq> []) (pkt_data pkt)"
      using xmit_packet_sends by blast
    have "tcp_state s = TCP_CLOSED \<or> tx_state iss s2" using 2 s2(1) by (auto simp: tx_inv_def split: if_splits)
    then have "pkt_ok iss (handed s4) (xfer_closed s4) (pkt_data pkt)"
      by (rule xmit_pkt_ok [of s2 iss _ _ "pkt_data pkt", unfolded s2 l(3), OF _ refl t(2)])
    then show ?thesis by (rule tx_inv_send [OF 4 t(1), rotated -1]) simp_all
  qed
  have "tcp_xmit_sack env q s =
      (if tcp_xmit_seq_len s = 0 \<and> flags s2 AND TCP_ACK_PENDING = 0 then s2 else if ok then ?p else s4)"
    using False a unfolding tcp_xmit_sack_def Let_def s1_def [symmetric] s2_def [symmetric] s3_def [symmetric]
    by (simp split: bool.split)
  then show ?thesis using 2 4 p by simp
qed (use inv in \<open>simp add: tcp_xmit_sack_def\<close>)

section \<open>Acknowledgements and closing\<close>

lemma pkts_ok_cong: "pkts_ok iss s \<Longrightarrow> trace t = trace s \<Longrightarrow> xfer_closed t = xfer_closed s \<Longrightarrow> pkts_ok iss t"
  by (simp add: pkts_ok_def)

lemma tx_inv_fin:
  assumes "tx_inv iss s" "tx_queue s = []" "xfer_closed s" "listed s"
  shows "tx_inv iss (s\<lparr>tcp_state := tcp_state s OR TCP_STATE_SENT TCP_FIN\<rparr>)"
proof -
  let ?t = "s\<lparr>tcp_state := tcp_state s OR TCP_STATE_SENT TCP_FIN\<rparr>"
  have c: "xfer_closed ?t" using assms(3) by (simp add: xfer_closed_def)
  have "tx_state iss ?t" if st: "tx_state iss s"
  proof -
    have sent: "snd_sent s \<le> 1"
    proof (cases "sending_flag (tcp_state s)")
      case True
      then show ?thesis using st by (simp add: tx_state_def Let_def)
    next
      case False
      then have "unat (snd_sent s) = 0" using st assms(2) by (simp add: tx_state_def Let_def)
      then show ?thesis by (simp add: unat_eq_0)
    qed
    then have "unat (snd_sent s) \<le> 1" by (simp add: word_le_nat_alt)
    then show ?thesis
      using st c sent assms(2)
      by (auto simp: tx_state_def Let_def bit_or_iff sending_flag_def unat_eq_0)
  qed
  moreover have "pkts_ok iss ?t"
    by (rule pkts_ok_cong [of _ s]) (use assms in \<open>simp_all add: tx_inv_def xfer_closed_def\<close>)
  ultimately show ?thesis using assms(1,4) by (auto simp: tx_inv_def)
qed

lemma tx_frame_pending_flags: "tx_frame s (tcp_pending_flags_get s)" "tx_frame s (tcp_pending_flags_put s)"
  by (rule tx_frameI; simp)+

lemma tx_inv_ack_fin: "tx_inv iss s \<Longrightarrow> listed s \<Longrightarrow> tx_inv iss (tcp_ack_fin s)"
  using tx_inv_frame [OF tx_inv_fin tx_frame_pending_flags(1)] by (simp add: tcp_ack_fin_def)

text \<open>What an acknowledgement of \<open>n\<close> bytes of sequence space does to the state of transmission.\<close>

definition acked :: "u32 \<Rightarrow> nat \<Rightarrow> tcp_sys \<Rightarrow> tcp_sys \<Rightarrow> bool" where
  "acked ack n s t \<longleftrightarrow>
     snd_seq t = ack \<and> snd_sent t = 0 \<and> trace t = trace s \<and> xfer_closed t = xfer_closed s \<and>
     concat (tx_queue t) = drop (n - of_bool (sending_flag (tcp_state s))) (concat (tx_queue s)) \<and>
     (tx_queue s = [] \<longrightarrow> tx_queue t = []) \<and> listed t = listed s \<and>
     tx_bits (tcp_state t) = (let st = tcp_state s in
       [bit st 0, bit st 1, bit st 8 \<or> bit st 0, bit st 9 \<or> bit st 1])"

lemma acked_flags_iff:
  "TCP_FLAGS_SENDING st AND (TCP_SYN OR TCP_FIN) \<noteq> 0 \<longleftrightarrow> sending_flag st"
  by (auto simp: sending_flag_def)

lemma ack_new_acked:
  "\<exists>t. tcp_ack_new env ack ack_len s = tcp_ack_fin t \<and> acked ack (unat ack_len) s t"
proof -
  let ?AF = "TCP_FLAGS_SENDING (tcp_state s) AND (TCP_SYN OR TCP_FIN)"
  let ?s1 = "tcp_stop_timer env s"
  define len where "len = (if ?AF \<noteq> 0 then unat ack_len - 1 else unat ack_len)"
  define s2 where "s2 = (if ?AF \<noteq> 0 then tcp_pending_flags_put ?s1 else ?s1)"
  define s3 where "s3 = tcp_tx_queue_remove len (s2\<lparr>snd_seq := ack, snd_sent := 0\<rparr>)"
  define s4 where "s4 = (if ?AF \<noteq> 0 then s3\<lparr>tcp_state := tcp_state s3 OR TCP_STATE_ACKED ?AF\<rparr> else s3)"
  have eq: "tcp_ack_new env ack ack_len s = tcp_ack_fin s4"
    unfolding tcp_ack_new_def Let_def s4_def s3_def s2_def len_def by (simp only: timer_fields)
  have 2: "tx_queue s2 = tx_queue s" "trace s2 = trace s" "flags s2 = flags s" "tcp_state s2 = tcp_state s" "listed s2 = listed s"
    by (simp_all add: s2_def)
  have st: "tcp_state s4 = (if ?AF \<noteq> 0 then tcp_state s OR TCP_STATE_ACKED ?AF else tcp_state s)"
    by (simp add: s4_def s3_def 2)
  have q: "concat (tx_queue s4) = drop len (concat (tx_queue s))" "tx_queue s = [] \<longrightarrow> tx_queue s4 = []"
    using process_tx_queue_remove [of len "tx_queue s"] by (auto simp: s4_def s3_def 2)
  have len: "len = unat ack_len - of_bool (sending_flag (tcp_state s))"
    unfolding len_def acked_flags_iff by simp
  have b: "tx_bits (tcp_state s4) = (let st = tcp_state s in
       [bit st 0, bit st 1, bit st 8 \<or> bit st 0, bit st 9 \<or> bit st 1])"
    unfolding st by (auto simp: tx_bits_def bit_or_iff bit_and_iff Let_def)
  have "acked ack (unat ack_len) s s4"
    using q b 2 unfolding acked_def len by (auto simp: s4_def s3_def xfer_closed_def)
  then show ?thesis using eq by blast
qed

lemma acked_bits:
  assumes "acked ack n s t"
  shows "bit (tcp_state t) 0 = bit (tcp_state s) 0" "bit (tcp_state t) (Suc 0) = bit (tcp_state s) (Suc 0)"
    "bit (tcp_state t) 8 \<longleftrightarrow> bit (tcp_state s) 8 \<or> bit (tcp_state s) 0"
    "bit (tcp_state t) 9 \<longleftrightarrow> bit (tcp_state s) 9 \<or> bit (tcp_state s) (Suc 0)"
  using assms by (simp_all add: acked_def tx_bits_def Let_def)

lemma tx_state_seq:
  assumes "tx_state iss s" "bit (tcp_state s) 9" "\<not> bit (tcp_state s) 8"
  obtains k where "k \<le> length (handed s)" "snd_seq s = seq_of iss k" "concat (tx_queue s) = drop k (handed s)"
  using assms by (auto simp: tx_state_def Let_def)

lemma tx_state_acked:
  assumes st: "tx_state iss s" and n: "n \<noteq> 0" "n \<le> unat (snd_sent s)" and t: "acked (snd_seq s + of_nat n) n s t"
  shows "tx_state iss t"
proof -
  note b = acked_bits [OF t]
  have s1: "bit (tcp_state s) (Suc 0)" "bit (tcp_state s) 8 \<Longrightarrow> bit (tcp_state s) 0 \<and> bit (tcp_state s) 9"
    "bit (tcp_state s) 0 \<Longrightarrow> tx_queue s = [] \<and> xfer_closed s"
    using st by (simp_all add: tx_state_def Let_def)
  have ex: "\<exists>k\<le>length (handed t) + of_bool (bit (tcp_state t) 8). snd_seq t = seq_of iss k \<and>
      (\<not> bit (tcp_state t) 8 \<longrightarrow> concat (tx_queue t) = drop k (handed t))"
  proof (cases "sending_flag (tcp_state s)")
    case True
    then have "unat (snd_sent s) \<le> 1" using st by (simp add: tx_state_def Let_def word_le_nat_alt)
    then have n1: "n = 1" using n by simp
    show ?thesis
    proof (cases "bit (tcp_state s) 9")
      case 9: True
      then have fin: "bit (tcp_state s) 0" "\<not> bit (tcp_state s) 8" using True by (auto simp: sending_flag_def)
      from tx_state_seq [OF st 9 fin(2)] obtain k where
        k: "k \<le> length (handed s)" "snd_seq s = seq_of iss k" .
      then show ?thesis
        using t n1 fin b by (intro exI [of _ "Suc k"]) (simp add: acked_def seq_of_Suc)
    next
      case False
      then have "snd_seq s = iss" "concat (tx_queue s) = handed s" using st by (simp_all add: tx_state_def Let_def)
      then show ?thesis
        using t n1 True by (intro exI [of _ 0]) (simp add: acked_def seq_of_def)
    qed
  next
    case False
    have "\<not> bit (tcp_state s) 0"
    proof
      assume "bit (tcp_state s) 0"
      then show False using st False n s1(3) by (simp add: tx_state_def Let_def)
    qed
    then have nb: "\<not> bit (tcp_state s) 0" "\<not> bit (tcp_state s) 8" "bit (tcp_state s) 9"
      using s1 False by (auto simp: sending_flag_def)
    from tx_state_seq [OF st nb(3,2)] obtain k where
      k: "k \<le> length (handed s)" "snd_seq s = seq_of iss k" "concat (tx_queue s) = drop k (handed s)" .
    have "n \<le> length (concat (tx_queue s))" using st False n(2) by (simp add: tx_state_def Let_def)
    then have "k + n \<le> length (handed s)" using k(1,3) by simp
    then show ?thesis
      using t k nb b False seq_of_add [of iss k n]
      by (intro exI [of _ "k + n"]) (simp add: acked_def ac_simps)
  qed
  show ?thesis
    using ex b s1 t by (auto simp: tx_state_def Let_def acked_def)
qed

lemma tx_inv_rx_ack:
  assumes inv: "tx_inv iss s" and l: "listed s"
  shows "tx_inv iss (snd (tcp_rx_ack env ack win s))"
proof -
  let ?s1 = "s\<lparr>snd_win := win\<rparr>"
  let ?s2 = "if tcp_state s AND TCP_STATE_SENT TCP_FIN = 0 then tcp_start_keepalive env TCP_KEEPALIVE_DELAY ?s1 else ?s1"
  have f: "tx_frame s ?s2" by (rule tx_frameI) simp_all
  have 2: "tx_inv iss ?s2" by (rule tx_inv_frame [OF inv f])
  have new: "tx_inv iss (tcp_ack_new env ack (ack - snd_seq s) ?s2)" if "ack - snd_seq s \<noteq> 0" "ack - snd_seq s \<le> snd_sent s"
  proof -
    let ?n = "unat (ack - snd_seq s)"
    obtain t where t: "tcp_ack_new env ack (ack - snd_seq s) ?s2 = tcp_ack_fin t" "acked ack ?n ?s2 t"
      using ack_new_acked by blast
    have n: "?n \<noteq> 0" "?n \<le> unat (snd_sent ?s2)" "ack = snd_seq ?s2 + of_nat ?n"
      using that f by (simp_all add: unat_eq_0 word_le_nat_alt tx_frame_def)
    have lt: "listed ?s2" "listed t" using f l t(2) by (auto simp: tx_frame_def acked_def)
    then have "tx_state iss t" using 2 tx_state_acked [OF _ n(1,2)] t(2) n(3) by (simp only: tx_inv_def)
    moreover have "pkts_ok iss t"
      by (rule pkts_ok_cong [of _ ?s2]) (use 2 t(2) in \<open>auto simp only: tx_inv_def acked_def\<close>)
    ultimately show ?thesis unfolding t(1) using lt by (intro tx_inv_ack_fin) (simp_all add: tx_inv_def)
  qed
  show ?thesis
    using inv 2 new unfolding tcp_rx_ack_def Let_def by (auto simp: not_less)
qed

lemma pkt_ok_closed: "pkt_ok iss T b pkt \<Longrightarrow> pkt_ok iss T True pkt"
  by (auto simp: pkt_ok_def)

lemma tx_inv_closed:
  assumes "tx_inv iss s"
  shows "tx_inv iss (s\<lparr>flags := flags s OR TCP_XFER_CLOSED\<rparr>)"
proof -
  let ?t = "s\<lparr>flags := flags s OR TCP_XFER_CLOSED\<rparr>"
  have c: "xfer_closed ?t" using xfer_closed_bit by (simp only: xfer_closed_def tcp_connection.simps) auto
  have "pkts_ok iss ?t" using assms c by (auto simp: tx_inv_def pkts_ok_def intro: pkt_ok_closed)
  moreover have "tx_state iss ?t" if "tx_state iss s" using that c by (simp add: tx_state_def Let_def)
  ultimately show ?thesis using assms by (auto simp: tx_inv_def)
qed

text \<open>A connection that is being deleted.\<close>

lemma tx_inv_reset:
  assumes "pkts_ok iss s" "tcp_state t = TCP_CLOSED" "\<not> listed t" "tx_calls (trace t) = tx_calls (trace s)" "xfer_closed t = xfer_closed s"
  shows "tx_inv iss t"
proof -
  have "handed t = handed s" using arg_cong [OF assms(4), of handed_calls] by (simp add: handed_tx_calls)
  moreover have "Tcpip_tx pkt dest rc \<in> set (trace t) \<longleftrightarrow> Tcpip_tx pkt dest rc \<in> set (trace s)" for pkt dest rc
    unfolding tx_calls_mem [of _ _ _ "trace t", symmetric] tx_calls_mem [of _ _ _ "trace s", symmetric] assms(4)
    by (rule refl)
  ultimately show ?thesis
    using assms by (simp add: tx_inv_def pkts_ok_def)
qed

lemma tx_inv_close:
  assumes inv: "pkts_ok iss s" "bit (tcp_state s) 17 \<Longrightarrow> tx_inv iss s"
  shows "tx_inv iss (tcp_close env rc s)"
proof -
  let ?s2 = "(tcp_intf_shutdown rc s)\<lparr>flags := flags (tcp_intf_shutdown rc s) OR TCP_XFER_CLOSED\<rparr>"
  have fr2: "tx_frame s (tcp_intf_shutdown rc s)" by (rule tx_frameI) (simp_all add: tcp_intf_shutdown_def)
  have c2: "xfer_closed ?s2" using xfer_closed_bit by (simp only: xfer_closed_def tcp_connection.simps) auto
  have p2: "pkts_ok iss ?s2"
    using inv(1) c2 by (auto simp: pkts_ok_def tcp_intf_shutdown_def intro: pkt_ok_closed)
  show ?thesis
  proof (cases "bit (tcp_state s) 17")
    case False
    have "tx_inv iss (tcp_delete env ?s2)"
      by (rule tx_inv_reset [OF p2]) (simp_all add: tcp_delete_def Let_def xfer_closed_def)
    then show ?thesis using False by (simp add: tcp_close_def Let_def tcp_intf_shutdown_def)
  next
    case True
    have l: "listed s" using inv(2) [OF True] True by (auto simp: tx_inv_def TCP_CLOSED_def TCP_RST_def split: if_splits)
    have 2: "tx_inv iss ?s2" by (intro tx_inv_closed tx_inv_frame [OF inv(2) [OF True] fr2])
    have l2: "listed ?s2" using l by (simp add: tcp_intf_shutdown_def)
    have syn: "tx_inv iss (tcp_close_syn env ?s2)" using 2 tx_inv_rx_ack [OF 2 l2] by (simp add: tcp_close_syn_def)
    have fr: "tx_frame t (tcp_stop_keepalive env t)" for t by (rule tx_frameI) simp_all
    define s4 where "s4 = tcp_stop_keepalive env (tcp_close_syn env ?s2)"
    have 4: "tx_inv iss s4" unfolding s4_def by (rule tx_inv_frame [OF syn fr])
    have c4: "xfer_closed s4" "listed s4" using c2 l2 by (simp_all add: s4_def xfer_closed_def)
    have "tx_frame (t\<lparr>tcp_state := x\<rparr>) (tcp_pending_flags_get (tcp_process_add (tcp_dump_state (t\<lparr>tcp_state := x\<rparr>))))" for t x
      by (rule tx_frameI) simp_all
    then have "tx_inv iss (tcp_close_fin s4)"
      using 4 tx_inv_frame [OF tx_inv_fin [OF 4 _ c4]] by (simp add: tcp_close_fin_def)
    then show ?thesis using True unfolding tcp_close_def Let_def s4_def by (simp add: tcp_intf_shutdown_def)
  qed
qed

lemma tx_inv_close': "tx_inv iss s \<Longrightarrow> tx_inv iss (tcp_close env rc s)"
  by (rule tx_inv_close) (simp_all add: tx_inv_def)

lemma segment_append:
  assumes "segment iss T p seq flgs data" "flgs AND TCP_FIN = 0"
  shows "segment iss (T @ x) p seq flgs data"
proof -
  have d: "data = take (length data) (drop p T)" using assms(1) by (simp add: segment_def)
  have "data = take (length data) (drop p (T @ x))"
  proof (cases "p + length data \<le> length T")
    case True
    then show ?thesis using d by simp
  next
    case False
    then have "data = []" using arg_cong [OF d, of length] by (cases "length T \<le> p") auto
    then show ?thesis by simp
  qed
  then show ?thesis using assms by (simp add: segment_def)
qed

lemma pkt_ok_append: "pkt_ok iss T False pkt \<Longrightarrow> pkt_ok iss (T @ x) False pkt"
proof (cases "is_reset (pkt ! 13) (drop (tcp_hlen pkt) pkt) \<or> tcp_hlen pkt < 20")
  case False
  assume "pkt_ok iss T False pkt"
  then obtain p where "p \<le> length T + 1" "segment iss T p (pkt_seq pkt) (pkt ! 13) (drop (tcp_hlen pkt) pkt)"
    "pkt ! 13 AND TCP_FIN = 0" using False by (auto simp: pkt_ok_def)
  then have "p \<le> length (T @ x) + 1" "pkt ! 13 AND TCP_FIN = 0"
    "segment iss (T @ x) p (pkt_seq pkt) (pkt ! 13) (drop (tcp_hlen pkt) pkt)" using segment_append by simp_all
  then show ?thesis unfolding pkt_ok_def by blast
qed (auto simp: pkt_ok_def)

lemma tx_inv_app_data:
  assumes inv: "tx_inv iss s" and op: "\<not> xfer_closed s"
  shows "tx_inv iss (s\<lparr>tx_queue := tx_queue s @ [d], trace := App_data d # trace s\<rparr>)"
proof -
  let ?t = "s\<lparr>tx_queue := tx_queue s @ [d], trace := App_data d # trace s\<rparr>"
  have "pkts_ok iss ?t"
    using inv op by (auto simp: tx_inv_def pkts_ok_def xfer_closed_def intro: pkt_ok_append)
  moreover have "tx_state iss ?t" if "tx_state iss s"
  proof -
    have nb: "\<not> bit (tcp_state s) 0" "\<not> bit (tcp_state s) 8"
      using that op by (auto simp: tx_state_def Let_def)
    have "\<exists>k\<le>length (handed s @ d). snd_seq s = seq_of iss k \<and> concat (tx_queue s) @ d = drop k (handed s @ d)"
      if "bit (tcp_state s) 9"
    proof -
      from tx_state_seq [OF \<open>tx_state iss s\<close> that nb(2)] obtain k where
        "k \<le> length (handed s)" "snd_seq s = seq_of iss k" "concat (tx_queue s) = drop k (handed s)" .
      then show ?thesis by (intro exI [of _ k]) simp
    qed
    then show ?thesis using that op nb by (auto simp: tx_state_def Let_def xfer_closed_def)
  qed
  ultimately show ?thesis using inv by (auto simp: tx_inv_def)
qed

lemma tx_inv_xmit: "tx_inv iss s \<Longrightarrow> tx_inv iss (tcp_xmit env s)"
  by (simp add: tcp_xmit_def tx_inv_xmit_sack)

lemma tx_inv_app_call:
  assumes "tx_inv iss s"
  shows "tx_inv iss (run_app_call env call s)"
proof (cases call)
  case (App_send d)
  have f: "tx_frame t (tcp_pending_data_get t)" for t by (rule tx_frameI) simp_all
  show ?thesis
    using assms tx_inv_xmit [OF tx_inv_frame [OF tx_inv_app_data [OF assms] f]]
    by (simp add: App_send tcp_xfer_deliver_def)
next
  case (App_close rc)
  then show ?thesis using assms tx_inv_xmit [OF tx_inv_close' [OF assms]] by (simp add: tcp_xfer_close_def)
qed

lemma tx_inv_app_calls: "tx_inv iss s \<Longrightarrow> tx_inv iss (fold (run_app_call env) calls s)"
  by (induction calls arbitrary: s) (simp_all add: tx_inv_app_call)

lemma tx_inv_deliver_iob:
  assumes "tx_inv iss s"
  shows "tx_inv iss (snd (tcp_xfer_deliver_iob env data s))"
proof -
  have "tx_frame s (s\<lparr>trace := Xfer_deliver data rc # trace s\<rparr>)" for rc by (rule tx_frameI) simp_all
  then show ?thesis
    using tx_inv_frame [OF assms] tx_inv_app_calls by (auto simp: tcp_xfer_deliver_iob_def Let_def case_prod_beta)
qed

lemma tx_inv_window_changed:
  assumes "tx_inv iss s"
  shows "tx_inv iss (tcp_xfer_window_changed env s)"
proof -
  have "tx_frame s (s\<lparr>trace := Xfer_window_changed # trace s\<rparr>)" by (rule tx_frameI) simp_all
  then show ?thesis
    using assms tx_inv_frame [OF assms] tx_inv_app_calls by (auto simp: tcp_xfer_window_changed_def)
qed

section \<open>Reception and the timers\<close>

lemma or_closed:
  "(f OR TCP_ACK_PENDING) AND TCP_XFER_CLOSED = f AND TCP_XFER_CLOSED"
  "(f OR TCP_TS_ENABLED) AND TCP_XFER_CLOSED = f AND TCP_XFER_CLOSED"
  "(f OR TCP_SACK_ENABLED) AND TCP_XFER_CLOSED = f AND TCP_XFER_CLOSED"
  by (simp_all add: TCP_ACK_PENDING_def TCP_TS_ENABLED_def TCP_SACK_ENABLED_def TCP_XFER_CLOSED_def
      bit.conj_disj_distrib2)

lemma tx_frame_ack_pending: "tx_frame s (s\<lparr>flags := flags s OR TCP_ACK_PENDING\<rparr>)"
  by (rule tx_frameI) (simp_all add: or_closed)

lemma tx_frame_rx_seq: "tx_frame s (tcp_rx_seq n s)"
  by (rule tx_frameI) (simp_all add: tcp_rx_seq_def Let_def or_closed)

lemma tx_frame_state:
  assumes "listed s" "\<And>n. n \<in> {0, 1, 8, 9} \<Longrightarrow> \<not> bit x n"
  shows "tx_frame s (s\<lparr>tcp_state := tcp_state s OR x\<rparr>)"
  using assms by (simp add: tx_frame_def xfer_closed_def tx_bits_def bit_or_iff)

lemma tx_frame_rx_syn: "listed s \<Longrightarrow> tx_frame s (tcp_rx_syn seq options s)"
proof -
  assume l: "listed s"
  define s1 where "s1 =
    (if tcp_state s AND TCP_STATE_RCVD TCP_SYN = 0 then
       let s = s\<lparr>rcv_ack := seq\<rparr>;
           s = (if tsopt options \<noteq> None then s\<lparr>flags := flags s OR TCP_TS_ENABLED\<rparr> else s);
           s = (if spopt options then s\<lparr>flags := flags s OR TCP_SACK_ENABLED\<rparr> else s)
       in (case wsopt options of
             None \<Rightarrow> s
           | Some scale \<Rightarrow> s\<lparr>snd_win_scale := scale, rcv_win_scale := TCP_RX_WINDOW_SCALE\<rparr>)
     else s)"
  have 1: "tx_frame s s1"
    by (rule tx_frameI) (simp_all add: s1_def Let_def or_closed split: option.split)
  have "listed (tcp_rx_seq 1 s1)"
    using l 1 tx_frame_rx_seq [of s1 1] by (simp add: tx_frame_def)
  then have "tx_frame (tcp_rx_seq 1 s1) ((tcp_rx_seq 1 s1)
      \<lparr>tcp_state := tcp_state (tcp_rx_seq 1 s1) OR (TCP_STATE_SENT TCP_ACK OR TCP_STATE_RCVD TCP_SYN)\<rparr>)"
    by (rule tx_frame_state) (auto simp: bit_or_iff)
  from tx_frame_trans [OF 1 tx_frame_trans [OF tx_frame_rx_seq this]]
  show ?thesis using 1 unfolding tcp_rx_syn_def s1_def Let_def by simp
qed

lemma tx_frame_enqueue: "tx_frame s (tcp_rx_enqueue seq flgs data s)"
  by (rule tx_frameI) (simp_all add: tcp_rx_enqueue_def Let_def)

lemma tx_inv_rx_data: "tx_inv iss s \<Longrightarrow> tx_inv iss (snd (tcp_rx_data env seq data s))"
  using tx_inv_deliver_iob [OF tx_inv_frame [OF _ tx_frame_rx_seq]] by (simp add: tcp_rx_data_def Let_def)

lemma tx_inv_rx_fin:
  assumes "tx_inv iss s" "listed s"
  shows "tx_inv iss (tcp_rx_fin env seq s)"
proof -
  have "listed (tcp_rx_seq 1 s)" using assms(2) tx_frame_rx_seq [of s 1] by (simp add: tx_frame_def)
  then have "tx_frame (tcp_rx_seq 1 s)
      ((tcp_rx_seq 1 s)\<lparr>tcp_state := tcp_state (tcp_rx_seq 1 s) OR TCP_STATE_RCVD TCP_FIN\<rparr>)"
    by (rule tx_frame_state) auto
  from tx_inv_close' [OF tx_inv_frame [OF assms(1) tx_frame_trans [OF tx_frame_rx_seq this]]]
  show ?thesis using assms by (simp add: tcp_rx_fin_def Let_def)
qed

text \<open>A connection that has received a SYN is not deleted while its queue is processed.\<close>

lemma syn_rcvd_listed: "tx_inv iss s \<Longrightarrow> syn_rcvd s \<Longrightarrow> listed s"
  by (auto simp: tx_inv_def syn_rcvd_def TCP_CLOSED_def TCP_RST_def split: if_splits)

lemma rx_data_syn_rcvd: "syn_rcvd (snd (tcp_rx_data env seq data s)) = syn_rcvd s"
proof -
  have "syn_rcvd (snd (tcp_xfer_deliver_iob env d t)) = syn_rcvd t" for d t
    using rx_frame_deliver_iob [where s = t and data = d and env = env] by (auto simp: rx_frame_def syn_rcvd_def)
  then show ?thesis by (simp add: tcp_rx_data_def Let_def) (simp add: syn_rcvd_def)
qed

lemma rx_fin_syn_rcvd: "syn_rcvd (tcp_rx_fin env seq s) = syn_rcvd s"
  using rx_frame_close [of "(tcp_rx_seq 1 s)\<lparr>tcp_state := tcp_state s OR TCP_STATE_RCVD TCP_FIN\<rparr>" env None]
  by (simp add: tcp_rx_fin_def Let_def rx_frame_def syn_rcvd_def bit_or_iff)

lemma tx_inv_process_rx_queue:
  "tx_inv iss s \<Longrightarrow> syn_rcvd s \<or> rx_queue s = [] \<Longrightarrow> tx_inv iss (tcp_process_rx_queue env s)"
proof (induction env s rule: tcp_process_rx_queue.induct)
  case (1 env s)
  show ?case
  proof (cases "rx_queue s = [] \<or> tcp_cmp (rxq_seq (hd (rx_queue s))) (rcv_ack s) > 0")
    case True
    then have "tcp_process_rx_queue env s = s"
      by (subst tcp_process_rx_queue.simps) (auto split: list.split)
    then show ?thesis using "1.prems" by simp
  next
    case False
    then obtain q queue where q: "rx_queue s = q # queue" "\<not> tcp_cmp (rxq_seq q) (rcv_ack s) > 0"
      by (cases "rx_queue s") auto
    let ?s = "s\<lparr>rx_queue := queue\<rparr>"
    let ?d = "snd (tcp_rx_data env (rxq_seq q) (rxq_data q) ?s)"
    have "tx_frame s ?s" by (rule tx_frameI) simp_all
    moreover have "syn_rcvd ?s" using "1.prems" False by (auto simp: syn_rcvd_def)
    ultimately have d: "tx_inv iss ?d" "syn_rcvd ?d"
      using "1.prems" by (simp_all add: tx_inv_rx_data tx_inv_frame rx_data_syn_rcvd)
    then have "tx_inv iss (tcp_process_rx_one env q ?s)" "syn_rcvd (tcp_process_rx_one env q ?s)"
      using tx_inv_rx_fin [OF d(1) syn_rcvd_listed [OF d]] by (simp_all add: tcp_process_rx_one_def Let_def rx_fin_syn_rcvd)
    then show ?thesis using "1.IH" [OF q] q by (subst tcp_process_rx_queue.simps) simp
  qed
qed

lemma tx_inv_closed_state:
  "tx_inv iss s \<Longrightarrow> tx_inv iss (tcp_close env rc (tcp_dump_state (s\<lparr>tcp_state := TCP_CLOSED\<rparr>)))"
  by (rule tx_inv_close, rule pkts_ok_cong [of _ s])
    (simp_all add: tx_inv_def xfer_closed_def TCP_CLOSED_def TCP_RST_def)

lemma tx_inv_xmit_reset:
  assumes inv: "tx_inv iss s"
  shows "tx_inv iss (snd (tcp_xmit_reset env dst src dest seq ack s))"
proof -
  obtain ok s1 where a: "tcp_alloc_iob env TCP_MAX_HEADER_LEN s = (ok, s1)" by fastforce
  then have 1: "tx_inv iss s1" using tx_inv_frame [OF inv tx_frame_alloc [of s env TCP_MAX_HEADER_LEN]] by simp
  let ?pp = "pkt_push (replicate 20 0) (\<lparr>pkt_headroom = int TCP_MAX_HEADER_LEN, pkt_data = []\<rparr>, s1)"
  have 2: "tx_inv iss (snd ?pp)" by (rule tx_inv_frame [OF 1]) (rule tx_frameI; simp)
  let ?hdr = "tcp_header dest src ack seq (push_bit 4 (20 div 4)) (TCP_RST OR TCP_ACK) 0"
  let ?pkt = "(fst ?pp)\<lparr>pkt_data := tcp_with_csum ?hdr []\<rparr>"
  have "pkt_data ?pkt ! 13 = TCP_RST OR TCP_ACK" "tcp_hlen (pkt_data ?pkt) = 20" "length (pkt_data ?pkt) = 20"
    using header_fields(1-3) [of "csum_bytes (tcpip_chksum (?hdr [0, 0]))"]
    by (simp_all add: tcp_with_csum_def tcp_hlen_def TCP_MASK_HLEN_def)
  then have ok: "pkt_ok iss T b (pkt_data ?pkt)" for T b
    by (simp add: pkt_ok_def is_reset_def bit_or_iff state_defs)
  have "tx_inv iss ((snd ?pp)\<lparr>trace := Tcpip_tx ?pkt dst rc # trace (snd ?pp)\<rparr>)" for rc
    by (rule tx_inv_send [OF 2 _ _ _ _ _ _ _ ok]) (simp_all add: xfer_closed_def)
  then show ?thesis using 1 by (simp add: tcp_xmit_reset_def a Let_def case_prod_beta split: bool.split)
qed

lemma tx_inv_finish:
  assumes inv: "tx_inv iss s"
  shows "tx_inv iss (tcp_rx_finish env seq w s)"
proof -
  have f: "tx_frame t (tcp_dump_state t)" "tx_frame t (tcp_process_add t)" "tx_frame t (tcp_stop_wait env t)"
    "tx_frame t (tcp_start_wait env d t)" for t d
    by (rule tx_frameI; simp)+
  note fs = tx_inv_frame [OF _ f(1)] tx_inv_frame [OF _ f(2)] tx_inv_frame [OF _ f(3)] tx_inv_frame [OF _ f(4)]
  show ?thesis
    unfolding tcp_rx_finish_def Let_def
    by (simp only: split: if_split) (intro conjI impI tx_inv_window_changed fs tx_inv_xmit_sack inv)
qed

definition rx_ready :: "tcp_sys \<Rightarrow> bool" where
  "rx_ready s \<longleftrightarrow> syn_rcvd s \<or> rx_queue s = []"

lemma rx_ready_frame: "rx_ready s \<Longrightarrow> rx_frame s t \<Longrightarrow> rx_ready t"
  by (auto simp: rx_ready_def rx_frame_def)

lemma rx_inv_ready: "rx_inv isn D s \<Longrightarrow> listed s \<Longrightarrow> rx_ready s"
  by (auto simp: rx_inv_def rx_idle_def rx_ok_def rx_at_def rx_ready_def)

lemma rx_ready_syn: "rx_ready s \<Longrightarrow> rx_ready (tcp_rx_syn seq options s)"
  by (auto simp: rx_ready_def tcp_rx_syn_def syn_rcvd_def Let_def bit_or_iff split: option.split)

lemma rx_ready_enqueue: "rx_ready s \<Longrightarrow> rx_ready (tcp_rx_enqueue seq flgs data s)"
  by (auto simp: rx_ready_def tcp_rx_enqueue_def syn_rcvd_def Let_def)

lemma tx_inv_rx_body:
  assumes "tx_inv iss s" "listed s" "rx_ready s"
  shows "tx_inv iss (snd (tcp_rx_body env seq flgs options data w s))"
proof -
  define s1 where "s1 = (if tcp_state s AND TCP_STATE_RCVD TCP_SYN \<noteq> 0 \<and> seq \<noteq> rcv_ack s
                then s\<lparr>flags := flags s OR TCP_ACK_PENDING\<rparr> else s)"
  define s2 where "s2 = (if flgs AND TCP_SYN \<noteq> 0 then tcp_rx_syn seq options s1 else s1)"
  define seq' where "seq' = (if flgs AND TCP_SYN \<noteq> 0 then seq + 1 else seq)"
  have 1: "tx_inv iss s1" "listed s1" "rx_ready s1"
    using assms tx_inv_frame [OF assms(1) tx_frame_ack_pending] rx_ready_frame [OF assms(3) rx_frame_flags]
    by (auto simp: s1_def)
  have 2: "tx_inv iss s2" "rx_ready s2"
    using 1 tx_inv_frame [OF 1(1) tx_frame_rx_syn [OF 1(2)]] rx_ready_syn [OF 1(3)] by (auto simp: s2_def)
  have "tx_inv iss (tcp_rx_enqueue seq' flgs data s2)" by (rule tx_inv_frame [OF 2(1) tx_frame_enqueue])
  then have cont: "tx_inv iss (tcp_rx_finish env seq' w (tcp_process_rx_queue env (tcp_rx_enqueue seq' flgs data s2)))"
    using rx_ready_enqueue [OF 2(2), of seq' flgs data]
    by (intro tx_inv_finish tx_inv_process_rx_queue) (simp_all add: rx_ready_def)
  have "tcp_rx_body env seq flgs options data w s =
      (case (if flgs AND TCP_RST \<noteq> 0 then tcp_rx_rst env seq' s2 else (None, s2)) of
         (Some rc, s3) \<Rightarrow> (Some rc, s3)
       | (None, s3) \<Rightarrow> (None, tcp_rx_finish env seq' w
           (tcp_process_rx_queue env (tcp_rx_enqueue seq' flgs data s3))))"
    unfolding tcp_rx_body_def Let_def seq'_def s1_def s2_def by (rule refl)
  then show ?thesis
    using cont tx_inv_closed_state [OF 2(1), of env "Some ECONNRESET"] by (simp add: tcp_rx_rst_def)
qed

lemma tx_inv_rx_conn:
  assumes "tx_inv iss s" "listed s" "rx_ready s"
  shows "tx_inv iss (snd (tcp_rx_conn env st_src src dest seq ack raw_win flgs options data s))"
proof -
  let ?a = "if flgs AND TCP_ACK \<noteq> 0 then tcp_rx_ack env ack (shl32 (ucast raw_win) (snd_win_scale s)) s
            else (None, s)"
  obtain rc s1 where a: "?a = (rc, s1)" by fastforce
  have "tx_inv iss s1 \<and> listed s1 \<and> rx_ready s1"
  proof (cases "flgs AND TCP_ACK \<noteq> 0")
    case True
    then have "s1 = snd (tcp_rx_ack env ack (shl32 (ucast raw_win) (snd_win_scale s)) s)" using a by simp
    then show ?thesis
      using tx_inv_rx_ack [OF assms(1,2)] rx_ack_listed assms(2) rx_ready_frame [OF assms(3) rx_frame_rx_ack] by simp
  next
    case False
    then show ?thesis using a assms by simp
  qed
  then show ?thesis
    using tx_inv_rx_body [of iss s1] tx_inv_xmit_reset [of iss s1] unfolding tcp_rx_conn_def Let_def a
    by (cases rc) simp_all
qed

lemma tx_inv_expired:
  assumes "tx_inv iss s"
  shows "tx_inv iss (tcp_expired env over s)"
proof -
  let ?c = "tcp_state s \<in> {TCP_SYN_SENT, TCP_SYN_RCVD, TCP_ESTABLISHED, TCP_FIN_WAIT_1,
    TCP_CLOSE_WAIT, TCP_CLOSING_OR_LAST_ACK}"
  have "tx_frame s (tcp_assert ?c s)" by (rule tx_frameI) simp_all
  then have 1: "tx_inv iss (tcp_assert ?c s)" by (rule tx_inv_frame [OF assms])
  show ?thesis using tx_inv_closed_state [OF 1] tx_inv_xmit [OF 1] by (simp add: tcp_expired_def Let_def)
qed

lemma tx_inv_keepalive_expired:
  assumes "tx_inv iss s"
  shows "tx_inv iss (tcp_keepalive_expired env over s)"
proof -
  have "tx_frame s (tcp_start_keepalive env d s)" for d by (rule tx_frameI) simp_all
  then show ?thesis
    unfolding tcp_keepalive_expired_def Let_def
    by (intro tx_inv_xmit tx_inv_frame [OF assms] tx_frame_trans [OF _ tx_frame_ack_pending])
qed

lemma tx_inv_wait_expired:
  assumes "tx_inv iss s"
  shows "tx_inv iss (tcp_wait_expired env over s)"
proof -
  have "tx_frame s (tcp_assert c s)" for c by (rule tx_frameI) simp_all
  then show ?thesis using tx_inv_closed_state [OF tx_inv_frame [OF assms]] by (simp add: tcp_wait_expired_def Let_def)
qed

lemma open_tx_inv:
  assumes "tcp_open table env True iss random_port st_peer st_local g = (None, g')" "calls_made g = []"
  shows "tx_inv iss (attach g' (hd (conns g')))"
proof -
  obtain tcp where tcp: "conns g' = tcp # conns g" "calls_made g' = []" "listed tcp" "tcp_state tcp = TCP_STATE_SENT TCP_SYN"
    "snd_seq tcp = iss" "snd_sent tcp = 0" "tx_queue tcp = []"
    using assms
    by (auto simp: tcp_open_def Let_def tcp_new_def tcp_start_timer_nodelay_def tcp_pending_flags_get_def
        case_prod_beta attach_def tcp_connection.defs tcp_sys.defs split: if_splits sum.splits)
  then show ?thesis
    by (simp add: tx_inv_def pkts_ok_def tx_state_def Let_def attach_def tcp_connection.defs tcp_sys.defs
        state_defs bit_simps sending_flag_def)
qed

lemma tx_frame_bookkeeping:
  "tx_frame s (s\<lparr>timer := t, refcnt := r\<rparr>)" "tx_frame s (s\<lparr>keepalive := t, refcnt := r\<rparr>)"
  "tx_frame s (s\<lparr>wait := t, refcnt := r\<rparr>)" "tx_frame s (s\<lparr>process := b, refcnt := r\<rparr>)"
  "tx_frame s (s\<lparr>rx_queue := q\<rparr>)" "tx_frame s (tcp_rx_ts options s)"
  by (rule tx_frameI; simp add: tcp_rx_ts_def split: option.split)+

lemma tx_inv_local:
  assumes "tcp_local env s t" "tx_inv iss s"
  shows "tx_inv iss t"
  using assms(1)
  by cases (use assms(2) in \<open>simp_all add: tx_inv_expired tx_inv_keepalive_expired tx_inv_wait_expired tx_inv_xmit
      tx_inv_app_call tx_inv_frame [OF assms(2) tx_frame_bookkeeping(1)] tx_inv_frame [OF assms(2) tx_frame_bookkeeping(2)]
      tx_inv_frame [OF assms(2) tx_frame_bookkeeping(3)] tx_inv_frame [OF assms(2) tx_frame_bookkeeping(4)]
      tx_inv_frame [OF assms(2) tx_frame_bookkeeping(5)]\<close>)

lemma tcp_run_tx_inv: "tcp_run env isn D iss s \<Longrightarrow> tx_inv iss s"
proof (induction rule: tcp_run.induct)
  case (opened table random_port st_peer st_local g g')
  then show ?case by (rule open_tx_inv)
next
  case (received s p seq flgs data st_src src dest ack raw_win options)
  have "rx_ready (tcp_rx_ts options s)"
    using rx_ready_frame [OF rx_inv_ready [OF tcp_run_inv [OF received.hyps(1)] received.hyps(2)] rx_frame_ts] .
  then show ?case
    using tx_inv_rx_conn [OF tx_inv_frame [OF received.IH tx_frame_bookkeeping(6)]] received.hyps(2) by simp
next
  case (local s t)
  then show ?case using tx_inv_local by blast
qed

text \<open>C4. Transmission: every packet that a connection has sent, read the way a receiver reads it, is a
  reset without data, or has a header length that every receiver refuses, or is a segment of
  the stream of bytes that the application handed over, at the position that its sequence number
  gives; and a packet with FIN is sent only when the application has closed the stream, and
  carries its end.\<close>

theorem tx_stream_correct:
  assumes "tcp_run env isn D iss s" "Tcpip_tx pkt dest rc \<in> set (trace s)"
    "\<not> is_reset (pkt_data pkt ! 13) (drop (tcp_hlen (pkt_data pkt)) (pkt_data pkt))" "20 \<le> tcp_hlen (pkt_data pkt)"
  shows "\<exists>p\<le>length (handed s) + 1.
    segment iss (handed s) p (pkt_seq (pkt_data pkt)) (pkt_data pkt ! 13)
      (drop (tcp_hlen (pkt_data pkt)) (pkt_data pkt)) \<and>
    (pkt_data pkt ! 13 AND TCP_FIN \<noteq> 0 \<longrightarrow> xfer_closed s)"
proof -
  have "pkt_ok iss (handed s) (xfer_closed s) (pkt_data pkt)"
    using tcp_run_tx_inv [OF assms(1)] assms(2) by (auto simp: tx_inv_def pkts_ok_def)
  then show ?thesis using assms(3,4) by (auto simp: pkt_ok_def)
qed

lemma demo_syn_sent_packet:
  "\<exists>pkt rc. Tcpip_tx pkt demo_peer rc \<in> set (trace demo_syn_sent) \<and>
     packet_of 1000 TCP_SYN [] False (pkt_data pkt)"
proof -
  obtain q t where t: "demo_syn_sent = tcp_xmit_packet quiet_env q 0 TCP_SYN t"
    "rx_queue t = []" "tx_queue t = []" "snd_seq t = 1000" "peer t = demo_peer"
    by (rule demo_syn_sent_is)
  obtain pkt rc where "trace demo_syn_sent = Tcpip_tx pkt demo_peer rc # trace t"
    "packet_of 1000 TCP_SYN [] False (pkt_data pkt)"
    using xmit_packet_sends [of quiet_env q 0 TCP_SYN t] t by auto
  then show ?thesis by auto
qed

theorem tx_stream_correct_witness:
  "\<exists>pkt dest rc. Tcpip_tx pkt dest rc \<in> set (trace demo_syn_sent) \<and> 20 \<le> tcp_hlen (pkt_data pkt) \<and>
     (\<exists>p\<le>length (handed demo_syn_sent) + 1.
        segment 1000 (handed demo_syn_sent) p (pkt_seq (pkt_data pkt)) (pkt_data pkt ! 13)
          (drop (tcp_hlen (pkt_data pkt)) (pkt_data pkt)) \<and>
        (pkt_data pkt ! 13 AND TCP_FIN \<noteq> 0 \<longrightarrow> xfer_closed demo_syn_sent))"
proof -
  obtain pkt rc where p: "Tcpip_tx pkt demo_peer rc \<in> set (trace demo_syn_sent)"
    "packet_of 1000 TCP_SYN [] False (pkt_data pkt)" using demo_syn_sent_packet by blast
  then have "20 \<le> tcp_hlen (pkt_data pkt)"
    "\<not> is_reset (pkt_data pkt ! 13) (drop (tcp_hlen (pkt_data pkt)) (pkt_data pkt))"
    by (simp_all add: packet_of_def is_reset_def)
  then show ?thesis using tx_stream_correct [OF demo_run_syn_sent p(1)] p(1) by blast
qed
end
