(* ===== verification/Tcp_Network.thy ===== *)
theory Tcp_Network imports Tcp_Transmit begin

text \<open>
  Two connections of \<^verbatim>\<open>net/tcp.c\<close> and a network between them that may lose, duplicate, delay and
  reorder packets.  The trace of calls of a connection only grows, so what the network may
  deliver only grows; each end then is a connection as the theories on reception and on
  transmission consider it, and the two results compose.  The theory also relates the options
  that are sent to those that are parsed.
\<close>


section \<open>The record of calls only grows\<close>

definition grows :: "tcp_sys \<Rightarrow> tcp_sys \<Rightarrow> bool" where
  "grows s t \<longleftrightarrow> (\<exists>new. trace t = new @ trace s)"

lemma grows_refl [simp, intro]: "grows s s"
  by (auto simp: grows_def)

lemma grows_trans: "grows s t \<Longrightarrow> grows t u \<Longrightarrow> grows s u"
  by (force simp: grows_def)

lemma growsI: "trace t = trace s \<Longrightarrow> grows s t"
  by (simp add: grows_def)

lemma grows_Cons: "trace t = c # trace s \<Longrightarrow> grows s t"
  by (simp add: grows_def)

lemma grows_xmit_packet: "grows s (tcp_xmit_packet env q len flgs s)"
  using xmit_packet_calls [of env q len flgs s] by (auto intro: grows_Cons)

lemma grows_alloc: "grows s (snd (tcp_alloc_iob env len s))"
  by (rule grows_Cons) (simp add: tcp_alloc_iob_def case_prod_beta)

lemma grows_xmit_sack: "grows s (tcp_xmit_sack env q s)"
proof (cases "running (timer s)")
  case False
  define s2 where "s2 = (if TCP_FLAGS_SENDING (tcp_state s) AND (TCP_SYN OR TCP_FIN) \<noteq> 0
      then tcp_assert (\<not> (TCP_FLAGS_SENDING (tcp_state s) AND TCP_SYN \<noteq> 0 \<and>
             TCP_FLAGS_SENDING (tcp_state s) AND TCP_FIN \<noteq> 0)) s else s)\<lparr>snd_sent := tcp_xmit_seq_len s\<rparr>"
  define s3 where "s3 = (if tcp_xmit_seq_len s \<noteq> 0 then tcp_start_timer env s2 else s2)"
  obtain ok s4 where a: "tcp_alloc_iob env (tcp_xmit_len s + TCP_MAX_HEADER_LEN) s3 = (ok, s4)" by fastforce
  have 3: "grows s s2" "grows s s3" by (rule growsI; simp add: s2_def s3_def)+
  have 4: "grows s s4"
    using grows_trans [OF 3(2) grows_alloc [of s3 env "tcp_xmit_len s + TCP_MAX_HEADER_LEN"]] a by simp
  have "tcp_xmit_sack env q s =
      (if tcp_xmit_seq_len s = 0 \<and> flags s2 AND TCP_ACK_PENDING = 0 then s2
       else if ok then tcp_xmit_packet env q (tcp_xmit_len s) (TCP_FLAGS_SENDING (tcp_state s)) s4 else s4)"
    using False a unfolding tcp_xmit_sack_def Let_def s2_def [symmetric] s3_def [symmetric]
    by (simp split: bool.split)
  then show ?thesis using 3(1) 4 grows_trans [OF 4 grows_xmit_packet] by simp
qed (simp add: tcp_xmit_sack_def)

lemma grows_xmit: "grows s (tcp_xmit env s)"
  by (simp add: tcp_xmit_def grows_xmit_sack)

lemma rx_ack_trace [simp]: "trace (snd (tcp_rx_ack env ack win s)) = trace s"
  by (simp add: tcp_rx_ack_def tcp_ack_new_def tcp_ack_fin_def Let_def)

lemma grows_close: "grows s (tcp_close env rc s)"
  by (rule grows_Cons [of _ "Intf_shutdown rc"])
    (simp add: tcp_close_def tcp_delete_def tcp_close_fin_def tcp_close_syn_def tcp_intf_shutdown_def Let_def)

lemma grows_xfer_deliver: "grows s (tcp_xfer_deliver env d s)"
  unfolding tcp_xfer_deliver_def
  by (rule grows_trans [OF grows_Cons [of _ "App_data d"] grows_xmit]) simp

lemma grows_app_call: "grows s (run_app_call env call s)"
  by (cases call) (simp_all add: grows_xfer_deliver tcp_xfer_close_def grows_trans [OF grows_close grows_xmit])

lemma grows_app_calls: "grows s (fold (run_app_call env) calls s)"
proof (induction calls arbitrary: s)
  case (Cons c calls)
  show ?case using grows_trans [OF grows_app_call Cons] by simp
qed simp

lemma grows_deliver_iob: "grows s (snd (tcp_xfer_deliver_iob env data s))"
proof -
  have "grows s (s\<lparr>trace := Xfer_deliver data rc # trace s\<rparr>)" for rc by (rule grows_Cons) simp
  then show ?thesis
    using grows_trans [OF _ grows_app_calls] by (auto simp: tcp_xfer_deliver_iob_def Let_def case_prod_beta)
qed

lemma grows_window_changed: "grows s (tcp_xfer_window_changed env s)"
proof -
  have "grows s (s\<lparr>trace := Xfer_window_changed # trace s\<rparr>)" by (rule grows_Cons) simp
  then show ?thesis using grows_trans [OF _ grows_app_calls] by (auto simp: tcp_xfer_window_changed_def)
qed

lemma grows_rx_data: "grows s (snd (tcp_rx_data env seq data s))"
proof -
  have "grows s (tcp_rx_seq n s)" for n by (rule growsI) simp
  then show ?thesis using grows_trans [OF _ grows_deliver_iob] by (simp add: tcp_rx_data_def Let_def)
qed

lemma grows_rx_fin: "grows s (tcp_rx_fin env seq s)"
proof -
  have "grows s ((tcp_rx_seq 1 s)\<lparr>tcp_state := x\<rparr>)" for x by (rule growsI) simp
  then show ?thesis using grows_trans [OF _ grows_close] by (simp add: tcp_rx_fin_def Let_def)
qed

lemma grows_process_rx_queue: "grows s (tcp_process_rx_queue env s)"
proof (induction env s rule: tcp_process_rx_queue.induct)
  case (1 env s)
  show ?case
  proof (cases "rx_queue s = [] \<or> tcp_cmp (rxq_seq (hd (rx_queue s))) (rcv_ack s) > 0")
    case True
    then have "tcp_process_rx_queue env s = s"
      by (subst tcp_process_rx_queue.simps) (auto split: list.split)
    then show ?thesis by simp
  next
    case False
    then obtain q queue where q: "rx_queue s = q # queue" "\<not> tcp_cmp (rxq_seq q) (rcv_ack s) > 0"
      by (cases "rx_queue s") auto
    let ?s = "s\<lparr>rx_queue := queue\<rparr>"
    have "grows s ?s" by (rule growsI) simp
    then have "grows s (tcp_process_rx_one env q ?s)"
      using grows_trans [OF _ grows_trans [OF grows_rx_data grows_rx_fin]] grows_trans [OF _ grows_rx_data]
      by (simp add: tcp_process_rx_one_def Let_def)
    then show ?thesis
      using grows_trans [OF _ "1.IH" [OF q]] q by (subst tcp_process_rx_queue.simps) simp
  qed
qed

lemma grows_xmit_reset: "grows s (snd (tcp_xmit_reset env dst src dest seq ack s))"
proof -
  obtain ok s1 where a: "tcp_alloc_iob env TCP_MAX_HEADER_LEN s = (ok, s1)" by fastforce
  then have 1: "grows s s1" using grows_alloc [of s env TCP_MAX_HEADER_LEN] by simp
  have "grows s1 (t\<lparr>trace := c # trace s1\<rparr>)" for t c by (rule grows_Cons) simp
  then show ?thesis
    using 1 grows_trans [OF 1] by (auto simp: tcp_xmit_reset_def a Let_def case_prod_beta split: bool.split)
qed

lemma grows_finish: "grows s (tcp_rx_finish env seq w s)"
proof -
  have f: "grows s t \<Longrightarrow> grows s (tcp_dump_state t)" "grows s t \<Longrightarrow> grows s (tcp_process_add t)"
    "grows s t \<Longrightarrow> grows s (tcp_stop_wait env t)" "grows s t \<Longrightarrow> grows s (tcp_start_wait env d t)"
    "grows s t \<Longrightarrow> grows s (tcp_xmit_sack env q t)" "grows s t \<Longrightarrow> grows s (tcp_xfer_window_changed env t)" for t d q
    using grows_trans grows_xmit_sack grows_window_changed by (auto simp: grows_def)
  show ?thesis
    unfolding tcp_rx_finish_def Let_def by (simp only: split: if_split) (intro conjI impI f grows_refl)
qed

lemma grows_closed_state: "grows s (tcp_close env rc (tcp_dump_state (s\<lparr>tcp_state := x\<rparr>)))"
  by (rule grows_trans [OF growsI grows_close]) simp

lemma grows_rx_body: "grows s (snd (tcp_rx_body env seq flgs options data w s))"
proof -
  define s1 where "s1 = (if tcp_state s AND TCP_STATE_RCVD TCP_SYN \<noteq> 0 \<and> seq \<noteq> rcv_ack s
                then s\<lparr>flags := flags s OR TCP_ACK_PENDING\<rparr> else s)"
  define s2 where "s2 = (if flgs AND TCP_SYN \<noteq> 0 then tcp_rx_syn seq options s1 else s1)"
  define seq' where "seq' = (if flgs AND TCP_SYN \<noteq> 0 then seq + 1 else seq)"
  have "trace (tcp_rx_syn seq options t) = trace t" for t
    by (simp add: tcp_rx_syn_def Let_def split: option.split)
  then have 2: "grows s s2" by (intro growsI) (simp add: s2_def s1_def)
  have "grows s2 (tcp_rx_enqueue seq' flgs data s2)" by (rule growsI) (simp add: tcp_rx_enqueue_def Let_def)
  from grows_trans [OF grows_trans [OF 2 this] grows_trans [OF grows_process_rx_queue grows_finish]]
  have 3: "grows s (tcp_rx_finish env seq' w (tcp_process_rx_queue env (tcp_rx_enqueue seq' flgs data s2)))" .
  have "tcp_rx_body env seq flgs options data w s =
      (case (if flgs AND TCP_RST \<noteq> 0 then tcp_rx_rst env seq' s2 else (None, s2)) of
         (Some rc, s3) \<Rightarrow> (Some rc, s3)
       | (None, s3) \<Rightarrow> (None, tcp_rx_finish env seq' w
           (tcp_process_rx_queue env (tcp_rx_enqueue seq' flgs data s3))))"
    unfolding tcp_rx_body_def Let_def seq'_def s1_def s2_def by (rule refl)
  then show ?thesis
    using 3 grows_trans [OF 2 grows_closed_state] by (simp add: tcp_rx_rst_def)
qed

lemma grows_rx_conn: "grows s (snd (tcp_rx_conn env st_src src dest seq ack raw_win flgs options data s))"
proof -
  let ?a = "if flgs AND TCP_ACK \<noteq> 0 then tcp_rx_ack env ack (shl32 (ucast raw_win) (snd_win_scale s)) s
            else (None, s)"
  obtain rc s1 where a: "?a = (rc, s1)" by fastforce
  have "trace s1 = trace s" using arg_cong [OF a, of "\<lambda>x. trace (snd x)"] by (simp split: if_splits)
  then have 1: "grows s s1" by (rule growsI)
  show ?thesis
    using grows_trans [OF 1 grows_rx_body] grows_trans [OF 1 grows_xmit_reset] unfolding tcp_rx_conn_def Let_def a
    by (cases rc) simp_all
qed

lemma grows_rx_packet: "grows s (snd (tcp_rx_packet env st_src pkt options s))"
proof -
  have "grows s (tcp_rx_ts options s)" by (rule growsI) (simp add: tcp_rx_ts_def split: option.split)
  then show ?thesis unfolding tcp_rx_packet_def by (rule grows_trans [OF _ grows_rx_conn])
qed

lemma grows_expired: "grows s (tcp_expired env over s)"
proof -
  have "grows s (tcp_assert c s)" for c by (rule growsI) simp
  then show ?thesis
    using grows_trans [OF _ grows_closed_state] grows_trans [OF _ grows_xmit] by (simp add: tcp_expired_def Let_def)
qed

lemma grows_keepalive_expired: "grows s (tcp_keepalive_expired env over s)"
  unfolding tcp_keepalive_expired_def Let_def by (rule grows_trans [OF growsI grows_xmit]) simp

lemma grows_wait_expired: "grows s (tcp_wait_expired env over s)"
  unfolding tcp_wait_expired_def Let_def
  by (rule grows_trans [OF growsI grows_closed_state]) simp

lemma grows_local: "tcp_local env s t \<Longrightarrow> grows s t"
proof (cases rule: tcp_local.cases, assumption)
  fix over t' r
  have b: "grows s (s\<lparr>timer := t', refcnt := r\<rparr>)" "grows s (s\<lparr>keepalive := t', refcnt := r\<rparr>)"
    "grows s (s\<lparr>wait := t', refcnt := r\<rparr>)" "grows s (s\<lparr>process := p, refcnt := r\<rparr>)" for p
    by (rule growsI; simp)+
  show "t = tcp_expired env over (s\<lparr>timer := t', refcnt := r\<rparr>) \<Longrightarrow> grows s t"
    "t = tcp_keepalive_expired env over (s\<lparr>keepalive := t', refcnt := r\<rparr>) \<Longrightarrow> grows s t"
    "t = tcp_wait_expired env over (s\<lparr>wait := t', refcnt := r\<rparr>) \<Longrightarrow> grows s t"
    using b grows_trans [OF _ grows_expired] grows_trans [OF _ grows_keepalive_expired]
      grows_trans [OF _ grows_wait_expired] by blast+
qed (auto simp: grows_app_call intro: growsI grows_trans [OF growsI grows_xmit])

section \<open>Queued packets imply a received SYN\<close>

definition ready :: "tcp_sys \<Rightarrow> bool" where
  "ready s \<longleftrightarrow> (listed s \<longrightarrow> rx_ready s)"

lemma ready_frame: "rx_ready s \<Longrightarrow> rx_frame s t \<Longrightarrow> ready t"
  using rx_ready_frame by (simp add: ready_def)

lemma ready_closed: "ready (tcp_close env rc (tcp_dump_state (s\<lparr>tcp_state := TCP_CLOSED\<rparr>)))"
  by (simp add: ready_def close_listed TCP_CLOSED_def TCP_RST_def)

lemma process_rx_queue_syn_rcvd: "syn_rcvd s \<Longrightarrow> syn_rcvd (tcp_process_rx_queue env s)"
proof (induction env s rule: tcp_process_rx_queue.induct)
  case (1 env s)
  show ?case
  proof (cases "rx_queue s = [] \<or> tcp_cmp (rxq_seq (hd (rx_queue s))) (rcv_ack s) > 0")
    case True
    then have "tcp_process_rx_queue env s = s"
      by (subst tcp_process_rx_queue.simps) (auto split: list.split)
    then show ?thesis using "1.prems" by simp
  next
    case False
    then obtain q queue where q: "rx_queue s = q # queue" "\<not> tcp_cmp (rxq_seq q) (rcv_ack s) > 0"
      by (cases "rx_queue s") auto
    have "syn_rcvd (s\<lparr>rx_queue := queue\<rparr>)" using "1.prems" by (simp add: syn_rcvd_def)
    then have "syn_rcvd (tcp_process_rx_one env q (s\<lparr>rx_queue := queue\<rparr>))"
      by (simp add: tcp_process_rx_one_def Let_def rx_fin_syn_rcvd rx_data_syn_rcvd)
    then show ?thesis using "1.IH" [OF q] q by (subst tcp_process_rx_queue.simps) simp
  qed
qed

lemma rx_ready_process: "rx_ready s \<Longrightarrow> rx_ready (tcp_process_rx_queue env s)"
  using process_rx_queue_syn_rcvd [of s env]
  by (cases "syn_rcvd s") (simp_all add: rx_ready_def tcp_process_rx_queue.simps [of env s])

lemma ready_rx_body:
  assumes "rx_ready s"
  shows "ready (snd (tcp_rx_body env seq flgs options data w s))"
proof -
  define s1 where "s1 = (if tcp_state s AND TCP_STATE_RCVD TCP_SYN \<noteq> 0 \<and> seq \<noteq> rcv_ack s
                then s\<lparr>flags := flags s OR TCP_ACK_PENDING\<rparr> else s)"
  define s2 where "s2 = (if flgs AND TCP_SYN \<noteq> 0 then tcp_rx_syn seq options s1 else s1)"
  define seq' where "seq' = (if flgs AND TCP_SYN \<noteq> 0 then seq + 1 else seq)"
  have "rx_ready s1" using assms rx_ready_frame [OF assms rx_frame_flags] by (simp add: s1_def)
  then have "rx_ready s2" using rx_ready_syn by (simp add: s2_def)
  then have 3: "ready (tcp_rx_finish env seq' w (tcp_process_rx_queue env (tcp_rx_enqueue seq' flgs data s2)))"
    by (intro ready_frame [OF _ rx_frame_finish] rx_ready_process rx_ready_enqueue)
  have "tcp_rx_body env seq flgs options data w s =
      (case (if flgs AND TCP_RST \<noteq> 0 then tcp_rx_rst env seq' s2 else (None, s2)) of
         (Some rc, s3) \<Rightarrow> (Some rc, s3)
       | (None, s3) \<Rightarrow> (None, tcp_rx_finish env seq' w
           (tcp_process_rx_queue env (tcp_rx_enqueue seq' flgs data s3))))"
    unfolding tcp_rx_body_def Let_def seq'_def s1_def s2_def by (rule refl)
  then show ?thesis using 3 ready_closed by (simp add: tcp_rx_rst_def)
qed

lemma ready_rx_conn:
  assumes "rx_ready s"
  shows "ready (snd (tcp_rx_conn env st_src src dest seq ack raw_win flgs options data s))"
proof -
  let ?a = "if flgs AND TCP_ACK \<noteq> 0 then tcp_rx_ack env ack (shl32 (ucast raw_win) (snd_win_scale s)) s
            else (None, s)"
  obtain rc s1 where a: "?a = (rc, s1)" by fastforce
  have f: "rx_frame s s1"
    using arg_cong [OF a, of snd] rx_frame_rx_ack [of s env ack "shl32 (ucast raw_win) (snd_win_scale s)"]
    by (auto split: if_splits)
  have "rx_ready s1" by (rule rx_ready_frame [OF assms f])
  then show ?thesis
    using ready_rx_body ready_frame [OF assms rx_frame_trans [OF f rx_frame_xmit_reset]]
    unfolding tcp_rx_conn_def Let_def a by (cases rc) simp_all
qed

lemma ready_local:
  assumes "tcp_local env s t" "rx_ready s"
  shows "ready t"
  using assms(1)
proof cases
  case (expired over r t')
  have f: "rx_frame s (tcp_assert c (s\<lparr>timer := t', refcnt := r\<rparr>))" for c
    by (rule rx_frame_trans [OF rx_frame_bookkeeping(1) rx_frame_bookkeeping(5)])
  show ?thesis
    using ready_closed ready_frame [OF assms(2) rx_frame_trans [OF f rx_frame_xmit]]
    unfolding expired by (simp add: tcp_expired_def Let_def)
next
  case (waited over r t')
  then show ?thesis using ready_closed by (simp add: tcp_wait_expired_def Let_def)
qed (use ready_frame [OF assms(2) rx_frame_trans [OF rx_frame_bookkeeping(2) rx_frame_keepalive_expired]]
      ready_frame [OF assms(2) rx_frame_trans [OF rx_frame_bookkeeping(4) rx_frame_xmit]]
      ready_frame [OF assms(2) rx_frame_app_call] ready_frame [OF assms(2) rx_frame_discard] in simp_all)

section \<open>A connection fed by the network\<close>

text \<open>
  A run of a connection that receives only packets of a set \<open>P\<close>, each checked and parsed as
  \<^verbatim>\<open>tcp_rx()\<close> does.
\<close>

definition accepts :: "bytes \<Rightarrow> tcp_options \<Rightarrow> bool" where
  "accepts pkt options \<longleftrightarrow> 20 \<le> length pkt \<and> 20 \<le> tcp_hlen pkt \<and> tcp_hlen pkt \<le> length pkt \<and>
     tcp_rx_opts (drop 20 (take (tcp_hlen pkt) pkt)) no_options = Inr options"

inductive tcp_fed :: "tcp_env \<Rightarrow> bytes set \<Rightarrow> u32 \<Rightarrow> tcp_sys \<Rightarrow> bool" for env P iss where
  opened: "tcp_open (table :: (bytes, unit) tcpip_net_protocol list) env True iss random_port st_peer st_local g = (None, g') \<Longrightarrow>
    calls_made g = [] \<Longrightarrow> tcp_fed env P iss (attach g' (hd (conns g')))"
| received: "tcp_fed env P iss s \<Longrightarrow> listed s \<Longrightarrow> pkt \<in> P \<Longrightarrow> accepts pkt options \<Longrightarrow>
    tcp_fed env P iss (snd (tcp_rx_packet env st_src pkt options s))"
| local: "tcp_fed env P iss s \<Longrightarrow> listed s \<Longrightarrow> tcp_local env s t \<Longrightarrow> tcp_fed env P iss t"

lemma tcp_fed_mono:
  assumes "tcp_fed env P iss s" "P \<subseteq> Q"
  shows "tcp_fed env Q iss s"
  using assms(1)
proof (induction rule: tcp_fed.induct)
  case (received s pkt options st_src)
  then show ?case using assms(2) by (auto intro: tcp_fed.received)
qed (auto intro: tcp_fed.opened tcp_fed.local)

lemma tcp_fed_tx_inv: "tcp_fed env P iss s \<Longrightarrow> tx_inv iss s \<and> ready s"
proof (induction rule: tcp_fed.induct)
  case (opened table random_port st_peer st_local g g')
  then show ?case
    using open_tx_inv [OF opened] open_idle [OF opened] by (auto simp: ready_def rx_ready_def rx_idle_def)
next
  case (received s pkt options st_src)
  then have "rx_ready (tcp_rx_ts options s)" "tx_inv iss (tcp_rx_ts options s)" "listed (tcp_rx_ts options s)"
    using rx_ready_frame [OF _ rx_frame_ts] tx_inv_frame [OF _ tx_frame_bookkeeping(6)] by (auto simp: ready_def)
  then show ?case by (simp add: tcp_rx_packet_def tx_inv_rx_conn ready_rx_conn)
next
  case (local s t)
  then show ?case using tx_inv_local ready_local by (auto simp: ready_def)
qed

text \<open>If the packets belong to a stream, such a run is one of those considered before.\<close>

lemma tcp_fed_run:
  assumes "tcp_fed env P iss s" "\<forall>pkt\<in>P. pkt_ok isn D closed pkt" "length D < 2 ^ 29 - 1"
  shows "tcp_run env isn D iss s"
  using assms(1)
proof (induction rule: tcp_fed.induct)
  case (received s pkt options st_src)
  have "tcp_hlen pkt \<ge> 20" "pkt_ok isn D closed pkt" using received.hyps assms(2) by (auto simp: accepts_def)
  then consider "is_reset (pkt ! 13) (drop (tcp_hlen pkt) pkt)"
    | p where "p \<le> length D + 1" "segment isn D p (pkt_seq pkt) (pkt ! 13) (drop (tcp_hlen pkt) pkt)"
    by (auto simp: pkt_ok_def)
  then have "\<exists>p. segment isn D p (pkt_seq pkt) (pkt ! 13) (drop (tcp_hlen pkt) pkt) \<and> nearby p s \<or>
      is_reset (pkt ! 13) (drop (tcp_hlen pkt) pkt)"
  proof cases
    case (2 p)
    obtain n where "delivered s = take n D" using rx_inv_delivered [OF tcp_run_inv [OF received.IH]] by blast
    then have "nearby p s" using 2(1) assms(3) by (auto simp: nearby_def)
    then show ?thesis using 2(2) by blast
  qed blast
  then obtain p where "segment isn D p (pkt_seq pkt) (pkt ! 13) (drop (tcp_hlen pkt) pkt) \<and> nearby p s \<or>
      is_reset (pkt ! 13) (drop (tcp_hlen pkt) pkt)" by blast
  then show ?case
    unfolding tcp_rx_packet_def pkt_seq_def by (rule tcp_run.received [OF received.IH received.hyps(2)])
qed (auto intro: tcp_run.opened tcp_run.local)

section \<open>Two connections and the network between them\<close>

text \<open>
  The network holds every packet that an end has ever sent: it may lose, duplicate, delay and
  reorder them, and deliver any of them at any time.  What it delivers passes the checks of
  \<^verbatim>\<open>tcp_rx()\<close>.  Everything else that happens is local to an end: timers, the transmit process,
  calls by the application, and the cache discarder.
\<close>

definition sent :: "tcp_sys \<Rightarrow> bytes set" where
  "sent s = {pkt_data pkt | pkt dest rc. Tcpip_tx pkt dest rc \<in> set (trace s)}"

inductive net_run :: "tcp_env \<Rightarrow> tcp_env \<Rightarrow> u32 \<Rightarrow> u32 \<Rightarrow> tcp_sys \<Rightarrow> tcp_sys \<Rightarrow> bool" for enva envb issa issb where
  opened: "tcp_open (tablea :: (bytes, unit) tcpip_net_protocol list) enva True issa porta peera locala ga = (None, ga') \<Longrightarrow>
    calls_made ga = [] \<Longrightarrow>
    tcp_open (tableb :: (bytes, unit) tcpip_net_protocol list) envb True issb portb peerb localb gb = (None, gb') \<Longrightarrow>
    calls_made gb = [] \<Longrightarrow>
    net_run enva envb issa issb (attach ga' (hd (conns ga'))) (attach gb' (hd (conns gb')))"
| local_a: "net_run enva envb issa issb a b \<Longrightarrow> listed a \<Longrightarrow> tcp_local enva a a' \<Longrightarrow>
    net_run enva envb issa issb a' b"
| local_b: "net_run enva envb issa issb a b \<Longrightarrow> listed b \<Longrightarrow> tcp_local envb b b' \<Longrightarrow>
    net_run enva envb issa issb a b'"
| received_a: "net_run enva envb issa issb a b \<Longrightarrow> listed a \<Longrightarrow> pkt \<in> sent b \<Longrightarrow> accepts pkt options \<Longrightarrow>
    net_run enva envb issa issb (snd (tcp_rx_packet enva st_src pkt options a)) b"
| received_b: "net_run enva envb issa issb a b \<Longrightarrow> listed b \<Longrightarrow> pkt \<in> sent a \<Longrightarrow> accepts pkt options \<Longrightarrow>
    net_run enva envb issa issb a (snd (tcp_rx_packet envb st_src pkt options b))"

lemma sent_grows: "grows s t \<Longrightarrow> sent s \<subseteq> sent t"
  by (fastforce simp: grows_def sent_def)

lemma net_run_fed:
  "net_run enva envb issa issb a b \<Longrightarrow> tcp_fed enva (sent b) issa a \<and> tcp_fed envb (sent a) issb b"
proof (induction rule: net_run.induct)
  case (opened tablea porta peera locala ga ga' tableb portb peerb localb gb gb')
  then show ?case by (intro conjI tcp_fed.opened)
next
  case (local_a a b a')
  then show ?case
    using tcp_fed_mono [OF _ sent_grows [OF grows_local]] tcp_fed.local by blast
next
  case (local_b a b b')
  then show ?case
    using tcp_fed_mono [OF _ sent_grows [OF grows_local]] tcp_fed.local by blast
next
  case (received_a a b pkt options st_src)
  then show ?case
    using tcp_fed_mono [OF _ sent_grows [OF grows_rx_packet]] tcp_fed.received by blast
next
  case (received_b a b pkt options st_src)
  then show ?case
    using tcp_fed_mono [OF _ sent_grows [OF grows_rx_packet]] tcp_fed.received by blast
qed

lemma tx_inv_sent: "tx_inv iss s \<Longrightarrow> \<forall>pkt\<in>sent s. pkt_ok iss (handed s) (xfer_closed s) pkt"
  by (auto simp: tx_inv_def pkts_ok_def sent_def)

lemma net_run_tcp_run:
  assumes "net_run enva envb issa issb a b"
  shows "length (handed b) < 2 ^ 29 - 1 \<Longrightarrow> tcp_run enva issb (handed b) issa a"
    "length (handed a) < 2 ^ 29 - 1 \<Longrightarrow> tcp_run envb issa (handed a) issb b"
proof -
  have f: "tcp_fed enva (sent b) issa a" "tcp_fed envb (sent a) issb b" using net_run_fed [OF assms] by simp_all
  have t: "tx_inv issa a" "tx_inv issb b" using f tcp_fed_tx_inv by blast+
  show "length (handed b) < 2 ^ 29 - 1 \<Longrightarrow> tcp_run enva issb (handed b) issa a"
    by (rule tcp_fed_run [OF f(1) tx_inv_sent [OF t(2)]])
  show "length (handed a) < 2 ^ 29 - 1 \<Longrightarrow> tcp_run envb issa (handed a) issb b"
    by (rule tcp_fed_run [OF f(2) tx_inv_sent [OF t(1)]])
qed

text \<open>C1. End to end: two connections of this implementation joined by a network that may lose,
  duplicate, delay and reorder packets deliver to each application a prefix of the bytes that
  the other handed over, and all of them once the FIN has been received, as long as each side
  hands over fewer than \<open>2^29 - 1\<close> bytes.\<close>

theorem tcp_end_to_end:
  assumes "net_run enva envb issa issb a b"
    "length (handed a) < 2 ^ 29 - 1" "length (handed b) < 2 ^ 29 - 1"
  shows "(\<exists>n. delivered a = take n (handed b)) \<and> (\<exists>n. delivered b = take n (handed a)) \<and>
    (tcp_state a AND TCP_STATE_RCVD TCP_FIN \<noteq> 0 \<longrightarrow> delivered a = handed b) \<and>
    (tcp_state b AND TCP_STATE_RCVD TCP_FIN \<noteq> 0 \<longrightarrow> delivered b = handed a)"
proof -
  have "rx_inv issb (handed b) a" "rx_inv issa (handed a) b"
    using net_run_tcp_run [OF assms(1)] assms(2,3) tcp_run_inv by blast+
  then show ?thesis
    using rx_inv_delivered rx_inv_fin by (auto simp: fin_rcvd_def)
qed

definition demo_sender :: tcp_sys where
  "demo_sender = run_app_call quiet_env (App_send [1, 2, 3]) (attach demo_opened (hd (conns demo_opened)))"

lemma demo_sender_handed: "handed demo_sender = [1, 2, 3]"
proof -
  have "running (timer (attach demo_opened (hd (conns demo_opened))))"
    "\<not> xfer_closed (attach demo_opened (hd (conns demo_opened)))" by code_simp+
  moreover have "timer (tcp_pending_data_get s) = timer s" for s
    by (simp add: tcp_pending_data_get_def case_prod_beta)
  ultimately show ?thesis
    using demo_conn(5) by (simp add: demo_sender_def tcp_xfer_deliver_def tcp_xmit_def tcp_xmit_sack_def)
qed

theorem tcp_end_to_end_witness:
  "net_run quiet_env quiet_env 1000 1000 (attach demo_opened (hd (conns demo_opened))) demo_sender \<and>
   handed demo_sender = [1, 2, 3] \<and>
   (\<exists>n. delivered (attach demo_opened (hd (conns demo_opened))) = take n [1, 2, 3])"
proof -
  let ?a = "attach demo_opened (hd (conns demo_opened))"
  have "net_run quiet_env quiet_env 1000 1000 ?a ?a"
    by (rule net_run.opened [OF demo_opens _ demo_opens]) simp_all
  then have "net_run quiet_env quiet_env 1000 1000 ?a demo_sender"
    unfolding demo_sender_def by (rule net_run.local_b [OF _ demo_conn(1) tcp_local.app])
  moreover have "length (handed ?a) < 2 ^ 29 - 1" "length (handed demo_sender) < 2 ^ 29 - 1"
    using demo_conn(5) demo_sender_handed by simp_all
  ultimately show ?thesis using tcp_end_to_end [of quiet_env quiet_env 1000 1000 ?a demo_sender] demo_sender_handed by simp
qed

section \<open>Options\<close>

text \<open>The parser on each option the code sends.\<close>

lemma rx_opts_nop: "tcp_rx_opts (TCP_OPTION_NOP # data) options = tcp_rx_opts data options"
  by (subst tcp_rx_opts.simps) (simp add: TCP_OPTION_NOP_def TCP_OPTION_END_def)

lemma rx_opts_option:
  assumes "kind \<noteq> TCP_OPTION_END" "kind \<noteq> TCP_OPTION_NOP" "option_min kind \<le> unat len"
    "unat len = 2 + length body"
  shows "tcp_rx_opts (kind # len # body @ data) options = tcp_rx_opts data (option_record (kind # len # body @ data) options)"
  using assms by (subst tcp_rx_opts.simps) simp

lemmas option_kinds = TCP_OPTION_END_def TCP_OPTION_NOP_def TCP_OPTION_MSS_def TCP_OPTION_WS_def
  TCP_OPTION_SACK_PERMITTED_def TCP_OPTION_SACK_def TCP_OPTION_TS_def

lemma rx_opts_mss: "tcp_rx_opts (tcp_mss_option m @ data) options = tcp_rx_opts data options"
  using rx_opts_option [of TCP_OPTION_MSS 4 "put16 (ucast m)" data options]
  by (simp add: tcp_mss_option_def option_kinds option_min_def option_record_def put16_def)

lemma rx_opts_ws:
  "tcp_rx_opts (tcp_window_scale_padded_option @ data) options =
     tcp_rx_opts data (options\<lparr>wsopt := Some TCP_RX_WINDOW_SCALE\<rparr>)"
  using rx_opts_option [of TCP_OPTION_WS 3 "[TCP_RX_WINDOW_SCALE]" data options]
  by (simp add: tcp_window_scale_padded_option_def rx_opts_nop)
    (simp add: option_kinds option_min_def option_record_def)

lemma rx_opts_sp:
  "tcp_rx_opts (tcp_sack_permitted_padded_option @ data) options = tcp_rx_opts data (options\<lparr>spopt := True\<rparr>)"
  using rx_opts_option [of TCP_OPTION_SACK_PERMITTED 2 "[]" data options]
  by (simp add: tcp_sack_permitted_padded_option_def rx_opts_nop)
    (simp add: option_kinds option_min_def option_record_def)

lemma rx_opts_ts:
  "tcp_rx_opts (tcp_timestamp_padded_option v e @ data) options = tcp_rx_opts data (options\<lparr>tsopt := Some v\<rparr>)"
proof -
  have "option_record (TCP_OPTION_TS # 10 # (put32 v @ put32 e) @ data) options = options\<lparr>tsopt := Some v\<rparr>"
    using get32_put32 [of v] by (simp add: option_record_def option_kinds put32_def)
  moreover have "option_min TCP_OPTION_TS \<le> unat (10::u8)" "unat (10::u8) = 2 + length (put32 v @ put32 e)"
    by (simp_all add: option_min_def option_kinds put32_def)
  ultimately show ?thesis
    using rx_opts_option [of TCP_OPTION_TS 10 "put32 v @ put32 e" data options]
    by (simp add: tcp_timestamp_padded_option_def rx_opts_nop) (simp add: option_kinds)
qed

lemma rx_opts_sack:
  assumes "length blocks \<le> 3"
  shows "tcp_rx_opts (tcp_sack_padded_option blocks @ data) options = tcp_rx_opts data options"
proof -
  let ?body = "concat (map (\<lambda>b. put32 (sack_left b) @ put32 (sack_right b)) blocks)"
  have "length ?body = 8 * length blocks" by (induction blocks) (simp_all add: put32_def)
  moreover have "unat (of_nat (2 + 8 * length blocks) :: u8) = 2 + 8 * length blocks"
    using assms unfolding unat_of_nat by (intro mod_less) simp
  ultimately show ?thesis
    using rx_opts_option [of TCP_OPTION_SACK "of_nat (2 + 8 * length blocks)" ?body data options]
    by (simp add: tcp_sack_padded_option_def rx_opts_nop)
      (simp add: option_kinds option_min_def option_record_def)
qed

text \<open>C33. Options: parsing the options that \<^verbatim>\<open>tcp_xmit_sack()\<close> puts in front of the payload succeeds and
  gives what was sent: the window scale and SACK-permitted of a SYN, and the time stamp when it
  is a SYN or time stamps have been negotiated.\<close>

theorem tcp_options_roundtrip:
  "tcp_rx_opts (pkt_data (fst (tcp_push_options env flgs sack_seq (\<lparr>pkt_headroom = headroom, pkt_data = []\<rparr>, s))))
     no_options =
   Inr \<lparr>wsopt = (if flgs AND TCP_SYN = 0 then None else Some TCP_RX_WINDOW_SCALE),
        spopt = (flgs AND TCP_SYN \<noteq> 0),
        tsopt = (if flgs AND TCP_SYN = 0 \<and> flags s AND TCP_TS_ENABLED = 0 then None
                 else Some (ucast (tcp_now env s)))\<rparr>"
proof -
  let ?ps1 = "push_syn_options flgs (\<lparr>pkt_headroom = headroom, pkt_data = []\<rparr>, s)"
  let ?ps2 = "push_ts_option env flgs ?ps1"
  have nil: "tcp_rx_opts [] options = Inr options" for options by (subst tcp_rx_opts.simps) simp
  have 1: "tcp_rx_opts (pkt_data (fst ?ps1)) options =
      Inr (if flgs AND TCP_SYN \<noteq> 0 then options\<lparr>wsopt := Some TCP_RX_WINDOW_SCALE, spopt := True\<rparr> else options)" for options
    using rx_opts_mss [of _ "[]"]
    by (simp add: push_syn_options_def pkt_push_def Let_def case_prod_beta rx_opts_sp rx_opts_ws nil)
  have f: "flags (snd ?ps1) = flags s" "tcp_now env (snd ?ps1) = tcp_now env s"
    by (simp_all add: push_syn_options_def pkt_push_def Let_def case_prod_beta tcp_now_def)
  have 2: "tcp_rx_opts (pkt_data (fst ?ps2)) options = tcp_rx_opts (pkt_data (fst ?ps1))
      (if flgs AND TCP_SYN \<noteq> 0 \<or> flags s AND TCP_TS_ENABLED \<noteq> 0
       then options\<lparr>tsopt := Some (ucast (tcp_now env s))\<rparr> else options)" for options
    unfolding push_ts_option_def f by (simp add: pkt_push_def Let_def case_prod_beta rx_opts_ts)
  have "tcp_rx_opts (tcp_sack_padded_option (take (fst (tcp_sack q t)) l) @ d) options = tcp_rx_opts d options"
    for q t l d options
    by (rule rx_opts_sack) (use sack_count [of q t] in simp)
  then have "tcp_rx_opts (pkt_data (fst (push_sack_option sack_seq ?ps2))) options = tcp_rx_opts (pkt_data (fst ?ps2)) options"
    for options
    by (simp add: push_sack_option_def pkt_push_def Let_def case_prod_beta)
  then show ?thesis unfolding tcp_push_options_def 1 2 by (simp add: no_options_def 1)
qed

end
