(* ===== verification/Digest.thy ===== *)
theory Digest imports IPXE_Prelude begin

text \<open>
  What the digest algorithms of \<^verbatim>\<open>crypto/\<close> share: the byte order conversions of
  \<^verbatim>\<open>byteswap.h\<close>, the rotations of \<^verbatim>\<open>rotate.h\<close>, the context with its accumulated data, and the
  contract of an algorithm that processes blocks.  The locale \<open>block_digest\<close> proves once that
  accumulating data in pieces, padding and finalising computes the iterated compression of the
  padded message; every algorithm interprets it.
\<close>

unbundle bit_operations_syntax

section \<open>Byte order and rotation\<close>

primrec le_bytes :: "nat \<Rightarrow> 'a::len word \<Rightarrow> bytes" where
  "le_bytes 0 w = []"
| "le_bytes (Suc n) w = ucast w # le_bytes n (drop_bit 8 w)"

primrec le_word :: "bytes \<Rightarrow> 'a::len word" where
  "le_word [] = 0"
| "le_word (b # bs) = ucast b OR push_bit 8 (le_word bs)"

definition be_bytes :: "nat \<Rightarrow> 'a::len word \<Rightarrow> bytes" where
  "be_bytes n w = rev (le_bytes n w)"

definition be_word :: "bytes \<Rightarrow> 'a::len word" where
  "be_word bs = le_word (rev bs)"

lemma length_le_bytes [simp]: "length (le_bytes n w) = n"
  by (induction n arbitrary: w) simp_all

lemma length_be_bytes [simp]: "length (be_bytes n w) = n"
  by (simp add: be_bytes_def)

lemma le_bytes_add: "le_bytes (m + n) w = le_bytes m w @ le_bytes n (drop_bit (8 * m) w)"
  by (induction m arbitrary: w) (simp_all add: drop_bit_drop_bit add.commute)

lemma le_bytes_cong:
  "(\<And>i. i < 8 * n \<Longrightarrow> bit x i = bit y i) \<Longrightarrow> le_bytes n (x :: 'a::len word) = le_bytes n (y :: 'b::len word)"
proof (induction n arbitrary: x y)
  case (Suc n)
  have "ucast x = (ucast y :: u8)" by (rule bit_word_eqI) (simp add: bit_ucast_iff Suc.prems)
  moreover have "le_bytes n (drop_bit 8 x) = le_bytes n (drop_bit 8 y)"
    by (rule Suc.IH) (simp add: bit_drop_bit_eq Suc.prems)
  ultimately show ?case by simp
qed simp

lemma le_word_bytes: "le_word (le_bytes n w) = take_bit (8 * n) (w :: 'a::len word)"
proof (induction n arbitrary: w)
  case (Suc n)
  show ?case
  proof (rule bit_word_eqI)
    fix i assume "i < LENGTH('a)"
    then show "bit (le_word (le_bytes (Suc n) w) :: 'a word) i = bit (take_bit (8 * Suc n) w) i"
      by (auto simp: Suc bit_or_iff bit_push_bit_iff bit_take_bit_iff bit_drop_bit_eq bit_ucast_iff)
  qed
qed simp

lemma le_word_bytes_full: "8 * n = LENGTH('a) \<Longrightarrow> le_word (le_bytes n w) = (w :: 'a::len word)"
  by (simp add: le_word_bytes take_bit_word_eq_self)

lemma be_word_bytes: "8 * n = LENGTH('a) \<Longrightarrow> be_word (be_bytes n w) = (w :: 'a::len word)"
  by (simp add: be_word_def be_bytes_def le_word_bytes_full)

definition rol32 :: "u32 \<Rightarrow> nat \<Rightarrow> u32" where
  "rol32 data rotation = push_bit rotation data OR drop_bit (32 - rotation) data"
definition ror32 :: "u32 \<Rightarrow> nat \<Rightarrow> u32" where
  "ror32 data rotation = drop_bit rotation data OR push_bit (32 - rotation) data"
definition ror64 :: "u64 \<Rightarrow> nat \<Rightarrow> u64" where
  "ror64 data rotation = drop_bit rotation data OR push_bit (64 - rotation) data"

text \<open>The logical functions of FIPS 180-4, and the forms the code uses.\<close>

definition Ch :: "'a::len word \<Rightarrow> 'a word \<Rightarrow> 'a word \<Rightarrow> 'a word" where
  "Ch x y z = (x AND y) XOR (NOT x AND z)"
definition Parity :: "'a::len word \<Rightarrow> 'a word \<Rightarrow> 'a word \<Rightarrow> 'a word" where
  "Parity x y z = x XOR y XOR z"
definition Maj :: "'a::len word \<Rightarrow> 'a word \<Rightarrow> 'a word \<Rightarrow> 'a word" where
  "Maj x y z = (x AND y) XOR (x AND z) XOR (y AND z)"

lemma Ch_or: "(x AND y) OR (NOT x AND z) = Ch x y z"
  by (rule bit_word_eqI) (auto simp: Ch_def bit_simps)

lemma Maj_or: "(x AND y) OR (x AND z) OR (y AND z) = Maj x y z"
  by (rule bit_word_eqI) (auto simp: Maj_def bit_simps)

text \<open>A byte array seen as an array of units of \<open>n\<close> bytes.\<close>

function group :: "nat \<Rightarrow> 'a list \<Rightarrow> 'a list list" where
  "group n xs = (if n = 0 \<or> xs = [] then [] else take n xs # group n (drop n xs))"
  by pat_completeness auto
termination by (relation "measure (\<lambda>(n, xs). length xs)") auto

declare group.simps [simp del]

lemma group_Nil [simp]: "group n [] = []"
  by (simp add: group.simps)

lemma group_append_one: "length x = n \<Longrightarrow> 0 < n \<Longrightarrow> group n (x @ xs) = x # group n xs"
  by (subst group.simps) auto

lemma group_concat:
  assumes "0 < n" "\<forall>x\<in>set xss. length x = n"
  shows "group n (concat xss @ ys) = xss @ group n ys"
  using assms(2) by (induction xss) (simp_all add: group_append_one assms(1))

lemma length_group:
  assumes "0 < n" "length xs = n * k"
  shows "length (group n xs) = k"
  using assms(2)
proof (induction k arbitrary: xs)
  case (Suc k)
  then have "xs \<noteq> []" "length (drop n xs) = n * k" using assms(1) by auto
  then show ?case using Suc.IH assms(1) by (subst group.simps) simp
qed simp

section \<open>The constants of FIPS 180-4\<close>

text \<open>
  The constants of SHA-2 are the first bits of the fractional parts of roots of the first
  primes: \<open>k\<close> is the first \<open>w\<close> bits of the fractional part of the \<open>e\<close>-th root of \<open>p\<close>.
\<close>

definition first_primes :: "nat list" where
  "first_primes =
     [2, 3, 5, 7, 11, 13, 17, 19, 23, 29, 31, 37, 41, 43, 47, 53, 59, 61, 67, 71,
      73, 79, 83, 89, 97, 101, 103, 107, 109, 113, 127, 131, 137, 139, 149, 151, 157, 163, 167, 173,
      179, 181, 191, 193, 197, 199, 211, 223, 227, 229, 233, 239, 241, 251, 257, 263, 269, 271, 277, 281,
      283, 293, 307, 311, 313, 317, 331, 337, 347, 349, 353, 359, 367, 373, 379, 383, 389, 397, 401, 409]"

definition small_root :: "nat \<Rightarrow> nat \<Rightarrow> nat" where
  "small_root e p = length (filter (\<lambda>q. q ^ e \<le> p) [1, 2, 3, 4, 5, 6, 7])"

definition root_fraction :: "nat \<Rightarrow> nat \<Rightarrow> nat \<Rightarrow> nat \<Rightarrow> bool" where
  "root_fraction e w p k \<longleftrightarrow>
     (small_root e p * 2 ^ w + k) ^ e \<le> p * (2 ^ w) ^ e \<and> p * (2 ^ w) ^ e < (small_root e p * 2 ^ w + k + 1) ^ e"

section \<open>Contexts\<close>

text \<open>
  The number of bytes accumulated, the packed digest and data block as raw bytes, and the
  number of assertions that have failed.
\<close>

record digest_context =
  ctx_len :: u64
  ddd :: bytes
  digest_failures :: nat

text \<open>The contexts of the SHA-2 algorithms also hold the length of the result.\<close>

record sized_context = digest_context +
  ctx_digestsize :: nat

definition digest_assert :: "bool \<Rightarrow> 'a digest_context_scheme \<Rightarrow> 'a digest_context_scheme" where
  "digest_assert c ctx =
     (if c then ctx else ctx\<lparr>digest_failures := digest_failures ctx + 1\<rparr>)"

lemma digest_assert_True [simp]: "digest_assert True ctx = ctx"
  by (simp add: digest_assert_def)

lemma digest_assert_fields [simp]:
  "ctx_len (digest_assert c ctx) = ctx_len ctx" "ddd (digest_assert c ctx) = ddd ctx"
  by (simp_all add: digest_assert_def)

text \<open>The byte-wise accumulation of every algorithm, up to the names of its functions.\<close>

definition accumulate ::
  "nat \<Rightarrow> nat \<Rightarrow> ('a digest_context_scheme \<Rightarrow> 'a digest_context_scheme) \<Rightarrow> u8 \<Rightarrow> 'a digest_context_scheme
   \<Rightarrow> 'a digest_context_scheme" where
  "accumulate size_digest size_data digest byte ctx =
     (let offset = unat (ctx_len ctx) mod size_data;
          ctx = ctx\<lparr>ddd := (ddd ctx)[size_digest + offset := byte], ctx_len := ctx_len ctx + 1\<rparr>
      in if unat (ctx_len ctx) mod size_data = 0 then digest ctx else ctx)"

section \<open>What a digest is\<close>

text \<open>
  The iterated compression of the whole blocks of a message, and the message padded with a one
  bit, zero bits and its length.
\<close>

function iterate :: "nat \<Rightarrow> (bytes \<Rightarrow> bytes \<Rightarrow> bytes) \<Rightarrow> bytes \<Rightarrow> bytes \<Rightarrow> bytes" where
  "iterate n compress h msg =
     (if n = 0 \<or> length msg < n then h else iterate n compress (compress h (take n msg)) (drop n msg))"
  by pat_completeness auto
termination by (relation "measure (\<lambda>(n, compress, h, msg). length msg)") auto

declare iterate.simps [simp del]

definition zeros :: "nat \<Rightarrow> nat \<Rightarrow> nat \<Rightarrow> nat" where
  "zeros n len_offset len =
     (if len mod n < len_offset then len_offset - 1 - len mod n else n + len_offset - 1 - len mod n)"

definition padded :: "nat \<Rightarrow> nat \<Rightarrow> (nat \<Rightarrow> bytes) \<Rightarrow> bytes \<Rightarrow> bytes" where
  "padded n len_offset enc msg =
     msg @ 0x80 # replicate (zeros n len_offset (length msg)) 0 @ enc (8 * length msg)"

text \<open>The number of zero bytes is the least that puts the length at its offset.\<close>

lemma zeros_least:
  assumes "len_offset < n"
  shows "Suc (len + zeros n len_offset len) mod n = len_offset" "zeros n len_offset len < n"
proof -
  have m: "len mod n < n" using assms by simp
  have "Suc (len + zeros n len_offset len) mod n = Suc (len mod n + zeros n len_offset len) mod n"
    by (metis add_Suc_right mod_add_left_eq)
  also have "\<dots> = len_offset"
  proof (cases "len mod n < len_offset")
    case False
    then have "Suc (len mod n + zeros n len_offset len) = n + len_offset" using m by (simp add: zeros_def)
    then show ?thesis using assms by simp
  qed (use assms in \<open>simp add: zeros_def\<close>)
  finally show "Suc (len + zeros n len_offset len) mod n = len_offset" .
  show "zeros n len_offset len < n" using assms by (auto simp: zeros_def)
qed

lemma zeros_step:
  assumes "len_offset < n"
  shows "zeros n len_offset len = (if Suc len mod n = len_offset then 0 else Suc (zeros n len_offset (Suc len)))"
proof -
  define m where "m = len mod n"
  have m: "m < n" using assms by (simp add: m_def)
  have s: "Suc len mod n = (if Suc m = n then 0 else Suc m)" unfolding m_def by (rule mod_Suc)
  show ?thesis unfolding zeros_def s m_def [symmetric] using m assms by (simp split: if_split) linarith
qed

lemma iterate_short: "length msg < n \<Longrightarrow> iterate n compress h msg = h"
  by (simp add: iterate.simps)

lemma iterate_append:
  assumes "0 < n" "length xs = n * k"
  shows "iterate n compress h (xs @ ys) = iterate n compress (iterate n compress h xs) ys"
  using assms(2)
proof (induction k arbitrary: xs h)
  case 0
  then show ?case using assms(1) by (simp add: iterate_short)
next
  case (Suc k)
  then have "n \<le> length xs" "length (drop n xs) = n * k" by auto
  then show ?case
    using Suc.IH assms(1)
    by (simp add: iterate.simps [of n compress h "xs @ ys"] iterate.simps [of n compress h xs])
qed

lemma iterate_block: "length b = n \<Longrightarrow> 0 < n \<Longrightarrow> iterate n compress h b = compress h b"
  by (subst iterate.simps) (simp add: iterate_short)

lemma iterate_split:
  assumes "0 < n"
  shows "iterate n compress h (xs @ ys) =
    iterate n compress (iterate n compress h xs) (drop (length xs - length xs mod n) xs @ ys)"
proof -
  define k where "k = length xs - length xs mod n"
  have k: "k = n * (length xs div n)" unfolding k_def by (simp add: minus_mod_eq_mult_div)
  then have l: "length (take k xs) = n * (length xs div n)"
    using div_times_less_eq_dividend [of "length xs" n] by (simp add: mult.commute)
  have d: "length (drop k xs) < n" using assms by (simp add: k_def)
  have "iterate n compress h (xs @ ys) = iterate n compress (iterate n compress h (take k xs)) (drop k xs @ ys)"
    using iterate_append [OF assms l, of compress h "drop k xs @ ys"] by (simp flip: append_assoc)
  moreover have "iterate n compress h xs = iterate n compress h (take k xs)"
    using iterate_append [OF assms l, of compress h "drop k xs"] d by (simp add: iterate_short)
  ultimately show ?thesis by (simp add: k_def)
qed

lemma iterate_add_block:
  assumes "0 < n" "length xs mod n + length ys = n"
  shows "iterate n compress h (xs @ ys) =
    compress (iterate n compress h xs) (drop (length xs - length xs mod n) xs @ ys)"
  by (rule trans [OF iterate_split [OF assms(1)] iterate_block]) (use assms in simp_all)

lemma iterate_add_part:
  assumes "0 < n" "length xs mod n + length ys < n"
  shows "iterate n compress h (xs @ ys) = iterate n compress h xs"
  by (rule trans [OF iterate_split [OF assms(1)] iterate_short]) (use assms in simp)

lemma mod_word_Suc:
  assumes "n dvd 2 ^ 64"
  shows "unat (x + 1 :: u64) mod n = Suc (unat x) mod n"
proof -
  have "unat (x + 1) = Suc (unat x) mod 2 ^ 64" by (simp add: unat_word_ariths)
  then have "unat (x + 1) mod n = Suc (unat x) mod 2 ^ 64 mod n" by (simp only:)
  also have "\<dots> = Suc (unat x) mod n" by (rule mod_mod_cancel [OF assms])
  finally show ?thesis .
qed

text \<open>The padding loop of every algorithm ends: the distance to the offset of the length decreases.\<close>

lemma pad_decreases:
  assumes "n dvd 2 ^ 64" "off < n" "unat (x + 1 :: u64) mod n \<noteq> off"
  shows "zeros n off (unat (x + 1)) < zeros n off (unat x)"
proof -
  have "zeros n off (unat (x + 1)) = zeros n off (Suc (unat x))"
    using mod_word_Suc [OF assms(1), of x] by (simp add: zeros_def)
  then show ?thesis
    using zeros_step [OF assms(2), of "unat x"] mod_word_Suc [OF assms(1), of x] assms(3) by simp
qed

section \<open>Blocks of words\<close>

text \<open>A compression of words, in the given byte order, as one of bytes.\<close>

definition on_bytes ::
  "(bytes \<Rightarrow> 'w) \<Rightarrow> ('w \<Rightarrow> bytes) \<Rightarrow> nat \<Rightarrow> ('w list \<Rightarrow> 'w list \<Rightarrow> 'w list) \<Rightarrow> bytes \<Rightarrow> bytes \<Rightarrow> bytes" where
  "on_bytes from to n f h block = concat (map to (f (map from (group n h)) (map from (group n block))))"

lemma length_concat_map: "(\<And>w. length (to w) = n) \<Longrightarrow> length (concat (map to ws)) = n * length ws"
  by (induction ws) simp_all

lemma group_take: "0 < n \<Longrightarrow> group n (take (n * k) xs) = take k (group n xs)"
proof (induction k arbitrary: xs)
  case (Suc k)
  then show ?case
    by (cases "xs = []")
      (simp_all add: group.simps [of n "take (n + n * k) xs"] group.simps [of n xs] drop_take min_def)
qed simp

lemma group_drop: "0 < n \<Longrightarrow> group n (drop (n * k) xs) = drop k (group n xs)"
proof (induction k arbitrary: xs)
  case (Suc k)
  then show ?case
    using Suc.IH [of "drop n xs"] by (cases "xs = []") (simp_all add: group.simps [of n xs] add.commute)
qed simp

section \<open>The contract of a block digest\<close>

text \<open>
  \<open>digest\<close> processes the data block of a full context: it replaces the digest at its front by
  the compression of the digest and the block, and touches nothing else but the block itself.
\<close>

locale block_digest =
  fixes size_digest size_data :: nat
    and compress :: "bytes \<Rightarrow> bytes \<Rightarrow> bytes"
    and digest :: "'a digest_context_scheme \<Rightarrow> 'a digest_context_scheme"
  assumes size_data: "0 < size_data" "size_data dvd 2 ^ 64"
    and digest_ddd: "length (ddd ctx) = size_digest + size_data \<Longrightarrow>
      take size_digest (ddd (digest ctx)) = compress (take size_digest (ddd ctx)) (drop size_digest (ddd ctx))"
    and digest_length: "length (ddd ctx) = size_digest + size_data \<Longrightarrow>
      length (ddd (digest ctx)) = size_digest + size_data"
    and digest_len: "ctx_len (digest ctx) = ctx_len ctx"
    and digest_more: "digest_context.more (digest ctx) = digest_context.more ctx"
    and digest_ok: "unat (ctx_len ctx) mod size_data = 0 \<Longrightarrow> digest_failures (digest ctx) = digest_failures ctx"
begin

text \<open>A context that has absorbed a message, starting from the digest \<open>h\<close>.\<close>

definition absorbed :: "'a digest_context_scheme \<Rightarrow> bytes \<Rightarrow> bytes \<Rightarrow> bool" where
  "absorbed ctx h msg \<longleftrightarrow>
     length (ddd ctx) = size_digest + size_data \<and> ctx_len ctx = of_nat (length msg) \<and>
     take size_digest (ddd ctx) = iterate size_data compress h msg \<and>
     take (length msg mod size_data) (drop size_digest (ddd ctx)) = drop (length msg - length msg mod size_data) msg"

lemma unat_len: "unat (of_nat n :: u64) mod size_data = n mod size_data"
  using size_data(2) by (simp add: unat_of_nat mod_mod_cancel)

lemma absorbed_init:
  "length (ddd ctx) = size_digest + size_data \<Longrightarrow> ctx_len ctx = 0 \<Longrightarrow> take size_digest (ddd ctx) = h \<Longrightarrow>
   absorbed ctx h []"
  using size_data(1) by (simp add: absorbed_def iterate_short)

lemma absorbed_byte:
  assumes "absorbed ctx h msg"
  shows "absorbed (accumulate size_digest size_data digest byte ctx) h (msg @ [byte])"
    and "digest_failures (accumulate size_digest size_data digest byte ctx) = digest_failures ctx"
    and "digest_context.more (accumulate size_digest size_data digest byte ctx) = digest_context.more ctx"
proof -
  let ?r = "length msg mod size_data"
  let ?d = "(ddd ctx)[size_digest + ?r := byte]"
  define ctx' where "ctx' = ctx\<lparr>ddd := ?d, ctx_len := of_nat (Suc (length msg))\<rparr>"
  have r: "?r < size_data" using size_data(1) by simp
  have c: "length (ddd ctx) = size_digest + size_data" "ctx_len ctx = of_nat (length msg)"
    "take size_digest (ddd ctx) = iterate size_data compress h msg"
    "take ?r (drop size_digest (ddd ctx)) = drop (length msg - ?r) msg"
    using assms by (simp_all add: absorbed_def)
  have acc: "accumulate size_digest size_data digest byte ctx =
      (if Suc (length msg) mod size_data = 0 then digest ctx' else ctx')"
    using unat_len [of "length msg"] unat_len [of "Suc (length msg)"]
    by (simp add: accumulate_def c(2) ctx'_def add.commute)
  have l: "length (ddd ctx') = size_digest + size_data" using c(1) by (simp add: ctx'_def)
  have h: "take size_digest (ddd ctx') = iterate size_data compress h msg"
    using c(3) by (simp add: ctx'_def)
  have "take (Suc ?r) (drop size_digest ?d) = take ?r (drop size_digest (ddd ctx)) @ [byte]"
    using c(1) r by (simp add: take_Suc_conv_app_nth drop_update_swap)
  then have b: "take (Suc ?r) (drop size_digest (ddd ctx')) = drop (length msg - ?r) msg @ [byte]"
    unfolding c(4) by (simp add: ctx'_def)
  show "absorbed (accumulate size_digest size_data digest byte ctx) h (msg @ [byte])"
  proof (cases "Suc ?r = size_data")
    case True
    then have m: "Suc (length msg) mod size_data = 0" by (simp add: mod_Suc)
    have "drop size_digest (ddd ctx') = drop (length msg - ?r) msg @ [byte]"
      using b l True by simp
    then have "take size_digest (ddd (digest ctx')) = iterate size_data compress h (msg @ [byte])"
      using digest_ddd [OF l] h iterate_add_block [OF size_data(1), of msg "[byte]"] True by simp
    moreover have "ctx_len (digest ctx') = of_nat (Suc (length msg))"
      by (simp add: digest_len ctx'_def)
    ultimately show ?thesis
      using m digest_length [OF l] by (simp add: acc absorbed_def)
  next
    case False
    then have m: "Suc (length msg) mod size_data = Suc ?r" by (simp add: mod_Suc)
    have "iterate size_data compress h (msg @ [byte]) = iterate size_data compress h msg"
      using r False by (intro iterate_add_part [OF size_data(1)]) simp
    then show ?thesis using l h b m r by (simp add: acc absorbed_def) (simp add: ctx'_def)
  qed
  show "digest_failures (accumulate size_digest size_data digest byte ctx) = digest_failures ctx"
    using digest_ok [of ctx'] unat_len [of "Suc (length msg)"] by (simp add: acc ctx'_def)
  show "digest_context.more (accumulate size_digest size_data digest byte ctx) = digest_context.more ctx"
    by (simp add: acc digest_more ctx'_def)
qed

lemma absorbed_update:
  "absorbed ctx h msg \<Longrightarrow>
   absorbed (fold (accumulate size_digest size_data digest) data ctx) h (msg @ data) \<and>
   digest_failures (fold (accumulate size_digest size_data digest) data ctx) = digest_failures ctx \<and>
   digest_context.more (fold (accumulate size_digest size_data digest) data ctx) = digest_context.more ctx"
proof (induction data arbitrary: ctx msg)
  case (Cons byte data)
  show ?case using Cons.IH [OF absorbed_byte(1) [OF Cons.prems]] absorbed_byte(2,3) [OF Cons.prems] by simp
qed simp

lemma absorbed_digest:
  "absorbed ctx h msg \<Longrightarrow> take size_digest (ddd ctx) = iterate size_data compress h msg"
  by (simp add: absorbed_def)
end

text \<open>
  An algorithm on words is a block digest: it reads the context as an array of words in its
  byte order, leaves the words of the data in the order of the machine, and writes the digest
  back in its own.
\<close>

lemma block_digest_on_words:
  fixes digest :: "'a digest_context_scheme \<Rightarrow> 'a digest_context_scheme" and to :: "'w::len word \<Rightarrow> bytes"
  assumes n: "n dvd 64" "0 < n"
    and digest: "\<And>ctx. digest ctx =
      (let ctx = digest_assert (unat (ctx_len ctx) mod (n * 16) = 0) ctx;
           ws = map from (group n (ddd ctx))
       in ctx\<lparr>ddd := concat (map to (f (take k ws) (drop k ws))) @ concat (map (le_bytes n) (drop k ws))\<rparr>)"
    and to: "\<And>w. length (to w) = n"
    and f: "\<And>h m. length h = k \<Longrightarrow> length m = 16 \<Longrightarrow> f h m = g h m"
    and g: "\<And>h m. length h = k \<Longrightarrow> length m = 16 \<Longrightarrow> length (g h m) = k"
  shows "block_digest (n * k) (n * 16) (on_bytes from to n g) digest"
proof
  show "0 < n * 16" using n(2) by simp
  have "n * 16 dvd 64 * 16" using n(1) by (rule mult_dvd_mono) simp
  also have "(64 * 16 :: nat) dvd 2 ^ 64" by simp
  finally show "n * 16 dvd 2 ^ 64" .
next
  fix ctx :: "'a digest_context_scheme"
  let ?ws = "map from (group n (ddd ctx))"
  assume l: "length (ddd ctx) = n * k + n * 16"
  then have lw: "length ?ws = k + 16" using length_group [OF n(2), of "ddd ctx" "k + 16"] by (simp add: algebra_simps)
  then have "length (take k ?ws) = k" "length (drop k ?ws) = 16" by simp_all
  note e = f [OF this] and lg = g [OF this]
  have c: "length (concat (map to (g (take k ?ws) (drop k ?ws)))) = n * k"
    using lg by (simp add: length_concat_map [OF to])
  have "take (n * k) (ddd (digest ctx)) = concat (map to (g (take k ?ws) (drop k ?ws)))"
    using c unfolding digest [of ctx] by (simp add: Let_def e)
  then show "take (n * k) (ddd (digest ctx)) =
      on_bytes from to n g (take (n * k) (ddd ctx)) (drop (n * k) (ddd ctx))"
    by (simp add: on_bytes_def group_take [OF n(2)] group_drop [OF n(2)] take_map drop_map)
  show "length (ddd (digest ctx)) = n * k + n * 16"
    using c lw length_concat_map [of "le_bytes n" n "drop k ?ws"] unfolding digest [of ctx] by (simp add: Let_def e)
next
  fix ctx :: "'a digest_context_scheme"
  show "ctx_len (digest ctx) = ctx_len ctx" unfolding digest [of ctx] by (simp add: Let_def)
  show "digest_context.more (digest ctx) = digest_context.more ctx"
    unfolding digest [of ctx] by (simp add: Let_def digest_assert_def)
  show "unat (ctx_len ctx) mod (n * 16) = 0 \<Longrightarrow> digest_failures (digest ctx) = digest_failures ctx"
    unfolding digest [of ctx] by (simp add: Let_def)
qed

text \<open>
  A block digest with its padding loop: \<open>pad\<close> accumulates a first byte and then zeros up to the
  offset of the length.
\<close>

locale padded_digest = block_digest +
  fixes pad :: "u8 \<Rightarrow> 'a digest_context_scheme \<Rightarrow> 'a digest_context_scheme" and len_offset :: nat
  assumes len_offset: "len_offset < size_data"
    and pad: "pad byte ctx =
      (let ctx = accumulate size_digest size_data digest byte ctx
       in if unat (ctx_len ctx) mod size_data \<noteq> len_offset then pad 0 ctx else ctx)"
begin

lemma pad_absorbed:
  assumes "absorbed ctx h msg"
  shows "absorbed (pad byte ctx) h (msg @ byte # replicate (zeros size_data len_offset (length msg)) 0) \<and>
    digest_failures (pad byte ctx) = digest_failures ctx \<and> digest_context.more (pad byte ctx) = digest_context.more ctx"
  using assms
proof (induction "zeros size_data len_offset (length msg)" arbitrary: ctx msg byte)
  case 0
  define ctx' where "ctx' = accumulate size_digest size_data digest byte ctx"
  note a = absorbed_byte [OF 0(2), of byte, folded ctx'_def]
  have "unat (ctx_len ctx') mod size_data = len_offset"
    using zeros_step [OF len_offset, of "length msg"] 0(1) a(1) unat_len [of "Suc (length msg)"]
    by (auto simp: absorbed_def split: if_splits)
  then have "pad byte ctx = ctx'" by (subst pad) (simp add: ctx'_def)
  then show ?case using a 0(1) by simp
next
  case (Suc k)
  define ctx' where "ctx' = accumulate size_digest size_data digest byte ctx"
  note a = absorbed_byte [OF Suc.prems, of byte, folded ctx'_def]
  have z: "Suc (length msg) mod size_data \<noteq> len_offset" "k = zeros size_data len_offset (length (msg @ [byte]))"
    using zeros_step [OF len_offset, of "length msg"] Suc.hyps(2) by (simp_all split: if_splits)
  have "unat (ctx_len ctx') mod size_data \<noteq> len_offset"
    using z(1) a(1) unat_len [of "Suc (length msg)"] by (simp add: absorbed_def)
  then have p: "pad byte ctx = pad 0 ctx'" by (subst pad) (simp add: ctx'_def)
  show ?case
    using Suc.hyps(1) [OF z(2) a(1), of 0] a(2,3) unfolding p z(2) [symmetric] Suc.hyps(2) [symmetric] by simp
qed

lemma final_absorbed:
  assumes "absorbed ctx h msg" "length enc = size_data - len_offset"
  shows "take size_digest (ddd (fold (accumulate size_digest size_data digest) enc (pad 0x80 ctx))) =
      iterate size_data compress h (padded size_data len_offset (\<lambda>_. enc) msg) \<and>
    length (ddd (fold (accumulate size_digest size_data digest) enc (pad 0x80 ctx))) = size_digest + size_data \<and>
    unat (ctx_len (fold (accumulate size_digest size_data digest) enc (pad 0x80 ctx))) mod size_data = 0 \<and>
    digest_context.more (fold (accumulate size_digest size_data digest) enc (pad 0x80 ctx)) = digest_context.more ctx \<and>
    digest_failures (fold (accumulate size_digest size_data digest) enc (pad 0x80 ctx)) = digest_failures ctx"
proof -
  let ?msg = "padded size_data len_offset (\<lambda>_. enc) msg"
  let ?ctx = "fold (accumulate size_digest size_data digest) enc (pad 0x80 ctx)"
  have a: "absorbed ?ctx h ?msg"
    using absorbed_update [OF conjunct1 [OF pad_absorbed [OF assms(1), of "0x80"]], of enc] by (simp add: padded_def)
  have "length ?msg = Suc (length msg + zeros size_data len_offset (length msg)) + (size_data - len_offset)"
    using assms(2) by (simp add: padded_def)
  then have "length ?msg mod size_data =
      (Suc (length msg + zeros size_data len_offset (length msg)) mod size_data + (size_data - len_offset)) mod size_data"
    by (simp add: mod_add_left_eq)
  also have "\<dots> = 0" unfolding zeros_least(1) [OF len_offset] using len_offset by simp
  finally have "unat (ctx_len ?ctx) mod size_data = 0"
    using a unat_len [of "length ?msg"] by (simp add: absorbed_def)
  then show ?thesis
    using a absorbed_update [OF conjunct1 [OF pad_absorbed [OF assms(1), of "0x80"]], of enc]
      conjunct2 [OF pad_absorbed [OF assms(1), of "0x80"]] by (simp add: absorbed_def)
qed

text \<open>Any number of updates, the padding and the length.\<close>

lemma updates_absorbed:
  "absorbed ctx h msg \<Longrightarrow>
   absorbed (fold (fold (accumulate size_digest size_data digest)) pieces ctx) h (msg @ concat pieces) \<and>
   digest_failures (fold (fold (accumulate size_digest size_data digest)) pieces ctx) = digest_failures ctx \<and>
   digest_context.more (fold (fold (accumulate size_digest size_data digest)) pieces ctx) = digest_context.more ctx"
proof (induction pieces arbitrary: ctx msg)
  case (Cons data pieces)
  show ?case
    using Cons.IH [OF conjunct1 [OF absorbed_update [OF Cons.prems, of data]]]
      conjunct2 [OF absorbed_update [OF Cons.prems, of data]] by simp
qed simp
end

section \<open>The interface of the digest algorithms\<close>

record 'c digest_algorithm =
  digest_name :: string
  blocksize :: nat
  digestsize :: nat
  digest_init :: "'c \<Rightarrow> 'c"
  digest_update :: "bytes \<Rightarrow> 'c \<Rightarrow> 'c"
  digest_final :: "'c \<Rightarrow> bytes \<times> 'c"

text \<open>
  The contract: on a context of the right size, initialising, updating any number of times and
  finalising gives the hash of everything that was passed, and the context may be used again.
\<close>

locale digest_contract =
  fixes alg :: "'c digest_algorithm" and valid :: "'c \<Rightarrow> bool" and hash :: "bytes \<Rightarrow> bytes"
  assumes final_hash: "valid ctx \<Longrightarrow> length (concat pieces) < 2 ^ 61 \<Longrightarrow>
      fst (digest_final alg (fold (digest_update alg) pieces (digest_init alg ctx))) = hash (concat pieces)"
    and final_valid: "valid ctx \<Longrightarrow> length (concat pieces) < 2 ^ 61 \<Longrightarrow>
      valid (snd (digest_final alg (fold (digest_update alg) pieces (digest_init alg ctx))))"
    and hash_length: "length (hash msg) = digestsize alg"
    and digestsize_le: "digestsize alg \<le> blocksize alg" "blocksize alg < 2 ^ 32"

text \<open>
  A padded digest with its methods keeps the contract.  \<open>out\<close> is the length of the result, which
  initialisation may record in the rest of the context.
\<close>

locale digest_methods = padded_digest size_digest size_data compress digest pad len_offset
  for size_digest size_data compress
    and digest :: "'a digest_context_scheme \<Rightarrow> 'a digest_context_scheme" and pad len_offset +
  fixes alg :: "'a digest_context_scheme digest_algorithm" and h0 :: bytes and enc :: "nat \<Rightarrow> bytes"
    and enc_len :: "u64 \<Rightarrow> bytes" and out :: "'a digest_context_scheme \<Rightarrow> nat"
  assumes init: "length (ddd ctx) = size_digest + size_data \<Longrightarrow>
      length (ddd (digest_init alg ctx)) = size_digest + size_data \<and> ctx_len (digest_init alg ctx) = 0 \<and>
      take size_digest (ddd (digest_init alg ctx)) = h0 \<and> out (digest_init alg ctx) = digestsize alg \<and>
      digest_failures (digest_init alg ctx) = digest_failures ctx"
    and out: "digest_context.more ctx = digest_context.more ctx' \<Longrightarrow> out ctx = out ctx'"
    and update: "digest_update alg = fold (accumulate size_digest size_data digest)"
    and final: "digest_final alg ctx =
      (let ctx' = fold (accumulate size_digest size_data digest) (enc_len (ctx_len ctx)) (pad 0x80 ctx);
           ctx' = digest_assert (unat (ctx_len ctx') mod size_data = 0) ctx'
       in (take (out ctx') (ddd ctx'), ctx'))"
    and enc: "n < 2 ^ 61 \<Longrightarrow> enc_len (of_nat n) = enc (8 * n)" "length (enc_len l) = size_data - len_offset"
      "length (enc n) = size_data - len_offset"
    and sizes: "digestsize alg \<le> size_digest" "size_digest \<le> size_data" "blocksize alg = size_data" "size_data < 2 ^ 32"
begin

definition hash :: "bytes \<Rightarrow> bytes" where
  "hash msg = take (digestsize alg) (iterate size_data compress h0 (padded size_data len_offset enc msg))"

lemma final_updates:
  assumes "length (ddd ctx) = size_digest + size_data" "length (concat pieces) < 2 ^ 61"
  shows "fst (digest_final alg (fold (digest_update alg) pieces (digest_init alg ctx))) = hash (concat pieces) \<and>
    length (ddd (snd (digest_final alg (fold (digest_update alg) pieces (digest_init alg ctx))))) = size_digest + size_data \<and>
    digest_failures (snd (digest_final alg (fold (digest_update alg) pieces (digest_init alg ctx)))) = digest_failures ctx"
proof -
  define ctx1 where "ctx1 = fold (digest_update alg) pieces (digest_init alg ctx)"
  have "absorbed (digest_init alg ctx) h0 []" using init [OF assms(1)] by (intro absorbed_init) simp_all
  note u = updates_absorbed [OF this, of pieces, folded update ctx1_def, simplified]
  define E where "E = enc (8 * length (concat pieces))"
  define ctx2 where "ctx2 = fold (accumulate size_digest size_data digest) (enc_len (ctx_len ctx1)) (pad 0x80 ctx1)"
  have e: "enc_len (ctx_len ctx1) = E" using u enc(1) [OF assms(2)] by (simp add: absorbed_def E_def)
  have p: "padded size_data len_offset (\<lambda>_. E) (concat pieces) = padded size_data len_offset enc (concat pieces)"
    by (simp add: padded_def E_def)
  have "absorbed ctx1 h0 (concat pieces)" "length E = size_data - len_offset" using u enc(3) by (simp_all add: E_def)
  note a = final_absorbed [OF this, unfolded p, folded e, folded ctx2_def]
  have "out ctx2 = out (digest_init alg ctx)" using a u by (intro out) simp
  then have "out ctx2 = digestsize alg" using init [OF assms(1)] by simp
  then have f': "digest_final alg ctx1 = (take (digestsize alg) (ddd ctx2), ctx2)"
    using a unfolding final [of ctx1] ctx2_def [symmetric] by (simp add: Let_def)
  have "take (digestsize alg) (ddd ctx2) = take (digestsize alg) (take size_digest (ddd ctx2))"
    using sizes(1) by (simp add: min_def)
  then show ?thesis
    using a u init [OF assms(1)] unfolding ctx1_def [symmetric] f' hash_def by simp
qed

lemma length_iterate: "length (iterate size_data compress h0 (padded size_data len_offset enc msg)) = size_digest"
proof -
  define ctx :: "'a digest_context_scheme" where
    "ctx = digest_init alg \<lparr>ctx_len = 0, ddd = replicate (size_digest + size_data) 0, digest_failures = 0, \<dots> = undefined\<rparr>"
  have "absorbed ctx h0 []" unfolding ctx_def by (rule absorbed_init) (use init in simp_all)
  then have "absorbed (fold (accumulate size_digest size_data digest) (padded size_data len_offset enc msg) ctx) h0
      (padded size_data len_offset enc msg)" using absorbed_update by fastforce
  then show ?thesis
    by (auto simp: absorbed_def dest!: arg_cong [where f = length])
qed

lemma length_hash: "length (hash msg) = digestsize alg"
  using sizes(1) by (simp add: hash_def length_iterate)
end

sublocale digest_methods \<subseteq> digest_contract alg "\<lambda>ctx. length (ddd ctx) = size_digest + size_data" hash
proof
  show "digestsize alg \<le> blocksize alg" "blocksize alg < 2 ^ 32" using sizes by simp_all
qed (use final_updates length_hash in blast)+
end
