(* ===== verification/Sha1.thy ===== *)
theory Sha1 imports Digest begin

text \<open>
  SHA-1, \<^verbatim>\<open>crypto/sha1.c\<close>, and its equivalence with the definition of FIPS 180-4: the message
  schedule as a recurrence, the rounds as a recurrence on the working variables, and the hash as
  the iterated compression of the padded message.
\<close>

unbundle bit_operations_syntax

section \<open>The code\<close>

record sha1_variables =
  sha1_a :: u32
  sha1_b :: u32
  sha1_c :: u32
  sha1_d :: u32
  sha1_e :: u32
  sha1_w :: "u32 list"

definition sha1_f_0_19 :: "sha1_variables \<Rightarrow> u32" where
  "sha1_f_0_19 v = (sha1_b v AND sha1_c v) OR (NOT (sha1_b v) AND sha1_d v)"
definition sha1_f_20_39_60_79 :: "sha1_variables \<Rightarrow> u32" where
  "sha1_f_20_39_60_79 v = sha1_b v XOR sha1_c v XOR sha1_d v"
definition sha1_f_40_59 :: "sha1_variables \<Rightarrow> u32" where
  "sha1_f_40_59 v = (sha1_b v AND sha1_c v) OR (sha1_b v AND sha1_d v) OR (sha1_c v AND sha1_d v)"

definition sha1_steps :: "((sha1_variables \<Rightarrow> u32) \<times> u32) list" where
  "sha1_steps =
     [(sha1_f_0_19, 0x5a827999), (sha1_f_20_39_60_79, 0x6ed9eba1), (sha1_f_40_59, 0x8f1bbcdc),
      (sha1_f_20_39_60_79, 0xca62c1d6)]"

definition sha1_init :: "'a digest_context_scheme \<Rightarrow> 'a digest_context_scheme" where
  "sha1_init ctx = ctx\<lparr>ddd := concat (map (be_bytes 4)
     [0x67452301 :: u32, 0xefcdab89, 0x98badcfe, 0x10325476, 0xc3d2e1f0]) @ drop 20 (ddd ctx), ctx_len := 0\<rparr>"

text \<open>The union of the digest and data with the variables.\<close>

definition sha1_load :: "u32 list \<Rightarrow> sha1_variables" where
  "sha1_load dwords =
     \<lparr>sha1_a = dwords ! 0, sha1_b = dwords ! 1, sha1_c = dwords ! 2, sha1_d = dwords ! 3, sha1_e = dwords ! 4,
      sha1_w = drop 5 dwords\<rparr>"

definition sha1_expand :: "nat \<Rightarrow> u32 list \<Rightarrow> u32 list" where
  "sha1_expand i w = w @ [rol32 (w ! (i - 3) XOR w ! (i - 8) XOR w ! (i - 14) XOR w ! (i - 16)) 1]"

definition sha1_round :: "nat \<Rightarrow> sha1_variables \<Rightarrow> sha1_variables" where
  "sha1_round i v =
     (let (step_f, k) = sha1_steps ! (i div 20);
          f = step_f v;
          temp = rol32 (sha1_a v) 5 + f + sha1_e v + k + sha1_w v ! i
      in v\<lparr>sha1_e := sha1_d v, sha1_d := sha1_c v, sha1_c := rol32 (sha1_b v) 30, sha1_b := sha1_a v,
           sha1_a := temp\<rparr>)"

definition sha1_digest :: "'a digest_context_scheme \<Rightarrow> 'a digest_context_scheme" where
  "sha1_digest ctx =
     (let ctx = digest_assert (unat (ctx_len ctx) mod 64 = 0) ctx;
          dwords = map be_word (group 4 (ddd ctx));
          v = sha1_load dwords;
          v = v\<lparr>sha1_w := fold sha1_expand [16..<80] (sha1_w v)\<rparr>;
          v = fold sha1_round [0..<80] v;
          h = map2 (+) (take 5 dwords) [sha1_a v, sha1_b v, sha1_c v, sha1_d v, sha1_e v]
      in ctx\<lparr>ddd := concat (map (be_bytes 4) h) @ concat (map (le_bytes 4) (drop 5 dwords))\<rparr>)"

definition sha1_update :: "bytes \<Rightarrow> 'a digest_context_scheme \<Rightarrow> 'a digest_context_scheme" where
  "sha1_update data ctx = fold (accumulate 20 64 sha1_digest) data ctx"

lemma sha1_digest_len: "ctx_len (sha1_digest ctx) = ctx_len ctx"
  by (simp add: sha1_digest_def Let_def)

function sha1_pad :: "u8 \<Rightarrow> 'a digest_context_scheme \<Rightarrow> 'a digest_context_scheme" where
  "sha1_pad pad ctx =
     (let ctx = sha1_update [pad] ctx
      in if unat (ctx_len ctx) mod 64 \<noteq> 56 then sha1_pad 0 ctx else ctx)"
  by pat_completeness auto

termination
  by (relation "measure (\<lambda>(pad, ctx). zeros 64 56 (unat (ctx_len ctx)))")
    (auto simp: sha1_update_def accumulate_def Let_def sha1_digest_len intro!: pad_decreases split: if_splits)

declare sha1_pad.simps [simp del]

definition sha1_final :: "'a digest_context_scheme \<Rightarrow> bytes \<times> 'a digest_context_scheme" where
  "sha1_final ctx =
     (let len_bits = be_bytes 8 (ctx_len ctx * 8);
          ctx = sha1_pad 0x80 ctx;
          ctx = sha1_update len_bits ctx;
          ctx = digest_assert (unat (ctx_len ctx) mod 64 = 0) ctx
      in (take 20 (ddd ctx), ctx))"

definition sha1_algorithm :: "'a digest_context_scheme digest_algorithm" where
  "sha1_algorithm = \<lparr>digest_name = ''sha1'', blocksize = 64, digestsize = 20,
     digest_init = sha1_init, digest_update = sha1_update, digest_final = sha1_final\<rparr>"

lemma sha1_algorithm_sel [simp]:
  "blocksize sha1_algorithm = 64" "digestsize sha1_algorithm = 20" "digest_init sha1_algorithm = sha1_init"
  "digest_update sha1_algorithm = sha1_update" "digest_final sha1_algorithm = sha1_final"
  by (simp_all add: sha1_algorithm_def)

section \<open>The standard\<close>

function sha1_W :: "u32 list \<Rightarrow> nat \<Rightarrow> u32" where
  "sha1_W M t =
     (if t < 16 then M ! t
      else rol32 (sha1_W M (t - 3) XOR sha1_W M (t - 8) XOR sha1_W M (t - 14) XOR sha1_W M (t - 16)) 1)"
  by pat_completeness auto
termination by (relation "measure snd") auto

declare sha1_W.simps [simp del]

definition sha1_ft :: "nat \<Rightarrow> u32 \<Rightarrow> u32 \<Rightarrow> u32 \<Rightarrow> u32" where
  "sha1_ft t = (if t < 20 then Ch else if t < 40 then Parity else if t < 60 then Maj else Parity)"
definition sha1_Kt :: "nat \<Rightarrow> u32" where
  "sha1_Kt t = (if t < 20 then 0x5a827999 else if t < 40 then 0x6ed9eba1
                else if t < 60 then 0x8f1bbcdc else 0xca62c1d6)"

primrec sha1_vars :: "u32 list \<Rightarrow> u32 list \<Rightarrow> nat \<Rightarrow> u32 \<times> u32 \<times> u32 \<times> u32 \<times> u32" where
  "sha1_vars H M 0 = (H ! 0, H ! 1, H ! 2, H ! 3, H ! 4)"
| "sha1_vars H M (Suc t) =
     (case sha1_vars H M t of (a, b, c, d, e) \<Rightarrow>
        (rol32 a 5 + sha1_ft t b c d + e + sha1_Kt t + sha1_W M t, a, rol32 b 30, c, d))"

definition sha1_block :: "u32 list \<Rightarrow> u32 list \<Rightarrow> u32 list" where
  "sha1_block H M =
     (case sha1_vars H M 80 of (a, b, c, d, e) \<Rightarrow> [H ! 0 + a, H ! 1 + b, H ! 2 + c, H ! 3 + d, H ! 4 + e])"

definition SHA_1_H0 :: "u32 list" where
  "SHA_1_H0 = [0x67452301, 0xefcdab89, 0x98badcfe, 0x10325476, 0xc3d2e1f0]"

definition SHA_1 :: "bytes \<Rightarrow> bytes" where
  "SHA_1 msg = iterate 64 (on_bytes be_word (be_bytes 4) 4 sha1_block) (concat (map (be_bytes 4) SHA_1_H0))
     (padded 64 56 (\<lambda>l. be_bytes 8 (of_nat l :: u64)) msg)"

section \<open>Equivalence\<close>

lemma sha1_expand_W:
  assumes "length M = 16" "16 \<le> n"
  shows "fold sha1_expand [16..<n] M = map (sha1_W M) [0..<n]"
  using assms(2)
proof (induction n rule: dec_induct)
  case base
  show ?case using assms(1) by (auto simp: list_eq_iff_nth_eq sha1_W.simps)
next
  case (step n)
  then show ?case by (simp add: sha1_expand_def sha1_W.simps [of M n] nth_append)
qed

lemma sha1_step:
  assumes "t < 80"
  shows "snd (sha1_steps ! (t div 20)) = sha1_Kt t"
    and "fst (sha1_steps ! (t div 20)) v = sha1_ft t (sha1_b v) (sha1_c v) (sha1_d v)"
proof -
  consider "t div 20 = 0" "t < 20" | "t div 20 = 1" "20 \<le> t" "t < 40" | "t div 20 = 2" "40 \<le> t" "t < 60"
    | "t div 20 = 3" "60 \<le> t" using assms by linarith
  then show "snd (sha1_steps ! (t div 20)) = sha1_Kt t"
    and "fst (sha1_steps ! (t div 20)) v = sha1_ft t (sha1_b v) (sha1_c v) (sha1_d v)"
    by (cases; simp add: sha1_steps_def sha1_Kt_def sha1_ft_def sha1_f_0_19_def sha1_f_20_39_60_79_def
        sha1_f_40_59_def Ch_or Maj_or Parity_def)+
qed

lemma sha1_rounds:
  assumes "\<forall>i<80. sha1_w v ! i = sha1_W M i" "n \<le> 80"
    "(sha1_a v, sha1_b v, sha1_c v, sha1_d v, sha1_e v) = sha1_vars H M 0"
  shows "sha1_w (fold sha1_round [0..<n] v) = sha1_w v \<and>
    (let v = fold sha1_round [0..<n] v in (sha1_a v, sha1_b v, sha1_c v, sha1_d v, sha1_e v)) = sha1_vars H M n"
  using assms(2)
proof (induction n)
  case (Suc n)
  define u where "u = fold sha1_round [0..<n] v"
  have u: "sha1_w u = sha1_w v" "sha1_vars H M n = (sha1_a u, sha1_b u, sha1_c u, sha1_d u, sha1_e u)"
    using Suc by (simp_all add: u_def Let_def)
  have f: "fold sha1_round [0..<Suc n] v = sha1_round n u" by (simp add: u_def)
  have "sha1_w v ! n = sha1_W M n" using assms(1) Suc.prems by simp
  then have "sha1_vars H M (Suc n) = (let v = sha1_round n u in (sha1_a v, sha1_b v, sha1_c v, sha1_d v, sha1_e v))"
    using u sha1_step [of n] Suc.prems by (simp add: sha1_round_def Let_def case_prod_beta)
  moreover have "sha1_w (sha1_round n u) = sha1_w v" using u(1) by (simp add: sha1_round_def Let_def case_prod_beta)
  ultimately show ?case unfolding f by (intro conjI) simp_all
qed (use assms(3) in \<open>simp add: Let_def\<close>)

definition sha1_code :: "u32 list \<Rightarrow> u32 list \<Rightarrow> u32 list" where
  "sha1_code H M =
     (let v = sha1_load (H @ M);
          v = v\<lparr>sha1_w := fold sha1_expand [16..<80] (sha1_w v)\<rparr>;
          v = fold sha1_round [0..<80] v
      in map2 (+) H [sha1_a v, sha1_b v, sha1_c v, sha1_d v, sha1_e v])"

lemma sha1_code_block:
  assumes "length H = 5" "length M = 16"
  shows "sha1_code H M = sha1_block H M"
proof -
  define n :: nat where "n = 80"
  obtain h0 h1 h2 h3 h4 where H: "H = [h0, h1, h2, h3, h4]"
    using assms(1) by (auto simp: numeral_eq_Suc length_Suc_conv)
  define v where "v = (sha1_load (H @ M))\<lparr>sha1_w := map (sha1_W M) [0..<n]\<rparr>"
  have w: "sha1_w v = map (sha1_W M) [0..<n]" by (simp add: v_def)
  have e: "(sha1_load (H @ M))\<lparr>sha1_w := fold sha1_expand [16..<n] (sha1_w (sha1_load (H @ M)))\<rparr> = v"
    using sha1_expand_W [OF assms(2), of n] by (simp add: v_def n_def sha1_load_def H)
  define u where "u = fold sha1_round [0..<n] v"
  have "sha1_vars H M n = (sha1_a u, sha1_b u, sha1_c u, sha1_d u, sha1_e u)"
    using sha1_rounds [of v M n H] w by (simp add: u_def n_def v_def sha1_load_def H Let_def)
  then show ?thesis
    unfolding sha1_code_def sha1_block_def Let_def n_def [symmetric] e u_def [symmetric] by (simp add: H)
qed

lemma sha1_padded:
  "padded_digest 20 64 (on_bytes be_word (be_bytes 4) 4 sha1_block)
     (sha1_digest :: 'a digest_context_scheme \<Rightarrow> 'a digest_context_scheme) sha1_pad 56"
proof -
  have "block_digest (4 * 5) (4 * 16) (on_bytes be_word (be_bytes 4) 4 sha1_block)
      (sha1_digest :: 'a digest_context_scheme \<Rightarrow> 'a digest_context_scheme)"
  proof (rule block_digest_on_words [where f = sha1_code])
    show "sha1_digest ctx =
      (let ctx = digest_assert (unat (ctx_len ctx) mod (4 * 16) = 0) ctx;
           ws = map be_word (group 4 (ddd ctx))
       in ctx\<lparr>ddd := concat (map (be_bytes 4) (sha1_code (take 5 ws) (drop 5 ws))) @ concat (map (le_bytes 4) (drop 5 ws))\<rparr>)"
      for ctx :: "'a digest_context_scheme"
      unfolding sha1_digest_def sha1_code_def Let_def append_take_drop_id by simp
  qed (simp_all add: sha1_code_block sha1_block_def case_prod_beta)
  moreover have "padded_digest_axioms 20 64 (sha1_digest :: 'a digest_context_scheme \<Rightarrow> 'a digest_context_scheme) sha1_pad 56"
  proof
    show "sha1_pad byte ctx =
      (let ctx = accumulate 20 64 sha1_digest byte ctx
       in if unat (ctx_len ctx) mod 64 \<noteq> 56 then sha1_pad 0 ctx else ctx)" for byte and ctx :: "'a digest_context_scheme"
      by (subst sha1_pad.simps) (simp add: sha1_update_def)
  qed simp
  ultimately show ?thesis by (simp add: padded_digest_def)
qed

interpretation sha1: digest_methods 20 64 "on_bytes be_word (be_bytes 4) 4 sha1_block" sha1_digest sha1_pad 56
  sha1_algorithm "concat (map (be_bytes 4) SHA_1_H0)"
  "\<lambda>l. be_bytes 8 (of_nat l :: u64)" "\<lambda>l. be_bytes 8 (l * 8)" "\<lambda>_. 20"
  by (intro digest_methods.intro sha1_padded digest_methods_axioms.intro)
    (simp_all add: sha1_init_def SHA_1_H0_def sha1_final_def sha1_update_def [abs_def] Let_def
      mult.commute)

lemma sha1_hash: "sha1.hash TYPE('a) msg = SHA_1 msg"
  unfolding sha1.hash_def SHA_1_def by (simp add: sha1.length_iterate)

text \<open>C34. SHA-1: initialising a context, adding data in any pieces and finalising gives the hash that
  FIPS 180-4 defines for the whole, and no assertion fails.\<close>

theorem sha1_correct:
  assumes "length (ddd ctx) = 84" "length (concat pieces) < 2 ^ 61"
  shows "fst (sha1_final (fold sha1_update pieces (sha1_init ctx))) = SHA_1 (concat pieces) \<and>
    digest_failures (snd (sha1_final (fold sha1_update pieces (sha1_init ctx)))) = digest_failures ctx"
  using sha1.final_updates [of ctx pieces] assms by (simp add: sha1_hash)

theorem sha1_correct_witness:
  "fst (sha1_final (fold sha1_update [[97], [98, 99]]
     (sha1_init \<lparr>ctx_len = 0, ddd = replicate 84 0, digest_failures = 0\<rparr>))) = SHA_1 [97, 98, 99]"
  using sha1_correct [of "\<lparr>ctx_len = 0, ddd = replicate 84 0, digest_failures = 0\<rparr>" "[[97], [98, 99]]"] by simp
end
