(* ===== verification/Sha256.thy ===== *)
theory Sha256 imports Digest begin

text \<open>
  The SHA-256 family, \<^verbatim>\<open>crypto/sha256.c\<close> and the variants that differ in the initial digest and the
  length of the result, and its equivalence with the definition of FIPS 180-4.
\<close>

unbundle bit_operations_syntax

section \<open>The code\<close>

record sha256_variables =
  sha256_a :: u32
  sha256_b :: u32
  sha256_c :: u32
  sha256_d :: u32
  sha256_e :: u32
  sha256_f :: u32
  sha256_g :: u32
  sha256_h :: u32
  sha256_w :: "u32 list"

definition sha256_k :: "u32 list" where
  "sha256_k = concat
     [[0x428a2f98, 0x71374491, 0xb5c0fbcf, 0xe9b5dba5, 0x3956c25b, 0x59f111f1],
      [0x923f82a4, 0xab1c5ed5, 0xd807aa98, 0x12835b01, 0x243185be, 0x550c7dc3],
      [0x72be5d74, 0x80deb1fe, 0x9bdc06a7, 0xc19bf174, 0xe49b69c1, 0xefbe4786],
      [0x0fc19dc6, 0x240ca1cc, 0x2de92c6f, 0x4a7484aa, 0x5cb0a9dc, 0x76f988da],
      [0x983e5152, 0xa831c66d, 0xb00327c8, 0xbf597fc7, 0xc6e00bf3, 0xd5a79147],
      [0x06ca6351, 0x14292967, 0x27b70a85, 0x2e1b2138, 0x4d2c6dfc, 0x53380d13],
      [0x650a7354, 0x766a0abb, 0x81c2c92e, 0x92722c85, 0xa2bfe8a1, 0xa81a664b],
      [0xc24b8b70, 0xc76c51a3, 0xd192e819, 0xd6990624, 0xf40e3585, 0x106aa070],
      [0x19a4c116, 0x1e376c08, 0x2748774c, 0x34b0bcb5, 0x391c0cb3, 0x4ed8aa4a],
      [0x5b9cca4f, 0x682e6ff3, 0x748f82ee, 0x78a5636f, 0x84c87814, 0x8cc70208],
      [0x90befffa, 0xa4506ceb, 0xbef9a3f7, 0xc67178f2]]"

definition sha256_init_digest :: "u32 list" where
  "sha256_init_digest =
     [0x6a09e667, 0xbb67ae85, 0x3c6ef372, 0xa54ff53a, 0x510e527f, 0x9b05688c, 0x1f83d9ab, 0x5be0cd19]"

definition sha224_init_digest :: "u32 list" where
  "sha224_init_digest =
     [0xc1059ed8, 0x367cd507, 0x3070dd17, 0xf70e5939, 0xffc00b31, 0x68581511, 0x64f98fa7, 0xbefa4fa4]"

definition sha256_family_init :: "u32 list \<Rightarrow> nat \<Rightarrow> 'a sized_context_scheme \<Rightarrow> 'a sized_context_scheme" where
  "sha256_family_init init dsize ctx =
     ctx\<lparr>ctx_len := 0, ctx_digestsize := dsize,
         ddd := concat (map (be_bytes 4) init) @ drop 32 (ddd ctx)\<rparr>"

definition sha256_init :: "'a sized_context_scheme \<Rightarrow> 'a sized_context_scheme" where
  "sha256_init = sha256_family_init sha256_init_digest 32"

definition sha224_init :: "'a sized_context_scheme \<Rightarrow> 'a sized_context_scheme" where
  "sha224_init = sha256_family_init sha224_init_digest 28"

definition sha256_load :: "u32 list \<Rightarrow> sha256_variables" where
  "sha256_load dwords =
     \<lparr>sha256_a = dwords ! 0, sha256_b = dwords ! 1, sha256_c = dwords ! 2, sha256_d = dwords ! 3,
      sha256_e = dwords ! 4, sha256_f = dwords ! 5, sha256_g = dwords ! 6, sha256_h = dwords ! 7,
      sha256_w = drop 8 dwords\<rparr>"

definition sha256_expand :: "nat \<Rightarrow> u32 list \<Rightarrow> u32 list" where
  "sha256_expand i w =
     (let s0 = ror32 (w ! (i - 15)) 7 XOR ror32 (w ! (i - 15)) 18 XOR drop_bit 3 (w ! (i - 15));
          s1 = ror32 (w ! (i - 2)) 17 XOR ror32 (w ! (i - 2)) 19 XOR drop_bit 10 (w ! (i - 2))
      in w @ [w ! (i - 16) + s0 + w ! (i - 7) + s1])"

definition sha256_round :: "nat \<Rightarrow> sha256_variables \<Rightarrow> sha256_variables" where
  "sha256_round i v =
     (let s0 = ror32 (sha256_a v) 2 XOR ror32 (sha256_a v) 13 XOR ror32 (sha256_a v) 22;
          maj = (sha256_a v AND sha256_b v) XOR (sha256_a v AND sha256_c v) XOR (sha256_b v AND sha256_c v);
          t2 = s0 + maj;
          s1 = ror32 (sha256_e v) 6 XOR ror32 (sha256_e v) 11 XOR ror32 (sha256_e v) 25;
          ch = (sha256_e v AND sha256_f v) XOR (NOT (sha256_e v) AND sha256_g v);
          t1 = sha256_h v + s1 + ch + sha256_k ! i + sha256_w v ! i
      in v\<lparr>sha256_h := sha256_g v, sha256_g := sha256_f v, sha256_f := sha256_e v, sha256_e := sha256_d v + t1,
           sha256_d := sha256_c v, sha256_c := sha256_b v, sha256_b := sha256_a v, sha256_a := t1 + t2\<rparr>)"

definition sha256_digest :: "'a digest_context_scheme \<Rightarrow> 'a digest_context_scheme" where
  "sha256_digest ctx =
     (let ctx = digest_assert (unat (ctx_len ctx) mod 64 = 0) ctx;
          dwords = map be_word (group 4 (ddd ctx));
          v = sha256_load dwords;
          v = v\<lparr>sha256_w := fold sha256_expand [16..<64] (sha256_w v)\<rparr>;
          v = fold sha256_round [0..<64] v;
          h = map2 (+) (take 8 dwords)
                [sha256_a v, sha256_b v, sha256_c v, sha256_d v, sha256_e v, sha256_f v, sha256_g v, sha256_h v]
      in ctx\<lparr>ddd := concat (map (be_bytes 4) h) @ concat (map (le_bytes 4) (drop 8 dwords))\<rparr>)"

definition sha256_update :: "bytes \<Rightarrow> 'a digest_context_scheme \<Rightarrow> 'a digest_context_scheme" where
  "sha256_update data ctx = fold (accumulate 32 64 sha256_digest) data ctx"

lemma sha256_digest_len: "ctx_len (sha256_digest ctx) = ctx_len ctx"
  by (simp add: sha256_digest_def Let_def)

function sha256_pad :: "u8 \<Rightarrow> 'a digest_context_scheme \<Rightarrow> 'a digest_context_scheme" where
  "sha256_pad pad ctx =
     (let ctx = sha256_update [pad] ctx
      in if unat (ctx_len ctx) mod 64 \<noteq> 56 then sha256_pad 0 ctx else ctx)"
  by pat_completeness auto

termination
  by (relation "measure (\<lambda>(pad, ctx). zeros 64 56 (unat (ctx_len ctx)))")
    (auto simp: sha256_update_def accumulate_def Let_def sha256_digest_len intro!: pad_decreases split: if_splits)

declare sha256_pad.simps [simp del]

definition sha256_final :: "'a sized_context_scheme \<Rightarrow> bytes \<times> 'a sized_context_scheme" where
  "sha256_final ctx =
     (let len_bits = be_bytes 8 (ctx_len ctx * 8);
          ctx = sha256_pad 0x80 ctx;
          ctx = sha256_update len_bits ctx;
          ctx = digest_assert (unat (ctx_len ctx) mod 64 = 0) ctx
      in (take (ctx_digestsize ctx) (ddd ctx), ctx))"

definition sha256_algorithm :: "'a sized_context_scheme digest_algorithm" where
  "sha256_algorithm = \<lparr>digest_name = ''sha256'', blocksize = 64, digestsize = 32,
     digest_init = sha256_init, digest_update = sha256_update, digest_final = sha256_final\<rparr>"

definition sha224_algorithm :: "'a sized_context_scheme digest_algorithm" where
  "sha224_algorithm = \<lparr>digest_name = ''sha224'', blocksize = 64, digestsize = 28,
     digest_init = sha224_init, digest_update = sha256_update, digest_final = sha256_final\<rparr>"

lemma sha256_algorithms_sel [simp]:
  "blocksize sha256_algorithm = 64" "digestsize sha256_algorithm = 32" "digest_init sha256_algorithm = sha256_init"
  "digest_update sha256_algorithm = sha256_update" "digest_final sha256_algorithm = sha256_final"
  "blocksize sha224_algorithm = 64" "digestsize sha224_algorithm = 28" "digest_init sha224_algorithm = sha224_init"
  "digest_update sha224_algorithm = sha256_update" "digest_final sha224_algorithm = sha256_final"
  by (simp_all add: sha256_algorithm_def sha224_algorithm_def)

section \<open>The standard\<close>

text \<open>The functions of the standard; the constants are its tables, which the code has as well.\<close>

definition Sigma256_0 :: "u32 \<Rightarrow> u32" where
  "Sigma256_0 x = ror32 x 2 XOR ror32 x 13 XOR ror32 x 22"
definition Sigma256_1 :: "u32 \<Rightarrow> u32" where
  "Sigma256_1 x = ror32 x 6 XOR ror32 x 11 XOR ror32 x 25"
definition sigma256_0 :: "u32 \<Rightarrow> u32" where
  "sigma256_0 x = ror32 x 7 XOR ror32 x 18 XOR drop_bit 3 x"
definition sigma256_1 :: "u32 \<Rightarrow> u32" where
  "sigma256_1 x = ror32 x 17 XOR ror32 x 19 XOR drop_bit 10 x"

function sha256_W :: "u32 list \<Rightarrow> nat \<Rightarrow> u32" where
  "sha256_W M t =
     (if t < 16 then M ! t
      else sigma256_1 (sha256_W M (t - 2)) + sha256_W M (t - 7) + sigma256_0 (sha256_W M (t - 15)) + sha256_W M (t - 16))"
  by pat_completeness auto
termination by (relation "measure snd") auto

declare sha256_W.simps [simp del]

primrec sha256_vars ::
  "u32 list \<Rightarrow> u32 list \<Rightarrow> nat \<Rightarrow> u32 \<times> u32 \<times> u32 \<times> u32 \<times> u32 \<times> u32 \<times> u32 \<times> u32" where
  "sha256_vars H M 0 = (H ! 0, H ! 1, H ! 2, H ! 3, H ! 4, H ! 5, H ! 6, H ! 7)"
| "sha256_vars H M (Suc t) =
     (case sha256_vars H M t of (a, b, c, d, e, f, g, h) \<Rightarrow>
        let T1 = h + Sigma256_1 e + Ch e f g + sha256_k ! t + sha256_W M t;
            T2 = Sigma256_0 a + Maj a b c
        in (T1 + T2, a, b, c, d + T1, e, f, g))"

definition sha256_block :: "u32 list \<Rightarrow> u32 list \<Rightarrow> u32 list" where
  "sha256_block H M =
     (case sha256_vars H M 64 of (a, b, c, d, e, f, g, h) \<Rightarrow>
        [H ! 0 + a, H ! 1 + b, H ! 2 + c, H ! 3 + d, H ! 4 + e, H ! 5 + f, H ! 6 + g, H ! 7 + h])"

text \<open>The members of the family: an initial digest and a number of bytes of the result.\<close>

definition SHA_256_family :: "u32 list \<Rightarrow> nat \<Rightarrow> bytes \<Rightarrow> bytes" where
  "SHA_256_family H0 n msg =
     take n (iterate 64 (on_bytes be_word (be_bytes 4) 4 sha256_block) (concat (map (be_bytes 4) H0))
       (padded 64 56 (\<lambda>l. be_bytes 8 (of_nat l :: 64 word)) msg))"

section \<open>Equivalence\<close>

lemma sha256_expand_W:
  assumes "length M = 16" "16 \<le> n"
  shows "fold sha256_expand [16..<n] M = map (sha256_W M) [0..<n]"
  using assms(2)
proof (induction n rule: dec_induct)
  case base
  show ?case using assms(1) by (auto simp: list_eq_iff_nth_eq sha256_W.simps)
next
  case (step n)
  then show ?case
    by (simp add: sha256_expand_def sha256_W.simps [of M n] nth_append sigma256_0_def sigma256_1_def algebra_simps)
qed

abbreviation sha256_working :: "sha256_variables \<Rightarrow> u32 \<times> u32 \<times> u32 \<times> u32 \<times> u32 \<times> u32 \<times> u32 \<times> u32" where
  "sha256_working v \<equiv>
     (sha256_a v, sha256_b v, sha256_c v, sha256_d v, sha256_e v, sha256_f v, sha256_g v, sha256_h v)"

lemma sha256_rounds:
  assumes "\<forall>i<64. sha256_w v ! i = sha256_W M i" "n \<le> 64" "sha256_working v = sha256_vars H M 0"
  shows "sha256_w (fold sha256_round [0..<n] v) = sha256_w v \<and>
    sha256_working (fold sha256_round [0..<n] v) = sha256_vars H M n"
  using assms(2)
proof (induction n)
  case (Suc n)
  define u where "u = fold sha256_round [0..<n] v"
  have u: "sha256_w u = sha256_w v" "sha256_vars H M n = sha256_working u"
    using Suc by (simp_all add: u_def)
  have f: "fold sha256_round [0..<Suc n] v = sha256_round n u" by (simp add: u_def)
  have "sha256_w v ! n = sha256_W M n" using assms(1) Suc.prems by simp
  then have "sha256_vars H M (Suc n) = sha256_working (sha256_round n u)"
    using u by (simp add: sha256_round_def Let_def Sigma256_0_def Sigma256_1_def Ch_def Maj_def)
  moreover have "sha256_w (sha256_round n u) = sha256_w v" using u(1) by (simp add: sha256_round_def Let_def)
  ultimately show ?case unfolding f by (intro conjI) simp_all
qed (use assms(3) in simp)

definition sha256_code :: "u32 list \<Rightarrow> u32 list \<Rightarrow> u32 list" where
  "sha256_code H M =
     (let v = sha256_load (H @ M);
          v = v\<lparr>sha256_w := fold sha256_expand [16..<64] (sha256_w v)\<rparr>;
          v = fold sha256_round [0..<64] v
      in map2 (+) H [sha256_a v, sha256_b v, sha256_c v, sha256_d v, sha256_e v, sha256_f v, sha256_g v, sha256_h v])"

lemma sha256_code_block:
  assumes "length H = 8" "length M = 16"
  shows "sha256_code H M = sha256_block H M"
proof -
  define n :: nat where "n = 64"
  obtain h0 h1 h2 h3 h4 h5 h6 h7 where H: "H = [h0, h1, h2, h3, h4, h5, h6, h7]"
    using assms(1) by (auto simp: numeral_eq_Suc length_Suc_conv)
  define v where "v = (sha256_load (H @ M))\<lparr>sha256_w := map (sha256_W M) [0..<n]\<rparr>"
  have w: "sha256_w v = map (sha256_W M) [0..<n]" by (simp add: v_def)
  have e: "(sha256_load (H @ M))\<lparr>sha256_w := fold sha256_expand [16..<n] (sha256_w (sha256_load (H @ M)))\<rparr> = v"
    using sha256_expand_W [OF assms(2), of n] by (simp add: v_def n_def sha256_load_def H)
  define u where "u = fold sha256_round [0..<n] v"
  have "sha256_working v = sha256_vars H M 0" by (simp add: v_def sha256_load_def H)
  then have "sha256_vars H M n = sha256_working u"
    using sha256_rounds [of v M n H] w by (simp add: u_def n_def)
  then show ?thesis
    unfolding sha256_code_def sha256_block_def Let_def n_def [symmetric] e u_def [symmetric] by (simp add: H)
qed

lemma sha256_padded:
  "padded_digest 32 64 (on_bytes be_word (be_bytes 4) 4 sha256_block)
     (sha256_digest :: 'a digest_context_scheme \<Rightarrow> 'a digest_context_scheme) sha256_pad 56"
proof -
  have "block_digest (4 * 8) (4 * 16) (on_bytes be_word (be_bytes 4) 4 sha256_block)
      (sha256_digest :: 'a digest_context_scheme \<Rightarrow> 'a digest_context_scheme)"
  proof (rule block_digest_on_words [where f = sha256_code])
    show "sha256_digest ctx =
      (let ctx = digest_assert (unat (ctx_len ctx) mod (4 * 16) = 0) ctx;
           ws = map be_word (group 4 (ddd ctx))
       in ctx\<lparr>ddd := concat (map (be_bytes 4) (sha256_code (take 8 ws) (drop 8 ws))) @ concat (map (le_bytes 4) (drop 8 ws))\<rparr>)"
      for ctx :: "'a digest_context_scheme"
      unfolding sha256_digest_def sha256_code_def Let_def append_take_drop_id by simp
  qed (simp_all add: sha256_code_block sha256_block_def case_prod_beta)
  moreover have "padded_digest_axioms 32 64 (sha256_digest :: 'a digest_context_scheme \<Rightarrow> 'a digest_context_scheme) sha256_pad 56"
  proof
    show "sha256_pad byte ctx =
      (let ctx = accumulate 32 64 sha256_digest byte ctx
       in if unat (ctx_len ctx) mod 64 \<noteq> 56 then sha256_pad 0 ctx else ctx)" for byte and ctx :: "'a digest_context_scheme"
      by (subst sha256_pad.simps) (simp add: sha256_update_def)
  qed simp
  ultimately show ?thesis by (simp add: padded_digest_def)
qed

lemma length_sha256_init_digests:
  "length sha256_init_digest = 8" "length sha224_init_digest = 8"
  by (simp_all add: sha256_init_digest_def sha224_init_digest_def)

lemma sha256_methods:
  assumes "length H0 = 8" "dsize \<le> 32" "digest_init alg = sha256_family_init H0 dsize"
    "digest_update alg = sha256_update" "digest_final alg = sha256_final" "blocksize alg = 64" "digestsize alg = dsize"
  shows "digest_methods 32 64 (on_bytes be_word (be_bytes 4) 4 sha256_block) sha256_digest sha256_pad 56
    (alg :: 'a sized_context_scheme digest_algorithm) (concat (map (be_bytes 4) H0))
    (\<lambda>l. be_bytes 8 (of_nat l :: 64 word)) (\<lambda>l. be_bytes 8 (l * 8)) ctx_digestsize"
proof (intro digest_methods.intro sha256_padded digest_methods_axioms.intro)
  have h: "length (concat (map (be_bytes 4) H0)) = 32" using assms(1) by (simp add: length_concat_map [of _ 4])
  show "length (ddd (digest_init alg ctx)) = 32 + 64 \<and> ctx_len (digest_init alg ctx) = 0 \<and>
      take 32 (ddd (digest_init alg ctx)) = concat (map (be_bytes 4) H0) \<and>
      ctx_digestsize (digest_init alg ctx) = digestsize alg \<and> digest_failures (digest_init alg ctx) = digest_failures ctx"
    if "length (ddd ctx) = 32 + 64" for ctx
    using that h by (simp add: assms sha256_family_init_def)
  show "ctx_digestsize ctx = ctx_digestsize ctx'" if "digest_context.more ctx = digest_context.more ctx'"
    for ctx ctx' :: "'a sized_context_scheme"
    using that by (cases ctx; cases ctx') simp
  show "digest_final alg ctx =
      (let ctx' = fold (accumulate 32 64 sha256_digest) (be_bytes 8 (ctx_len ctx * 8)) (sha256_pad 0x80 ctx);
           ctx' = digest_assert (unat (ctx_len ctx') mod 64 = 0) ctx'
       in (take (ctx_digestsize ctx') (ddd ctx'), ctx'))" for ctx :: "'a sized_context_scheme"
    by (simp add: assms sha256_final_def sha256_update_def Let_def)
qed (simp_all add: assms fun_eq_iff sha256_update_def mult.commute)

interpretation sha256: digest_methods 32 64 "on_bytes be_word (be_bytes 4) 4 sha256_block" sha256_digest sha256_pad 56
  sha256_algorithm "concat (map (be_bytes 4) sha256_init_digest)"
  "\<lambda>l. be_bytes 8 (of_nat l :: 64 word)" "\<lambda>l. be_bytes 8 (l * 8)" ctx_digestsize
  by (rule sha256_methods) (simp_all add: length_sha256_init_digests sha256_init_def)

interpretation sha224: digest_methods 32 64 "on_bytes be_word (be_bytes 4) 4 sha256_block" sha256_digest sha256_pad 56
  sha224_algorithm "concat (map (be_bytes 4) sha224_init_digest)"
  "\<lambda>l. be_bytes 8 (of_nat l :: 64 word)" "\<lambda>l. be_bytes 8 (l * 8)" ctx_digestsize
  by (rule sha256_methods) (simp_all add: length_sha256_init_digests sha224_init_def)

lemma sha256_hashes:
  "sha256.hash TYPE('a) = SHA_256_family sha256_init_digest 32"
  "sha224.hash TYPE('a) = SHA_256_family sha224_init_digest 28"
  by (simp_all add: fun_eq_iff SHA_256_family_def sha256.hash_def sha224.hash_def)

text \<open>The constants are those of the standard.\<close>

lemma sha256_constants:
  "list_all2 (\<lambda>p k. root_fraction 3 32 p (unat k)) (take 64 first_primes) sha256_k"
  "list_all2 (\<lambda>p h. root_fraction 2 32 p (unat h)) (take 8 first_primes) sha256_init_digest"
  by (simp_all add: first_primes_def sha256_k_def sha256_init_digest_def root_fraction_def small_root_def)


end
