(* ===== verification/Sha512.thy ===== *)
theory Sha512 imports Digest begin

text \<open>
  The SHA-512 family, \<^verbatim>\<open>crypto/sha512.c\<close> and the variants that differ in the initial digest and the
  length of the result, and its equivalence with the definition of FIPS 180-4.
\<close>

unbundle bit_operations_syntax

section \<open>The code\<close>

record sha512_variables =
  sha512_a :: u64
  sha512_b :: u64
  sha512_c :: u64
  sha512_d :: u64
  sha512_e :: u64
  sha512_f :: u64
  sha512_g :: u64
  sha512_h :: u64
  sha512_w :: "u64 list"

definition sha512_k :: "u64 list" where
  "sha512_k = concat
     [[0x428a2f98d728ae22, 0x7137449123ef65cd, 0xb5c0fbcfec4d3b2f],
      [0xe9b5dba58189dbbc, 0x3956c25bf348b538, 0x59f111f1b605d019],
      [0x923f82a4af194f9b, 0xab1c5ed5da6d8118, 0xd807aa98a3030242],
      [0x12835b0145706fbe, 0x243185be4ee4b28c, 0x550c7dc3d5ffb4e2],
      [0x72be5d74f27b896f, 0x80deb1fe3b1696b1, 0x9bdc06a725c71235],
      [0xc19bf174cf692694, 0xe49b69c19ef14ad2, 0xefbe4786384f25e3],
      [0x0fc19dc68b8cd5b5, 0x240ca1cc77ac9c65, 0x2de92c6f592b0275],
      [0x4a7484aa6ea6e483, 0x5cb0a9dcbd41fbd4, 0x76f988da831153b5],
      [0x983e5152ee66dfab, 0xa831c66d2db43210, 0xb00327c898fb213f],
      [0xbf597fc7beef0ee4, 0xc6e00bf33da88fc2, 0xd5a79147930aa725],
      [0x06ca6351e003826f, 0x142929670a0e6e70, 0x27b70a8546d22ffc],
      [0x2e1b21385c26c926, 0x4d2c6dfc5ac42aed, 0x53380d139d95b3df],
      [0x650a73548baf63de, 0x766a0abb3c77b2a8, 0x81c2c92e47edaee6],
      [0x92722c851482353b, 0xa2bfe8a14cf10364, 0xa81a664bbc423001],
      [0xc24b8b70d0f89791, 0xc76c51a30654be30, 0xd192e819d6ef5218],
      [0xd69906245565a910, 0xf40e35855771202a, 0x106aa07032bbd1b8],
      [0x19a4c116b8d2d0c8, 0x1e376c085141ab53, 0x2748774cdf8eeb99],
      [0x34b0bcb5e19b48a8, 0x391c0cb3c5c95a63, 0x4ed8aa4ae3418acb],
      [0x5b9cca4f7763e373, 0x682e6ff3d6b2b8a3, 0x748f82ee5defb2fc],
      [0x78a5636f43172f60, 0x84c87814a1f0ab72, 0x8cc702081a6439ec],
      [0x90befffa23631e28, 0xa4506cebde82bde9, 0xbef9a3f7b2c67915],
      [0xc67178f2e372532b, 0xca273eceea26619c, 0xd186b8c721c0c207],
      [0xeada7dd6cde0eb1e, 0xf57d4f7fee6ed178, 0x06f067aa72176fba],
      [0x0a637dc5a2c898a6, 0x113f9804bef90dae, 0x1b710b35131c471b],
      [0x28db77f523047d84, 0x32caab7b40c72493, 0x3c9ebe0a15c9bebc],
      [0x431d67c49c100d4c, 0x4cc5d4becb3e42b6, 0x597f299cfc657e2a],
      [0x5fcb6fab3ad6faec, 0x6c44198c4a475817]]"

definition sha512_init_digest :: "u64 list" where
  "sha512_init_digest =
     [0x6a09e667f3bcc908, 0xbb67ae8584caa73b, 0x3c6ef372fe94f82b, 0xa54ff53a5f1d36f1,
      0x510e527fade682d1, 0x9b05688c2b3e6c1f, 0x1f83d9abfb41bd6b, 0x5be0cd19137e2179]"

definition sha384_init_digest :: "u64 list" where
  "sha384_init_digest =
     [0xcbbb9d5dc1059ed8, 0x629a292a367cd507, 0x9159015a3070dd17, 0x152fecd8f70e5939,
      0x67332667ffc00b31, 0x8eb44a8768581511, 0xdb0c2e0d64f98fa7, 0x47b5481dbefa4fa4]"

definition sha512_256_init_digest :: "u64 list" where
  "sha512_256_init_digest =
     [0x22312194fc2bf72c, 0x9f555fa3c84c64c2, 0x2393b86b6f53b151, 0x963877195940eabd,
      0x96283ee2a88effe3, 0xbe5e1e2553863992, 0x2b0199fc2c85b8aa, 0x0eb72ddc81c52ca2]"

definition sha512_224_init_digest :: "u64 list" where
  "sha512_224_init_digest =
     [0x8c3d37c819544da2, 0x73e1996689dcd4d6, 0x1dfab7ae32ff9c82, 0x679dd514582f9fcf,
      0x0f6d2b697bd44da8, 0x77e36f7304c48942, 0x3f9d85a86a1d36c8, 0x1112e6ad91d692a1]"

definition sha512_family_init :: "u64 list \<Rightarrow> nat \<Rightarrow> 'a sized_context_scheme \<Rightarrow> 'a sized_context_scheme" where
  "sha512_family_init init dsize ctx =
     ctx\<lparr>ctx_len := 0, ctx_digestsize := dsize,
         ddd := concat (map (be_bytes 8) init) @ drop 64 (ddd ctx)\<rparr>"

definition sha512_init :: "'a sized_context_scheme \<Rightarrow> 'a sized_context_scheme" where
  "sha512_init = sha512_family_init sha512_init_digest 64"

definition sha384_init :: "'a sized_context_scheme \<Rightarrow> 'a sized_context_scheme" where
  "sha384_init = sha512_family_init sha384_init_digest 48"

definition sha512_256_init :: "'a sized_context_scheme \<Rightarrow> 'a sized_context_scheme" where
  "sha512_256_init = sha512_family_init sha512_256_init_digest 32"

definition sha512_224_init :: "'a sized_context_scheme \<Rightarrow> 'a sized_context_scheme" where
  "sha512_224_init = sha512_family_init sha512_224_init_digest 28"

definition sha512_load :: "u64 list \<Rightarrow> sha512_variables" where
  "sha512_load dwords =
     \<lparr>sha512_a = dwords ! 0, sha512_b = dwords ! 1, sha512_c = dwords ! 2, sha512_d = dwords ! 3,
      sha512_e = dwords ! 4, sha512_f = dwords ! 5, sha512_g = dwords ! 6, sha512_h = dwords ! 7,
      sha512_w = drop 8 dwords\<rparr>"

definition sha512_expand :: "nat \<Rightarrow> u64 list \<Rightarrow> u64 list" where
  "sha512_expand i w =
     (let s0 = ror64 (w ! (i - 15)) 1 XOR ror64 (w ! (i - 15)) 8 XOR drop_bit 7 (w ! (i - 15));
          s1 = ror64 (w ! (i - 2)) 19 XOR ror64 (w ! (i - 2)) 61 XOR drop_bit 6 (w ! (i - 2))
      in w @ [w ! (i - 16) + s0 + w ! (i - 7) + s1])"

definition sha512_round :: "nat \<Rightarrow> sha512_variables \<Rightarrow> sha512_variables" where
  "sha512_round i v =
     (let s0 = ror64 (sha512_a v) 28 XOR ror64 (sha512_a v) 34 XOR ror64 (sha512_a v) 39;
          maj = (sha512_a v AND sha512_b v) XOR (sha512_a v AND sha512_c v) XOR (sha512_b v AND sha512_c v);
          t2 = s0 + maj;
          s1 = ror64 (sha512_e v) 14 XOR ror64 (sha512_e v) 18 XOR ror64 (sha512_e v) 41;
          ch = (sha512_e v AND sha512_f v) XOR (NOT (sha512_e v) AND sha512_g v);
          t1 = sha512_h v + s1 + ch + sha512_k ! i + sha512_w v ! i
      in v\<lparr>sha512_h := sha512_g v, sha512_g := sha512_f v, sha512_f := sha512_e v, sha512_e := sha512_d v + t1,
           sha512_d := sha512_c v, sha512_c := sha512_b v, sha512_b := sha512_a v, sha512_a := t1 + t2\<rparr>)"

definition sha512_digest :: "'a digest_context_scheme \<Rightarrow> 'a digest_context_scheme" where
  "sha512_digest ctx =
     (let ctx = digest_assert (unat (ctx_len ctx) mod 128 = 0) ctx;
          dwords = map be_word (group 8 (ddd ctx));
          v = sha512_load dwords;
          v = v\<lparr>sha512_w := fold sha512_expand [16..<80] (sha512_w v)\<rparr>;
          v = fold sha512_round [0..<80] v;
          h = map2 (+) (take 8 dwords)
                [sha512_a v, sha512_b v, sha512_c v, sha512_d v, sha512_e v, sha512_f v, sha512_g v, sha512_h v]
      in ctx\<lparr>ddd := concat (map (be_bytes 8) h) @ concat (map (le_bytes 8) (drop 8 dwords))\<rparr>)"

definition sha512_update :: "bytes \<Rightarrow> 'a digest_context_scheme \<Rightarrow> 'a digest_context_scheme" where
  "sha512_update data ctx = fold (accumulate 64 128 sha512_digest) data ctx"

lemma sha512_digest_len: "ctx_len (sha512_digest ctx) = ctx_len ctx"
  by (simp add: sha512_digest_def Let_def)

function sha512_pad :: "u8 \<Rightarrow> 'a digest_context_scheme \<Rightarrow> 'a digest_context_scheme" where
  "sha512_pad pad ctx =
     (let ctx = sha512_update [pad] ctx
      in if unat (ctx_len ctx) mod 128 \<noteq> 112 then sha512_pad 0 ctx else ctx)"
  by pat_completeness auto

termination
  by (relation "measure (\<lambda>(pad, ctx). zeros 128 112 (unat (ctx_len ctx)))")
    (auto simp: sha512_update_def accumulate_def Let_def sha512_digest_len intro!: pad_decreases split: if_splits)

declare sha512_pad.simps [simp del]

definition sha512_final :: "'a sized_context_scheme \<Rightarrow> bytes \<times> 'a sized_context_scheme" where
  "sha512_final ctx =
     (let len_bits_hi = be_bytes 8 (0 :: u64);
          len_bits_lo = be_bytes 8 (ctx_len ctx * 8);
          ctx = sha512_pad 0x80 ctx;
          ctx = sha512_update len_bits_hi ctx;
          ctx = sha512_update len_bits_lo ctx;
          ctx = digest_assert (unat (ctx_len ctx) mod 128 = 0) ctx
      in (take (ctx_digestsize ctx) (ddd ctx), ctx))"

definition sha512_algorithm :: "'a sized_context_scheme digest_algorithm" where
  "sha512_algorithm = \<lparr>digest_name = ''sha512'', blocksize = 128, digestsize = 64,
     digest_init = sha512_init, digest_update = sha512_update, digest_final = sha512_final\<rparr>"

definition sha384_algorithm :: "'a sized_context_scheme digest_algorithm" where
  "sha384_algorithm = \<lparr>digest_name = ''sha384'', blocksize = 128, digestsize = 48,
     digest_init = sha384_init, digest_update = sha512_update, digest_final = sha512_final\<rparr>"

definition sha512_256_algorithm :: "'a sized_context_scheme digest_algorithm" where
  "sha512_256_algorithm = \<lparr>digest_name = ''sha512/256'', blocksize = 128, digestsize = 32,
     digest_init = sha512_256_init, digest_update = sha512_update, digest_final = sha512_final\<rparr>"

definition sha512_224_algorithm :: "'a sized_context_scheme digest_algorithm" where
  "sha512_224_algorithm = \<lparr>digest_name = ''sha512/224'', blocksize = 128, digestsize = 28,
     digest_init = sha512_224_init, digest_update = sha512_update, digest_final = sha512_final\<rparr>"

lemma sha512_algorithms_sel [simp]:
  "blocksize sha512_algorithm = 128" "digestsize sha512_algorithm = 64" "digest_init sha512_algorithm = sha512_init"
  "digest_update sha512_algorithm = sha512_update" "digest_final sha512_algorithm = sha512_final"
  "blocksize sha384_algorithm = 128" "digestsize sha384_algorithm = 48" "digest_init sha384_algorithm = sha384_init"
  "digest_update sha384_algorithm = sha512_update" "digest_final sha384_algorithm = sha512_final"
  "blocksize sha512_256_algorithm = 128" "digestsize sha512_256_algorithm = 32" "digest_init sha512_256_algorithm = sha512_256_init"
  "digest_update sha512_256_algorithm = sha512_update" "digest_final sha512_256_algorithm = sha512_final"
  "blocksize sha512_224_algorithm = 128" "digestsize sha512_224_algorithm = 28" "digest_init sha512_224_algorithm = sha512_224_init"
  "digest_update sha512_224_algorithm = sha512_update" "digest_final sha512_224_algorithm = sha512_final"
  by (simp_all add: sha512_algorithm_def sha384_algorithm_def sha512_256_algorithm_def sha512_224_algorithm_def)

section \<open>The standard\<close>

text \<open>The functions of the standard; the constants are its tables, which the code has as well.\<close>

definition Sigma512_0 :: "u64 \<Rightarrow> u64" where
  "Sigma512_0 x = ror64 x 28 XOR ror64 x 34 XOR ror64 x 39"
definition Sigma512_1 :: "u64 \<Rightarrow> u64" where
  "Sigma512_1 x = ror64 x 14 XOR ror64 x 18 XOR ror64 x 41"
definition sigma512_0 :: "u64 \<Rightarrow> u64" where
  "sigma512_0 x = ror64 x 1 XOR ror64 x 8 XOR drop_bit 7 x"
definition sigma512_1 :: "u64 \<Rightarrow> u64" where
  "sigma512_1 x = ror64 x 19 XOR ror64 x 61 XOR drop_bit 6 x"

function sha512_W :: "u64 list \<Rightarrow> nat \<Rightarrow> u64" where
  "sha512_W M t =
     (if t < 16 then M ! t
      else sigma512_1 (sha512_W M (t - 2)) + sha512_W M (t - 7) + sigma512_0 (sha512_W M (t - 15)) + sha512_W M (t - 16))"
  by pat_completeness auto
termination by (relation "measure snd") auto

declare sha512_W.simps [simp del]

primrec sha512_vars ::
  "u64 list \<Rightarrow> u64 list \<Rightarrow> nat \<Rightarrow> u64 \<times> u64 \<times> u64 \<times> u64 \<times> u64 \<times> u64 \<times> u64 \<times> u64" where
  "sha512_vars H M 0 = (H ! 0, H ! 1, H ! 2, H ! 3, H ! 4, H ! 5, H ! 6, H ! 7)"
| "sha512_vars H M (Suc t) =
     (case sha512_vars H M t of (a, b, c, d, e, f, g, h) \<Rightarrow>
        let T1 = h + Sigma512_1 e + Ch e f g + sha512_k ! t + sha512_W M t;
            T2 = Sigma512_0 a + Maj a b c
        in (T1 + T2, a, b, c, d + T1, e, f, g))"

definition sha512_block :: "u64 list \<Rightarrow> u64 list \<Rightarrow> u64 list" where
  "sha512_block H M =
     (case sha512_vars H M 80 of (a, b, c, d, e, f, g, h) \<Rightarrow>
        [H ! 0 + a, H ! 1 + b, H ! 2 + c, H ! 3 + d, H ! 4 + e, H ! 5 + f, H ! 6 + g, H ! 7 + h])"

text \<open>The members of the family: an initial digest and a number of bytes of the result.\<close>

definition SHA_512_family :: "u64 list \<Rightarrow> nat \<Rightarrow> bytes \<Rightarrow> bytes" where
  "SHA_512_family H0 n msg =
     take n (iterate 128 (on_bytes be_word (be_bytes 8) 8 sha512_block) (concat (map (be_bytes 8) H0))
       (padded 128 112 (\<lambda>l. be_bytes 16 (of_nat l :: 128 word)) msg))"

section \<open>Equivalence\<close>

lemma sha512_expand_W:
  assumes "length M = 16" "16 \<le> n"
  shows "fold sha512_expand [16..<n] M = map (sha512_W M) [0..<n]"
  using assms(2)
proof (induction n rule: dec_induct)
  case base
  show ?case using assms(1) by (auto simp: list_eq_iff_nth_eq sha512_W.simps)
next
  case (step n)
  then show ?case
    by (simp add: sha512_expand_def sha512_W.simps [of M n] nth_append sigma512_0_def sigma512_1_def algebra_simps)
qed

abbreviation sha512_working :: "sha512_variables \<Rightarrow> u64 \<times> u64 \<times> u64 \<times> u64 \<times> u64 \<times> u64 \<times> u64 \<times> u64" where
  "sha512_working v \<equiv>
     (sha512_a v, sha512_b v, sha512_c v, sha512_d v, sha512_e v, sha512_f v, sha512_g v, sha512_h v)"

lemma sha512_rounds:
  assumes "\<forall>i<80. sha512_w v ! i = sha512_W M i" "n \<le> 80" "sha512_working v = sha512_vars H M 0"
  shows "sha512_w (fold sha512_round [0..<n] v) = sha512_w v \<and>
    sha512_working (fold sha512_round [0..<n] v) = sha512_vars H M n"
  using assms(2)
proof (induction n)
  case (Suc n)
  define u where "u = fold sha512_round [0..<n] v"
  have u: "sha512_w u = sha512_w v" "sha512_vars H M n = sha512_working u"
    using Suc by (simp_all add: u_def)
  have f: "fold sha512_round [0..<Suc n] v = sha512_round n u" by (simp add: u_def)
  have "sha512_w v ! n = sha512_W M n" using assms(1) Suc.prems by simp
  then have "sha512_vars H M (Suc n) = sha512_working (sha512_round n u)"
    using u by (simp add: sha512_round_def Let_def Sigma512_0_def Sigma512_1_def Ch_def Maj_def)
  moreover have "sha512_w (sha512_round n u) = sha512_w v" using u(1) by (simp add: sha512_round_def Let_def)
  ultimately show ?case unfolding f by (intro conjI) simp_all
qed (use assms(3) in simp)

definition sha512_code :: "u64 list \<Rightarrow> u64 list \<Rightarrow> u64 list" where
  "sha512_code H M =
     (let v = sha512_load (H @ M);
          v = v\<lparr>sha512_w := fold sha512_expand [16..<80] (sha512_w v)\<rparr>;
          v = fold sha512_round [0..<80] v
      in map2 (+) H [sha512_a v, sha512_b v, sha512_c v, sha512_d v, sha512_e v, sha512_f v, sha512_g v, sha512_h v])"

lemma sha512_code_block:
  assumes "length H = 8" "length M = 16"
  shows "sha512_code H M = sha512_block H M"
proof -
  define n :: nat where "n = 80"
  obtain h0 h1 h2 h3 h4 h5 h6 h7 where H: "H = [h0, h1, h2, h3, h4, h5, h6, h7]"
    using assms(1) by (auto simp: numeral_eq_Suc length_Suc_conv)
  define v where "v = (sha512_load (H @ M))\<lparr>sha512_w := map (sha512_W M) [0..<n]\<rparr>"
  have w: "sha512_w v = map (sha512_W M) [0..<n]" by (simp add: v_def)
  have e: "(sha512_load (H @ M))\<lparr>sha512_w := fold sha512_expand [16..<n] (sha512_w (sha512_load (H @ M)))\<rparr> = v"
    using sha512_expand_W [OF assms(2), of n] by (simp add: v_def n_def sha512_load_def H)
  define u where "u = fold sha512_round [0..<n] v"
  have "sha512_working v = sha512_vars H M 0" by (simp add: v_def sha512_load_def H)
  then have "sha512_vars H M n = sha512_working u"
    using sha512_rounds [of v M n H] w by (simp add: u_def n_def)
  then show ?thesis
    unfolding sha512_code_def sha512_block_def Let_def n_def [symmetric] e u_def [symmetric] by (simp add: H)
qed

lemma sha512_padded:
  "padded_digest 64 128 (on_bytes be_word (be_bytes 8) 8 sha512_block)
     (sha512_digest :: 'a digest_context_scheme \<Rightarrow> 'a digest_context_scheme) sha512_pad 112"
proof -
  have "block_digest (8 * 8) (8 * 16) (on_bytes be_word (be_bytes 8) 8 sha512_block)
      (sha512_digest :: 'a digest_context_scheme \<Rightarrow> 'a digest_context_scheme)"
  proof (rule block_digest_on_words [where f = sha512_code])
    show "sha512_digest ctx =
      (let ctx = digest_assert (unat (ctx_len ctx) mod (8 * 16) = 0) ctx;
           ws = map be_word (group 8 (ddd ctx))
       in ctx\<lparr>ddd := concat (map (be_bytes 8) (sha512_code (take 8 ws) (drop 8 ws))) @ concat (map (le_bytes 8) (drop 8 ws))\<rparr>)"
      for ctx :: "'a digest_context_scheme"
      unfolding sha512_digest_def sha512_code_def Let_def append_take_drop_id by simp
  qed (simp_all add: sha512_code_block sha512_block_def case_prod_beta)
  moreover have "padded_digest_axioms 64 128 (sha512_digest :: 'a digest_context_scheme \<Rightarrow> 'a digest_context_scheme) sha512_pad 112"
  proof
    show "sha512_pad byte ctx =
      (let ctx = accumulate 64 128 sha512_digest byte ctx
       in if unat (ctx_len ctx) mod 128 \<noteq> 112 then sha512_pad 0 ctx else ctx)" for byte and ctx :: "'a digest_context_scheme"
      by (subst sha512_pad.simps) (simp add: sha512_update_def)
  qed simp
  ultimately show ?thesis by (simp add: padded_digest_def)
qed

lemma length_sha512_init_digests:
  "length sha512_init_digest = 8" "length sha384_init_digest = 8" "length sha512_256_init_digest = 8" "length sha512_224_init_digest = 8"
  by (simp_all add: sha512_init_digest_def sha384_init_digest_def sha512_256_init_digest_def sha512_224_init_digest_def)

lemma len_bits_wide:
  assumes "n < 2 ^ 61"
  shows "be_bytes 8 (0 :: u64) @ be_bytes 8 (of_nat n * 8 :: u64) = be_bytes 16 (of_nat (8 * n) :: 128 word)"
proof -
  have "le_bytes 8 (of_nat n * 8 :: u64) = le_bytes 8 (of_nat (8 * n) :: 128 word)"
  proof (rule le_bytes_cong)
    have "of_nat n * 8 = (of_nat (8 * n) :: u64)" by (simp add: mult.commute)
    then show "bit (of_nat n * 8 :: u64) i = bit (of_nat (8 * n) :: 128 word) i" if "i < 8 * 8" for i
      using that by (simp add: bit_of_nat_iff del: of_nat_mult)
  qed
  moreover have "drop_bit 64 (of_nat (8 * n) :: 128 word) = 0"
  proof -
    have "unat (of_nat (8 * n) :: 128 word) = 8 * n" using assms by (simp add: unat_of_nat del: of_nat_mult)
    then have "unat (drop_bit 64 (of_nat (8 * n) :: 128 word)) = 8 * n div 2 ^ 64"
      unfolding unat_drop_bit_eq by (simp only: drop_bit_eq_div)
    then show ?thesis using assms by (simp add: unat_eq_zero del: of_nat_mult)
  qed
  then have "le_bytes 8 (0 :: u64) = le_bytes 8 (drop_bit 64 (of_nat (8 * n) :: 128 word))"
    by (intro le_bytes_cong) simp
  ultimately show ?thesis
    using le_bytes_add [of 8 8 "of_nat (8 * n) :: 128 word"] by (simp add: be_bytes_def)
qed

lemma sha512_methods:
  assumes "length H0 = 8" "dsize \<le> 64" "digest_init alg = sha512_family_init H0 dsize"
    "digest_update alg = sha512_update" "digest_final alg = sha512_final" "blocksize alg = 128" "digestsize alg = dsize"
  shows "digest_methods 64 128 (on_bytes be_word (be_bytes 8) 8 sha512_block) sha512_digest sha512_pad 112
    (alg :: 'a sized_context_scheme digest_algorithm) (concat (map (be_bytes 8) H0))
    (\<lambda>l. be_bytes 16 (of_nat l :: 128 word)) (\<lambda>l. be_bytes 8 (0 :: u64) @ be_bytes 8 (l * 8)) ctx_digestsize"
proof (intro digest_methods.intro sha512_padded digest_methods_axioms.intro)
  have h: "length (concat (map (be_bytes 8) H0)) = 64" using assms(1) by (simp add: length_concat_map [of _ 8])
  show "length (ddd (digest_init alg ctx)) = 64 + 128 \<and> ctx_len (digest_init alg ctx) = 0 \<and>
      take 64 (ddd (digest_init alg ctx)) = concat (map (be_bytes 8) H0) \<and>
      ctx_digestsize (digest_init alg ctx) = digestsize alg \<and> digest_failures (digest_init alg ctx) = digest_failures ctx"
    if "length (ddd ctx) = 64 + 128" for ctx
    using that h by (simp add: assms sha512_family_init_def)
  show "ctx_digestsize ctx = ctx_digestsize ctx'" if "digest_context.more ctx = digest_context.more ctx'"
    for ctx ctx' :: "'a sized_context_scheme"
    using that by (cases ctx; cases ctx') simp
  show "digest_final alg ctx =
      (let ctx' = fold (accumulate 64 128 sha512_digest) (be_bytes 8 (0 :: u64) @ be_bytes 8 (ctx_len ctx * 8)) (sha512_pad 0x80 ctx);
           ctx' = digest_assert (unat (ctx_len ctx') mod 128 = 0) ctx'
       in (take (ctx_digestsize ctx') (ddd ctx'), ctx'))" for ctx :: "'a sized_context_scheme"
    by (simp add: assms sha512_final_def sha512_update_def Let_def)
qed (simp_all add: assms fun_eq_iff sha512_update_def mult.commute len_bits_wide)

interpretation sha512: digest_methods 64 128 "on_bytes be_word (be_bytes 8) 8 sha512_block" sha512_digest sha512_pad 112
  sha512_algorithm "concat (map (be_bytes 8) sha512_init_digest)"
  "\<lambda>l. be_bytes 16 (of_nat l :: 128 word)" "\<lambda>l. be_bytes 8 (0 :: u64) @ be_bytes 8 (l * 8)" ctx_digestsize
  by (rule sha512_methods) (simp_all add: length_sha512_init_digests sha512_init_def)

interpretation sha384: digest_methods 64 128 "on_bytes be_word (be_bytes 8) 8 sha512_block" sha512_digest sha512_pad 112
  sha384_algorithm "concat (map (be_bytes 8) sha384_init_digest)"
  "\<lambda>l. be_bytes 16 (of_nat l :: 128 word)" "\<lambda>l. be_bytes 8 (0 :: u64) @ be_bytes 8 (l * 8)" ctx_digestsize
  by (rule sha512_methods) (simp_all add: length_sha512_init_digests sha384_init_def)

interpretation sha512_256: digest_methods 64 128 "on_bytes be_word (be_bytes 8) 8 sha512_block" sha512_digest sha512_pad 112
  sha512_256_algorithm "concat (map (be_bytes 8) sha512_256_init_digest)"
  "\<lambda>l. be_bytes 16 (of_nat l :: 128 word)" "\<lambda>l. be_bytes 8 (0 :: u64) @ be_bytes 8 (l * 8)" ctx_digestsize
  by (rule sha512_methods) (simp_all add: length_sha512_init_digests sha512_256_init_def)

interpretation sha512_224: digest_methods 64 128 "on_bytes be_word (be_bytes 8) 8 sha512_block" sha512_digest sha512_pad 112
  sha512_224_algorithm "concat (map (be_bytes 8) sha512_224_init_digest)"
  "\<lambda>l. be_bytes 16 (of_nat l :: 128 word)" "\<lambda>l. be_bytes 8 (0 :: u64) @ be_bytes 8 (l * 8)" ctx_digestsize
  by (rule sha512_methods) (simp_all add: length_sha512_init_digests sha512_224_init_def)

lemma sha512_hashes:
  "sha512.hash TYPE('a) = SHA_512_family sha512_init_digest 64"
  "sha384.hash TYPE('a) = SHA_512_family sha384_init_digest 48"
  "sha512_256.hash TYPE('a) = SHA_512_family sha512_256_init_digest 32"
  "sha512_224.hash TYPE('a) = SHA_512_family sha512_224_init_digest 28"
  by (simp_all add: fun_eq_iff SHA_512_family_def sha512.hash_def sha384.hash_def sha512_256.hash_def sha512_224.hash_def)

text \<open>The constants are those of the standard.\<close>

lemma sha512_constants:
  "list_all2 (\<lambda>p k. root_fraction 3 64 p (unat k)) first_primes sha512_k"
  "list_all2 (\<lambda>p h. root_fraction 2 64 p (unat h)) (take 8 first_primes) sha512_init_digest"
  "list_all2 (\<lambda>p h. root_fraction 2 64 p (unat h)) (take 8 (drop 8 first_primes)) sha384_init_digest"
  by (simp_all add: first_primes_def sha512_k_def sha512_init_digest_def sha384_init_digest_def root_fraction_def
      small_root_def)


end
