(* ===== verification/Md5.thy ===== *)
theory Md5 imports Digest begin

text \<open>
  MD5 and MD4, \<^verbatim>\<open>crypto/md5.c\<close> and \<^verbatim>\<open>crypto/md4.c\<close>, and their equivalence with RFC 1321 and RFC 1320,
  whose message word orders and rotations are tables and whose auxiliary functions are written
  with conjunctions and disjunctions.
\<close>

unbundle bit_operations_syntax

section \<open>The code of MD5\<close>

record md5_variables =
  md5_a :: u32
  md5_b :: u32
  md5_c :: u32
  md5_d :: u32
  md5_w :: "u32 list"

definition md5_k :: "u32 list" where
  "md5_k = concat
     [[0xd76aa478, 0xe8c7b756, 0x242070db, 0xc1bdceee, 0xf57c0faf, 0x4787c62a],
      [0xa8304613, 0xfd469501, 0x698098d8, 0x8b44f7af, 0xffff5bb1, 0x895cd7be],
      [0x6b901122, 0xfd987193, 0xa679438e, 0x49b40821, 0xf61e2562, 0xc040b340],
      [0x265e5a51, 0xe9b6c7aa, 0xd62f105d, 0x02441453, 0xd8a1e681, 0xe7d3fbc8],
      [0x21e1cde6, 0xc33707d6, 0xf4d50d87, 0x455a14ed, 0xa9e3e905, 0xfcefa3f8],
      [0x676f02d9, 0x8d2a4c8a, 0xfffa3942, 0x8771f681, 0x6d9d6122, 0xfde5380c],
      [0xa4beea44, 0x4bdecfa9, 0xf6bb4b60, 0xbebfbc70, 0x289b7ec6, 0xeaa127fa],
      [0xd4ef3085, 0x04881d05, 0xd9d4d039, 0xe6db99e5, 0x1fa27cf8, 0xc4ac5665],
      [0xf4292244, 0x432aff97, 0xab9423a7, 0xfc93a039, 0x655b59c3, 0x8f0ccc92],
      [0xffeff47d, 0x85845dd1, 0x6fa87e4f, 0xfe2ce6e0, 0xa3014314, 0x4e0811a1],
      [0xf7537e82, 0xbd3af235, 0x2ad7d2bb, 0xeb86d391]]"

definition md5_r :: "nat list list" where
  "md5_r = [[7, 12, 17, 22], [5, 9, 14, 20], [4, 11, 16, 23], [6, 10, 15, 21]]"

definition md5_f_0_15 :: "md5_variables \<Rightarrow> u32" where
  "md5_f_0_15 v = md5_d v XOR (md5_b v AND (md5_c v XOR md5_d v))"
definition md5_f_16_31 :: "md5_variables \<Rightarrow> u32" where
  "md5_f_16_31 v = md5_c v XOR (md5_d v AND (md5_b v XOR md5_c v))"
definition md5_f_32_47 :: "md5_variables \<Rightarrow> u32" where
  "md5_f_32_47 v = md5_b v XOR md5_c v XOR md5_d v"
definition md5_f_48_63 :: "md5_variables \<Rightarrow> u32" where
  "md5_f_48_63 v = md5_c v XOR (md5_b v OR NOT (md5_d v))"

definition md5_steps :: "((md5_variables \<Rightarrow> u32) \<times> nat \<times> nat) list" where
  "md5_steps = [(md5_f_0_15, 1, 0), (md5_f_16_31, 5, 1), (md5_f_32_47, 3, 5), (md5_f_48_63, 7, 0)]"

definition md5_init :: "'a digest_context_scheme \<Rightarrow> 'a digest_context_scheme" where
  "md5_init ctx = ctx\<lparr>ddd := concat (map (le_bytes 4)
     [0x67452301 :: u32, 0xefcdab89, 0x98badcfe, 0x10325476]) @ drop 16 (ddd ctx), ctx_len := 0\<rparr>"

definition md5_load :: "u32 list \<Rightarrow> md5_variables" where
  "md5_load dwords =
     \<lparr>md5_a = dwords ! 0, md5_b = dwords ! 1, md5_c = dwords ! 2, md5_d = dwords ! 3, md5_w = drop 4 dwords\<rparr>"

definition md5_round :: "nat \<Rightarrow> md5_variables \<Rightarrow> md5_variables" where
  "md5_round i v =
     (let r = i div 16;
          (step_f, coefficient, constant) = md5_steps ! r;
          f = step_f v;
          g = (coefficient * i + constant) mod 16;
          temp = md5_d v
      in v\<lparr>md5_d := md5_c v, md5_c := md5_b v,
           md5_b := md5_b v + rol32 (md5_a v + f + md5_k ! i + md5_w v ! g) (md5_r ! r ! (i mod 4)),
           md5_a := temp\<rparr>)"

definition md5_digest :: "'a digest_context_scheme \<Rightarrow> 'a digest_context_scheme" where
  "md5_digest ctx =
     (let ctx = digest_assert (unat (ctx_len ctx) mod 64 = 0) ctx;
          dwords = map le_word (group 4 (ddd ctx));
          v = md5_load dwords;
          v = fold md5_round [0..<64] v;
          h = map2 (+) (take 4 dwords) [md5_a v, md5_b v, md5_c v, md5_d v]
      in ctx\<lparr>ddd := concat (map (le_bytes 4) h) @ concat (map (le_bytes 4) (drop 4 dwords))\<rparr>)"

definition md5_update :: "bytes \<Rightarrow> 'a digest_context_scheme \<Rightarrow> 'a digest_context_scheme" where
  "md5_update data ctx = fold (accumulate 16 64 md5_digest) data ctx"

lemma md5_digest_len: "ctx_len (md5_digest ctx) = ctx_len ctx"
  by (simp add: md5_digest_def Let_def)

function md5_pad :: "u8 \<Rightarrow> 'a digest_context_scheme \<Rightarrow> 'a digest_context_scheme" where
  "md5_pad pad ctx =
     (let ctx = md5_update [pad] ctx
      in if unat (ctx_len ctx) mod 64 \<noteq> 56 then md5_pad 0 ctx else ctx)"
  by pat_completeness auto

termination
  by (relation "measure (\<lambda>(pad, ctx). zeros 64 56 (unat (ctx_len ctx)))")
    (auto simp: md5_update_def accumulate_def Let_def md5_digest_len intro!: pad_decreases split: if_splits)

declare md5_pad.simps [simp del]

definition md5_final :: "'a digest_context_scheme \<Rightarrow> bytes \<times> 'a digest_context_scheme" where
  "md5_final ctx =
     (let len_bits = le_bytes 8 (ctx_len ctx * 8);
          ctx = md5_pad 0x80 ctx;
          ctx = md5_update len_bits ctx;
          ctx = digest_assert (unat (ctx_len ctx) mod 64 = 0) ctx
      in (take 16 (ddd ctx), ctx))"

definition md5_algorithm :: "'a digest_context_scheme digest_algorithm" where
  "md5_algorithm = \<lparr>digest_name = ''md5'', blocksize = 64, digestsize = 16,
     digest_init = md5_init, digest_update = md5_update, digest_final = md5_final\<rparr>"

lemma md5_algorithm_sel [simp]:
  "blocksize md5_algorithm = 64" "digestsize md5_algorithm = 16" "digest_init md5_algorithm = md5_init"
  "digest_update md5_algorithm = md5_update" "digest_final md5_algorithm = md5_final"
  by (simp_all add: md5_algorithm_def)

section \<open>The code of MD4\<close>

record md4_variables =
  md4_a :: u32
  md4_b :: u32
  md4_c :: u32
  md4_d :: u32
  md4_w :: "u32 list"

definition md4_r :: "nat list list" where
  "md4_r = [[3, 7, 11, 19], [3, 5, 9, 13], [3, 9, 11, 15]]"

definition md4_f_0_15 :: "md4_variables \<Rightarrow> nat \<Rightarrow> u32" where
  "md4_f_0_15 v i = ((md4_b v AND md4_c v) OR (NOT (md4_b v) AND md4_d v)) + md4_w v ! i"
definition md4_f_16_31 :: "md4_variables \<Rightarrow> nat \<Rightarrow> u32" where
  "md4_f_16_31 v i = ((md4_b v AND md4_c v) OR (md4_b v AND md4_d v) OR (md4_c v AND md4_d v)) +
     md4_w v ! ((push_bit 2 i OR drop_bit 2 i) mod 16)"
definition md4_reverse :: "nat list" where
  "md4_reverse = [0, 8, 4, 12, 2, 10, 6, 14, 1, 9, 5, 13, 3, 11, 7, 15]"
definition md4_f_32_47 :: "md4_variables \<Rightarrow> nat \<Rightarrow> u32" where
  "md4_f_32_47 v i = (md4_b v XOR md4_c v XOR md4_d v) + md4_w v ! (md4_reverse ! i)"

definition md4_steps :: "((md4_variables \<Rightarrow> nat \<Rightarrow> u32) \<times> u32) list" where
  "md4_steps = [(md4_f_0_15, 0), (md4_f_16_31, 0x5a827999), (md4_f_32_47, 0x6ed9eba1)]"

definition md4_init :: "'a digest_context_scheme \<Rightarrow> 'a digest_context_scheme" where
  "md4_init ctx = ctx\<lparr>ddd := concat (map (le_bytes 4)
     [0x67452301 :: u32, 0xefcdab89, 0x98badcfe, 0x10325476]) @ drop 16 (ddd ctx), ctx_len := 0\<rparr>"

definition md4_load :: "u32 list \<Rightarrow> md4_variables" where
  "md4_load dwords =
     \<lparr>md4_a = dwords ! 0, md4_b = dwords ! 1, md4_c = dwords ! 2, md4_d = dwords ! 3, md4_w = drop 4 dwords\<rparr>"

definition md4_round :: "nat \<Rightarrow> md4_variables \<Rightarrow> md4_variables" where
  "md4_round i v =
     (let r = i div 16;
          (step_f, constant) = md4_steps ! r;
          f = step_f v (i mod 16);
          temp = md4_d v
      in v\<lparr>md4_d := md4_c v, md4_c := md4_b v,
           md4_b := rol32 (md4_a v + f + constant) (md4_r ! r ! (i mod 4)),
           md4_a := temp\<rparr>)"

definition md4_digest :: "'a digest_context_scheme \<Rightarrow> 'a digest_context_scheme" where
  "md4_digest ctx =
     (let ctx = digest_assert (unat (ctx_len ctx) mod 64 = 0) ctx;
          dwords = map le_word (group 4 (ddd ctx));
          v = md4_load dwords;
          v = fold md4_round [0..<48] v;
          h = map2 (+) (take 4 dwords) [md4_a v, md4_b v, md4_c v, md4_d v]
      in ctx\<lparr>ddd := concat (map (le_bytes 4) h) @ concat (map (le_bytes 4) (drop 4 dwords))\<rparr>)"

definition md4_update :: "bytes \<Rightarrow> 'a digest_context_scheme \<Rightarrow> 'a digest_context_scheme" where
  "md4_update data ctx = fold (accumulate 16 64 md4_digest) data ctx"

lemma md4_digest_len: "ctx_len (md4_digest ctx) = ctx_len ctx"
  by (simp add: md4_digest_def Let_def)

function md4_pad :: "u8 \<Rightarrow> 'a digest_context_scheme \<Rightarrow> 'a digest_context_scheme" where
  "md4_pad pad ctx =
     (let ctx = md4_update [pad] ctx
      in if unat (ctx_len ctx) mod 64 \<noteq> 56 then md4_pad 0 ctx else ctx)"
  by pat_completeness auto

termination
  by (relation "measure (\<lambda>(pad, ctx). zeros 64 56 (unat (ctx_len ctx)))")
    (auto simp: md4_update_def accumulate_def Let_def md4_digest_len intro!: pad_decreases split: if_splits)

declare md4_pad.simps [simp del]

definition md4_final :: "'a digest_context_scheme \<Rightarrow> bytes \<times> 'a digest_context_scheme" where
  "md4_final ctx =
     (let len_bits = le_bytes 8 (ctx_len ctx * 8);
          ctx = md4_pad 0x80 ctx;
          ctx = md4_update len_bits ctx;
          ctx = digest_assert (unat (ctx_len ctx) mod 64 = 0) ctx
      in (take 16 (ddd ctx), ctx))"

definition md4_algorithm :: "'a digest_context_scheme digest_algorithm" where
  "md4_algorithm = \<lparr>digest_name = ''md4'', blocksize = 64, digestsize = 16,
     digest_init = md4_init, digest_update = md4_update, digest_final = md4_final\<rparr>"

lemma md4_algorithm_sel [simp]:
  "blocksize md4_algorithm = 64" "digestsize md4_algorithm = 16" "digest_init md4_algorithm = md4_init"
  "digest_update md4_algorithm = md4_update" "digest_final md4_algorithm = md4_final"
  by (simp_all add: md4_algorithm_def)

section \<open>The standards\<close>

definition MD_H0 :: "u32 list" where
  "MD_H0 = [0x67452301, 0xefcdab89, 0x98badcfe, 0x10325476]"

definition md5_F :: "nat \<Rightarrow> u32 \<Rightarrow> u32 \<Rightarrow> u32 \<Rightarrow> u32" where
  "md5_F i x y z =
     (if i < 16 then (x AND y) OR (NOT x AND z)
      else if i < 32 then (x AND z) OR (y AND NOT z)
      else if i < 48 then x XOR y XOR z
      else y XOR (x OR NOT z))"

definition md5_order :: "nat list" where
  "md5_order =
     [0, 1, 2, 3, 4, 5, 6, 7, 8, 9, 10, 11, 12, 13, 14, 15,
      1, 6, 11, 0, 5, 10, 15, 4, 9, 14, 3, 8, 13, 2, 7, 12,
      5, 8, 11, 14, 1, 4, 7, 10, 13, 0, 3, 6, 9, 12, 15, 2,
      0, 7, 14, 5, 12, 3, 10, 1, 8, 15, 6, 13, 4, 11, 2, 9]"

definition md5_shift :: "nat list" where
  "md5_shift =
     [7, 12, 17, 22, 7, 12, 17, 22, 7, 12, 17, 22, 7, 12, 17, 22,
      5, 9, 14, 20, 5, 9, 14, 20, 5, 9, 14, 20, 5, 9, 14, 20,
      4, 11, 16, 23, 4, 11, 16, 23, 4, 11, 16, 23, 4, 11, 16, 23,
      6, 10, 15, 21, 6, 10, 15, 21, 6, 10, 15, 21, 6, 10, 15, 21]"

primrec md5_vars :: "u32 list \<Rightarrow> u32 list \<Rightarrow> nat \<Rightarrow> u32 \<times> u32 \<times> u32 \<times> u32" where
  "md5_vars H M 0 = (H ! 0, H ! 1, H ! 2, H ! 3)"
| "md5_vars H M (Suc i) =
     (case md5_vars H M i of (a, b, c, d) \<Rightarrow>
        (d, b + rol32 (a + md5_F i b c d + M ! (md5_order ! i) + md5_k ! i) (md5_shift ! i), b, c))"

definition md5_block :: "u32 list \<Rightarrow> u32 list \<Rightarrow> u32 list" where
  "md5_block H M = (case md5_vars H M 64 of (a, b, c, d) \<Rightarrow> [H ! 0 + a, H ! 1 + b, H ! 2 + c, H ! 3 + d])"

definition MD5 :: "bytes \<Rightarrow> bytes" where
  "MD5 msg = iterate 64 (on_bytes le_word (le_bytes 4) 4 md5_block) (concat (map (le_bytes 4) MD_H0))
     (padded 64 56 (\<lambda>l. le_bytes 8 (of_nat l :: u64)) msg)"

definition md4_F :: "nat \<Rightarrow> u32 \<Rightarrow> u32 \<Rightarrow> u32 \<Rightarrow> u32" where
  "md4_F i x y z =
     (if i < 16 then (x AND y) OR (NOT x AND z)
      else if i < 32 then (x AND y) OR (x AND z) OR (y AND z)
      else x XOR y XOR z)"

definition md4_order :: "nat list" where
  "md4_order =
     [0, 1, 2, 3, 4, 5, 6, 7, 8, 9, 10, 11, 12, 13, 14, 15,
      0, 4, 8, 12, 1, 5, 9, 13, 2, 6, 10, 14, 3, 7, 11, 15,
      0, 8, 4, 12, 2, 10, 6, 14, 1, 9, 5, 13, 3, 11, 7, 15]"

definition md4_shift :: "nat list" where
  "md4_shift =
     [3, 7, 11, 19, 3, 7, 11, 19, 3, 7, 11, 19, 3, 7, 11, 19,
      3, 5, 9, 13, 3, 5, 9, 13, 3, 5, 9, 13, 3, 5, 9, 13,
      3, 9, 11, 15, 3, 9, 11, 15, 3, 9, 11, 15, 3, 9, 11, 15]"

definition md4_const :: "nat \<Rightarrow> u32" where
  "md4_const i = (if i < 16 then 0 else if i < 32 then 0x5a827999 else 0x6ed9eba1)"

primrec md4_vars :: "u32 list \<Rightarrow> u32 list \<Rightarrow> nat \<Rightarrow> u32 \<times> u32 \<times> u32 \<times> u32" where
  "md4_vars H M 0 = (H ! 0, H ! 1, H ! 2, H ! 3)"
| "md4_vars H M (Suc i) =
     (case md4_vars H M i of (a, b, c, d) \<Rightarrow>
        (d, rol32 (a + md4_F i b c d + M ! (md4_order ! i) + md4_const i) (md4_shift ! i), b, c))"

definition md4_block :: "u32 list \<Rightarrow> u32 list \<Rightarrow> u32 list" where
  "md4_block H M = (case md4_vars H M 48 of (a, b, c, d) \<Rightarrow> [H ! 0 + a, H ! 1 + b, H ! 2 + c, H ! 3 + d])"

definition MD4 :: "bytes \<Rightarrow> bytes" where
  "MD4 msg = iterate 64 (on_bytes le_word (le_bytes 4) 4 md4_block) (concat (map (le_bytes 4) MD_H0))
     (padded 64 56 (\<lambda>l. le_bytes 8 (of_nat l :: u64)) msg)"

section \<open>Equivalence\<close>

lemma select_forms:
  fixes x y z :: "'a::len word"
  shows "z XOR (x AND (y XOR z)) = (x AND y) OR (NOT x AND z)"
    "y XOR (z AND (x XOR y)) = (x AND z) OR (y AND NOT z)"
  by (rule bit_word_eqI; auto simp: bit_simps)+

text \<open>The steps by number, and what the tables of the standard have there.\<close>

lemma md5_tables:
  "\<forall>i\<in>set [0..<64]. (fst (snd (md5_steps ! (i div 16))) * i + snd (snd (md5_steps ! (i div 16)))) mod 16 = md5_order ! i \<and>
     md5_r ! (i div 16) ! (i mod 4) = md5_shift ! i"
  by (simp add: upt_conv_Cons md5_steps_def md5_order_def md5_r_def md5_shift_def)

lemma md4_tables:
  "\<forall>i\<in>set [0..<48]. md4_r ! (i div 16) ! (i mod 4) = md4_shift ! i \<and>
     (if i < 16 then i mod 16 else if i < 32 then (push_bit 2 (i mod 16) OR drop_bit 2 (i mod 16)) mod 16
      else md4_reverse ! (i mod 16)) = md4_order ! i"
  by (simp add: upt_conv_Cons md4_r_def md4_shift_def md4_order_def md4_reverse_def)

lemma md5_round_std:
  assumes "i < 64"
  shows "md5_round i v = v\<lparr>md5_d := md5_c v, md5_c := md5_b v,
      md5_b := md5_b v + rol32 (md5_a v + md5_F i (md5_b v) (md5_c v) (md5_d v) + md5_w v ! (md5_order ! i) + md5_k ! i)
        (md5_shift ! i), md5_a := md5_d v\<rparr>"
proof -
  have "fst (md5_steps ! (i div 16)) v = md5_F i (md5_b v) (md5_c v) (md5_d v)"
  proof -
    consider "i div 16 = 0" "i < 16" | "i div 16 = 1" "16 \<le> i" "i < 32" | "i div 16 = 2" "32 \<le> i" "i < 48"
      | "i div 16 = 3" "48 \<le> i" using assms by linarith
    then show ?thesis
      by cases (simp_all add: md5_steps_def md5_F_def md5_f_0_15_def md5_f_16_31_def md5_f_32_47_def
          md5_f_48_63_def select_forms and.commute)
  qed
  moreover have "i \<in> set [0..<64]" using assms by simp
  ultimately show ?thesis
    using bspec [OF md5_tables] by (simp add: md5_round_def Let_def case_prod_beta add_ac)
qed

lemma md4_round_std:
  assumes "i < 48"
  shows "md4_round i v = v\<lparr>md4_d := md4_c v, md4_c := md4_b v,
      md4_b := rol32 (md4_a v + md4_F i (md4_b v) (md4_c v) (md4_d v) + md4_w v ! (md4_order ! i) + md4_const i)
        (md4_shift ! i), md4_a := md4_d v\<rparr>"
proof -
  have i: "i \<in> set [0..<48]" using assms by simp
  have "fst (md4_steps ! (i div 16)) v (i mod 16) + snd (md4_steps ! (i div 16)) =
      md4_F i (md4_b v) (md4_c v) (md4_d v) + md4_w v ! (md4_order ! i) + md4_const i"
  proof -
    consider "i div 16 = 0" "i < 16" | "i div 16 = 1" "16 \<le> i" "i < 32" | "i div 16 = 2" "32 \<le> i"
      using assms by linarith
    then show ?thesis
      using conjunct2 [OF bspec [OF md4_tables i]]
      by cases (simp_all add: md4_steps_def md4_F_def md4_const_def md4_f_0_15_def md4_f_16_31_def md4_f_32_47_def)
  qed
  then show ?thesis
    using bspec [OF md4_tables i] by (simp add: md4_round_def Let_def case_prod_beta add.assoc)
qed

lemma md5_rounds:
  assumes "md5_w v = M" "length M = 16" "n \<le> 64" "(md5_a v, md5_b v, md5_c v, md5_d v) = md5_vars H M 0"
  shows "md5_w (fold md5_round [0..<n] v) = M \<and>
    (let v = fold md5_round [0..<n] v in (md5_a v, md5_b v, md5_c v, md5_d v)) = md5_vars H M n"
  using assms(3)
proof (induction n)
  case (Suc n)
  define u where "u = fold md5_round [0..<n] v"
  have u: "md5_w u = M" "md5_vars H M n = (md5_a u, md5_b u, md5_c u, md5_d u)"
    using Suc by (simp_all add: u_def Let_def)
  have f: "fold md5_round [0..<Suc n] v = md5_round n u" by (simp add: u_def)
  have "md5_vars H M (Suc n) = (let v = md5_round n u in (md5_a v, md5_b v, md5_c v, md5_d v))"
    using u Suc.prems assms(2) by (simp add: md5_round_std Let_def)
  moreover have "md5_w (md5_round n u) = M" using u(1) by (simp add: md5_round_def Let_def case_prod_beta)
  ultimately show ?case unfolding f by (intro conjI) simp_all
qed (use assms(1,4) in \<open>simp add: Let_def\<close>)

definition md5_code :: "u32 list \<Rightarrow> u32 list \<Rightarrow> u32 list" where
  "md5_code H M =
     (let v = fold md5_round [0..<64] (md5_load (H @ M))
      in map2 (+) H [md5_a v, md5_b v, md5_c v, md5_d v])"

lemma md5_code_block:
  assumes "length H = 4" "length M = 16"
  shows "md5_code H M = md5_block H M"
proof -
  define n :: nat where "n = 64"
  obtain h0 h1 h2 h3 where H: "H = [h0, h1, h2, h3]"
    using assms(1) by (auto simp: numeral_eq_Suc length_Suc_conv)
  define u where "u = fold md5_round [0..<n] (md5_load (H @ M))"
  have "md5_w (md5_load (H @ M)) = M"
    "(md5_a (md5_load (H @ M)), md5_b (md5_load (H @ M)), md5_c (md5_load (H @ M)), md5_d (md5_load (H @ M))) =
      md5_vars H M 0" by (simp_all add: md5_load_def H)
  then have "md5_vars H M n = (md5_a u, md5_b u, md5_c u, md5_d u)"
    using md5_rounds [OF _ assms(2), of "md5_load (H @ M)" n H] by (simp add: u_def n_def Let_def)
  then show ?thesis
    unfolding md5_code_def md5_block_def Let_def n_def [symmetric] u_def [symmetric] by (simp add: H)
qed

lemma md5_padded:
  "padded_digest 16 64 (on_bytes le_word (le_bytes 4) 4 md5_block)
     (md5_digest :: 'a digest_context_scheme \<Rightarrow> 'a digest_context_scheme) md5_pad 56"
proof -
  have "block_digest (4 * 4) (4 * 16) (on_bytes le_word (le_bytes 4) 4 md5_block)
      (md5_digest :: 'a digest_context_scheme \<Rightarrow> 'a digest_context_scheme)"
  proof (rule block_digest_on_words [where f = md5_code])
    show "md5_digest ctx =
      (let ctx = digest_assert (unat (ctx_len ctx) mod (4 * 16) = 0) ctx;
           ws = map le_word (group 4 (ddd ctx))
       in ctx\<lparr>ddd := concat (map (le_bytes 4) (md5_code (take 4 ws) (drop 4 ws))) @ concat (map (le_bytes 4) (drop 4 ws))\<rparr>)"
      for ctx :: "'a digest_context_scheme"
      unfolding md5_digest_def md5_code_def Let_def append_take_drop_id by simp
  qed (simp_all add: md5_code_block md5_block_def case_prod_beta)
  moreover have "padded_digest_axioms 16 64 (md5_digest :: 'a digest_context_scheme \<Rightarrow> 'a digest_context_scheme) md5_pad 56"
  proof
    show "md5_pad byte ctx =
      (let ctx = accumulate 16 64 md5_digest byte ctx
       in if unat (ctx_len ctx) mod 64 \<noteq> 56 then md5_pad 0 ctx else ctx)" for byte and ctx :: "'a digest_context_scheme"
      by (subst md5_pad.simps) (simp add: md5_update_def)
  qed simp
  ultimately show ?thesis by (simp add: padded_digest_def)
qed

interpretation md5: digest_methods 16 64 "on_bytes le_word (le_bytes 4) 4 md5_block" md5_digest md5_pad 56
  md5_algorithm "concat (map (le_bytes 4) MD_H0)"
  "\<lambda>l. le_bytes 8 (of_nat l :: u64)" "\<lambda>l. le_bytes 8 (l * 8)" "\<lambda>_. 16"
  by (intro digest_methods.intro md5_padded digest_methods_axioms.intro)
    (simp_all add: md5_init_def MD_H0_def md5_final_def md5_update_def [abs_def] Let_def mult.commute)

lemma md5_hash: "md5.hash TYPE('a) msg = MD5 msg"
  unfolding md5.hash_def MD5_def by (simp add: md5.length_iterate)

lemma md4_rounds:
  assumes "md4_w v = M" "length M = 16" "n \<le> 48" "(md4_a v, md4_b v, md4_c v, md4_d v) = md4_vars H M 0"
  shows "md4_w (fold md4_round [0..<n] v) = M \<and>
    (let v = fold md4_round [0..<n] v in (md4_a v, md4_b v, md4_c v, md4_d v)) = md4_vars H M n"
  using assms(3)
proof (induction n)
  case (Suc n)
  define u where "u = fold md4_round [0..<n] v"
  have u: "md4_w u = M" "md4_vars H M n = (md4_a u, md4_b u, md4_c u, md4_d u)"
    using Suc by (simp_all add: u_def Let_def)
  have f: "fold md4_round [0..<Suc n] v = md4_round n u" by (simp add: u_def)
  have "md4_vars H M (Suc n) = (let v = md4_round n u in (md4_a v, md4_b v, md4_c v, md4_d v))"
    using u Suc.prems assms(2) by (simp add: md4_round_std Let_def)
  moreover have "md4_w (md4_round n u) = M" using u(1) by (simp add: md4_round_def Let_def case_prod_beta)
  ultimately show ?case unfolding f by (intro conjI) simp_all
qed (use assms(1,4) in \<open>simp add: Let_def\<close>)

definition md4_code :: "u32 list \<Rightarrow> u32 list \<Rightarrow> u32 list" where
  "md4_code H M =
     (let v = fold md4_round [0..<48] (md4_load (H @ M))
      in map2 (+) H [md4_a v, md4_b v, md4_c v, md4_d v])"

lemma md4_code_block:
  assumes "length H = 4" "length M = 16"
  shows "md4_code H M = md4_block H M"
proof -
  define n :: nat where "n = 48"
  obtain h0 h1 h2 h3 where H: "H = [h0, h1, h2, h3]"
    using assms(1) by (auto simp: numeral_eq_Suc length_Suc_conv)
  define u where "u = fold md4_round [0..<n] (md4_load (H @ M))"
  have "md4_w (md4_load (H @ M)) = M"
    "(md4_a (md4_load (H @ M)), md4_b (md4_load (H @ M)), md4_c (md4_load (H @ M)), md4_d (md4_load (H @ M))) =
      md4_vars H M 0" by (simp_all add: md4_load_def H)
  then have "md4_vars H M n = (md4_a u, md4_b u, md4_c u, md4_d u)"
    using md4_rounds [OF _ assms(2), of "md4_load (H @ M)" n H] by (simp add: u_def n_def Let_def)
  then show ?thesis
    unfolding md4_code_def md4_block_def Let_def n_def [symmetric] u_def [symmetric] by (simp add: H)
qed

lemma md4_padded:
  "padded_digest 16 64 (on_bytes le_word (le_bytes 4) 4 md4_block)
     (md4_digest :: 'a digest_context_scheme \<Rightarrow> 'a digest_context_scheme) md4_pad 56"
proof -
  have "block_digest (4 * 4) (4 * 16) (on_bytes le_word (le_bytes 4) 4 md4_block)
      (md4_digest :: 'a digest_context_scheme \<Rightarrow> 'a digest_context_scheme)"
  proof (rule block_digest_on_words [where f = md4_code])
    show "md4_digest ctx =
      (let ctx = digest_assert (unat (ctx_len ctx) mod (4 * 16) = 0) ctx;
           ws = map le_word (group 4 (ddd ctx))
       in ctx\<lparr>ddd := concat (map (le_bytes 4) (md4_code (take 4 ws) (drop 4 ws))) @ concat (map (le_bytes 4) (drop 4 ws))\<rparr>)"
      for ctx :: "'a digest_context_scheme"
      unfolding md4_digest_def md4_code_def Let_def append_take_drop_id by simp
  qed (simp_all add: md4_code_block md4_block_def case_prod_beta)
  moreover have "padded_digest_axioms 16 64 (md4_digest :: 'a digest_context_scheme \<Rightarrow> 'a digest_context_scheme) md4_pad 56"
  proof
    show "md4_pad byte ctx =
      (let ctx = accumulate 16 64 md4_digest byte ctx
       in if unat (ctx_len ctx) mod 64 \<noteq> 56 then md4_pad 0 ctx else ctx)" for byte and ctx :: "'a digest_context_scheme"
      by (subst md4_pad.simps) (simp add: md4_update_def)
  qed simp
  ultimately show ?thesis by (simp add: padded_digest_def)
qed

interpretation md4: digest_methods 16 64 "on_bytes le_word (le_bytes 4) 4 md4_block" md4_digest md4_pad 56
  md4_algorithm "concat (map (le_bytes 4) MD_H0)"
  "\<lambda>l. le_bytes 8 (of_nat l :: u64)" "\<lambda>l. le_bytes 8 (l * 8)" "\<lambda>_. 16"
  by (intro digest_methods.intro md4_padded digest_methods_axioms.intro)
    (simp_all add: md4_init_def MD_H0_def md4_final_def md4_update_def [abs_def] Let_def mult.commute)

lemma md4_hash: "md4.hash TYPE('a) msg = MD4 msg"
  unfolding md4.hash_def MD4_def by (simp add: md4.length_iterate)


end
