(* ===== verification/Hmac.thy ===== *)
theory Hmac imports Sha1 Sha256 Sha512 Md5 begin

text \<open>
  Keyed hashing, \<^verbatim>\<open>crypto/hmac.c\<close>, over the interface of the digest algorithms: with any algorithm
  that keeps the contract, the code computes the function of FIPS 198-1.  A key is the bytes up to
  its length; the contexts on the stack are arguments.
\<close>

unbundle bit_operations_syntax

section \<open>The code\<close>

definition hmac_reduce_key :: "'c digest_algorithm \<Rightarrow> 'c \<Rightarrow> bytes \<Rightarrow> bytes" where
  "hmac_reduce_key digest stack key =
     fst (digest_final digest (digest_update digest key (digest_init digest stack)))"

definition hmac_pad :: "'c digest_algorithm \<Rightarrow> bytes \<Rightarrow> u8 \<Rightarrow> bytes" where
  "hmac_pad digest key byte = map (\<lambda>b. b XOR byte) (key @ replicate (blocksize digest - length key) 0)"

definition hmac_init :: "'c digest_algorithm \<Rightarrow> 'c \<Rightarrow> 'c \<Rightarrow> bytes \<Rightarrow> 'c \<times> bytes" where
  "hmac_init digest stack ctx key =
     (let key = (if length key > blocksize digest then hmac_reduce_key digest stack key else key);
          k_ipad = hmac_pad digest key 0x36;
          ctx = digest_init digest ctx
      in (digest_update digest k_ipad ctx, key))"

definition hmac_update :: "'c digest_algorithm \<Rightarrow> bytes \<Rightarrow> 'c \<Rightarrow> 'c" where
  "hmac_update digest data ctx = digest_update digest data ctx"

definition hmac_final :: "'c digest_algorithm \<Rightarrow> 'c \<Rightarrow> 'c \<Rightarrow> bytes \<Rightarrow> bytes \<times> 'c \<times> bytes" where
  "hmac_final digest stack ctx key =
     (let key = (if length key > blocksize digest then hmac_reduce_key digest stack key else key);
          k_opad = hmac_pad digest key 0x5c;
          (hmac, ctx) = digest_final digest ctx;
          ctx = digest_init digest ctx;
          ctx = digest_update digest k_opad ctx;
          ctx = digest_update digest (take (digestsize digest) hmac) ctx;
          (hmac, ctx) = digest_final digest ctx
      in (hmac, ctx, key))"

section \<open>The standard\<close>

definition HMAC_K0 :: "(bytes \<Rightarrow> bytes) \<Rightarrow> nat \<Rightarrow> bytes \<Rightarrow> bytes" where
  "HMAC_K0 H B K =
     (if length K = B then K
      else if length K > B then H K @ replicate (B - length (H K)) 0
      else K @ replicate (B - length K) 0)"

definition HMAC :: "(bytes \<Rightarrow> bytes) \<Rightarrow> nat \<Rightarrow> bytes \<Rightarrow> bytes \<Rightarrow> bytes" where
  "HMAC H B K txt =
     H (map2 (XOR) (HMAC_K0 H B K) (replicate B 0x5c) @
        H (map2 (XOR) (HMAC_K0 H B K) (replicate B 0x36) @ txt))"

section \<open>Equivalence\<close>

lemma map2_replicate: "length xs = n \<Longrightarrow> map2 f xs (replicate n y) = map (\<lambda>x. f x y) xs"
  by (induction xs arbitrary: n) auto

context digest_contract
begin

definition hmac_key :: "bytes \<Rightarrow> bytes" where
  "hmac_key key = (if length key > blocksize alg then hash key else key)"

lemma reduce_key: "valid stack \<Longrightarrow> length key < 2 ^ 61 \<Longrightarrow> hmac_reduce_key alg stack key = hash key"
  using final_hash [of stack "[key]"] by (simp add: hmac_reduce_key_def)

lemma hmac_key_length: "length (hmac_key key) \<le> blocksize alg"
  using digestsize_le(1) by (simp add: hmac_key_def hash_length)

lemma hmac_key_pad:
  "hmac_pad alg (hmac_key key) byte = map2 (XOR) (HMAC_K0 hash (blocksize alg) key) (replicate (blocksize alg) byte)"
proof -
  have "HMAC_K0 hash (blocksize alg) key = hmac_key key @ replicate (blocksize alg - length (hmac_key key)) 0"
    by (simp add: HMAC_K0_def hmac_key_def)
  then show ?thesis using hmac_key_length by (simp add: map2_replicate hmac_pad_def)
qed

lemma hmac_pad_length: "length (hmac_pad alg (hmac_key key) byte) = blocksize alg"
  using hmac_key_length by (simp add: hmac_pad_def)

lemma hmac_correct:
  assumes "valid ctx" "valid stack" "valid stack'" "length key < 2 ^ 61"
    "blocksize alg + length (concat pieces) < 2 ^ 61"
  shows "(case hmac_init alg stack ctx key of (ctx1, key1) \<Rightarrow>
      fst (hmac_final alg stack' (fold (hmac_update alg) pieces ctx1) key1)) = HMAC hash (blocksize alg) key (concat pieces)"
proof -
  let ?ipad = "hmac_pad alg (hmac_key key) 0x36" and ?opad = "hmac_pad alg (hmac_key key) 0x5c"
  have k: "(if length key > blocksize alg then hmac_reduce_key alg stack key else key) = hmac_key key"
    using assms by (simp add: hmac_key_def reduce_key)
  have u: "hmac_update alg = digest_update alg" by (simp add: fun_eq_iff hmac_update_def)
  define ctx2 where "ctx2 = fold (digest_update alg) (?ipad # pieces) (digest_init alg ctx)"
  have i: "hmac_init alg stack ctx key = (digest_update alg ?ipad (digest_init alg ctx), hmac_key key)"
    unfolding hmac_init_def Let_def k by (rule refl)
  have inner: "fst (digest_final alg ctx2) = hash (?ipad @ concat pieces)" "valid (snd (digest_final alg ctx2))"
    using final_hash [OF assms(1), of "?ipad # pieces"] final_valid [OF assms(1), of "?ipad # pieces"] assms(5)
    by (simp_all add: ctx2_def hmac_pad_length)
  let ?h = "hash (?ipad @ concat pieces)"
  have "length (concat [?opad, ?h]) < 2 ^ 61"
    using digestsize_le hash_length by (simp add: hmac_pad_length)
  note outer = final_hash [OF inner(2) this]
  have "fst (hmac_final alg stack' ctx2 (hmac_key key)) = hash (?opad @ ?h)"
    using outer inner(1) hmac_key_length [of key] hash_length [of "?ipad @ concat pieces"]
    by (simp add: hmac_final_def Let_def case_prod_beta)
  then show ?thesis by (simp add: i u ctx2_def hmac_key_pad HMAC_def)
qed
end

text \<open>The algorithms with the number of bytes of their digest and data block, and their hash functions.\<close>

definition digest_algorithms :: "(sized_context digest_algorithm \<times> nat \<times> (bytes \<Rightarrow> bytes)) list" where
  "digest_algorithms =
     [(md4_algorithm, 80, MD4), (md5_algorithm, 80, MD5), (sha1_algorithm, 84, SHA_1),
      (sha224_algorithm, 96, SHA_256_family sha224_init_digest 28),
      (sha256_algorithm, 96, SHA_256_family sha256_init_digest 32),
      (sha384_algorithm, 192, SHA_512_family sha384_init_digest 48),
      (sha512_algorithm, 192, SHA_512_family sha512_init_digest 64),
      (sha512_224_algorithm, 192, SHA_512_family sha512_224_init_digest 28),
      (sha512_256_algorithm, 192, SHA_512_family sha512_256_init_digest 32)]"

lemma digest_algorithms_contract:
  assumes "(alg, n, H) \<in> set digest_algorithms"
  shows "digest_contract alg (\<lambda>ctx. length (ddd ctx) = n) H"
proof -
  have "md5.hash TYPE(unit sized_context_ext) = MD5" "md4.hash TYPE(unit sized_context_ext) = MD4"
    "sha1.hash TYPE(unit sized_context_ext) = SHA_1"
    by (simp_all add: fun_eq_iff md5_hash md4_hash sha1_hash)
  then show ?thesis
    using assms md4.digest_contract_axioms [where ?'a = "unit sized_context_ext"]
      md5.digest_contract_axioms [where ?'a = "unit sized_context_ext"]
      sha1.digest_contract_axioms [where ?'a = "unit sized_context_ext"]
      sha224.digest_contract_axioms [where ?'a = unit] sha256.digest_contract_axioms [where ?'a = unit]
      sha384.digest_contract_axioms [where ?'a = unit] sha512.digest_contract_axioms [where ?'a = unit]
      sha512_224.digest_contract_axioms [where ?'a = unit] sha512_256.digest_contract_axioms [where ?'a = unit]
    unfolding sha256_hashes sha512_hashes
    by (auto simp: digest_algorithms_def)
qed

text \<open>C38. HMAC: with each of the digest algorithms, initialising, adding data in any pieces and finalising
  gives the keyed hash of FIPS 198-1 for the whole, whether the key is shorter or longer than a
  block.\<close>

theorem hmac_is_HMAC:
  assumes "(alg, n, H) \<in> set digest_algorithms" "length (ddd ctx) = n" "length (ddd stack) = n"
    "length (ddd stack') = n" "length key < 2 ^ 61" "blocksize alg + length (concat pieces) < 2 ^ 61"
  shows "(case hmac_init alg stack ctx key of (ctx1, key1) \<Rightarrow>
      fst (hmac_final alg stack' (fold (hmac_update alg) pieces ctx1) key1)) = HMAC H (blocksize alg) key (concat pieces)"
  using digest_contract.hmac_correct [OF digest_algorithms_contract [OF assms(1)]] assms(2-) by simp

theorem hmac_is_HMAC_witness:
  "(case hmac_init sha256_algorithm \<lparr>ctx_len = 0, ddd = replicate 96 0, digest_failures = 0, ctx_digestsize = 0\<rparr>
      \<lparr>ctx_len = 0, ddd = replicate 96 0, digest_failures = 0, ctx_digestsize = 0\<rparr> [1, 2, 3] of (ctx1, key1) \<Rightarrow>
      fst (hmac_final sha256_algorithm
        \<lparr>ctx_len = 0, ddd = replicate 96 0, digest_failures = 0, ctx_digestsize = 0\<rparr>
        (fold (hmac_update sha256_algorithm) [[97], [98, 99]] ctx1) key1)) =
   HMAC (SHA_256_family sha256_init_digest 32) 64 [1, 2, 3] [97, 98, 99]"
  using hmac_is_HMAC [of sha256_algorithm 96 "SHA_256_family sha256_init_digest 32"
      "\<lparr>ctx_len = 0, ddd = replicate 96 0, digest_failures = 0, ctx_digestsize = 0\<rparr>"
      "\<lparr>ctx_len = 0, ddd = replicate 96 0, digest_failures = 0, ctx_digestsize = 0\<rparr>"
      "\<lparr>ctx_len = 0, ddd = replicate 96 0, digest_failures = 0, ctx_digestsize = 0\<rparr>" "[1, 2, 3]" "[[97], [98, 99]]"]
  by (simp add: digest_algorithms_def)
end
