(* ===== verification/Spec2Isabelle.thy ===== *)
theory Spec2Isabelle
  imports Malloc Strings Dhcpopts Dhcppkt Nvo Tcpip Retry Iobuf Tcp_Network Hmac
begin

text \<open>
  A verification library for the network boot loader of MKYBOOT, the iPXE tree under
  \<^verbatim>\<open>src/src/ipxe/src\<close>; paths below are relative to that directory.

  \<^bold>\<open>The program.\<close> iPXE is a single-threaded program without an operating system. Objects live in
  one heap (\<^verbatim>\<open>core/malloc.c\<close>), are kept by reference counts (\<^verbatim>\<open>core/refcnt.c\<close>) and do their work
  in cooperative processes (\<^verbatim>\<open>core/process.c\<close>), one of which polls the retry timers
  (\<^verbatim>\<open>net/retry.c\<close>). Packets travel in I/O buffers (\<^verbatim>\<open>core/iobuf.c\<close>). The TCP/IP interface
  (\<^verbatim>\<open>net/tcpip.c\<close>) passes them between the network layers and TCP (\<^verbatim>\<open>net/tcp.c\<close>), whose
  connections carry the boot protocols. The configuration comes from DHCP packets
  (\<^verbatim>\<open>net/dhcppkt.c\<close>), whose options are kept in option blocks (\<^verbatim>\<open>net/dhcpopts.c\<close>); the same
  blocks hold the options stored in non-volatile memory (\<^verbatim>\<open>core/nvo.c\<close>). Downloads are
  authenticated with the algorithms of \<^verbatim>\<open>crypto/\<close>.

  \<^bold>\<open>The machine.\<close> The x86\_64 EFI build: integers are words of their width and wrap around,
  pointers are 64-bit words, memory is byte-addressed and little-endian. Reads and writes outside a
  buffer are explicit results (\<open>EFAULT_OOB\<close>), never unspecified values. Assertions are kept as
  counters of the state, so that ``no assertion fails'' is a statement of the theorems. A function
  that may fail returns its \<open>errno\<close> with the state it leaves. Code outside the modelled components
  is a parameter: the application above TCP, the network below it, the clock, storage devices, cache
  discarders, free and step methods. What is required of a parameter is a locale or a hypothesis.

  \<^bold>\<open>The theories.\<close>

  \<^descr> \<open>IPXE_Prelude\<close>: machine types, error numbers, buffers, alignment, generic lemmas.

  \<^descr> \<open>Malloc\<close>: the free list as the list of blocks in address order, the counters and the
  memory; one definition per function of the allocator. The loops over the free list are structural;
  the retry loop that discards caches is a partial function, total under the contract of
  \<open>cache_discarders\<close>. Allocation is sound and complete, release merges, every interleaving of both
  keeps live blocks disjoint, and \<open>realloc\<close> keeps the contents.

  \<^descr> \<open>Strings\<close>: \<^verbatim>\<open>core/string.c\<close> and the character classes; copying between overlapping
  regions and substring search are correct, number and case conversions are characterised.

  \<^descr> \<open>Dhcpopts\<close>, \<open>Dhcppkt\<close>, \<open>Nvo\<close>: the option block refines a list of options: fetch
  is lookup, store is replacement, insertion or deletion. Received blocks become well-formed or the
  scan reads beyond them, which the model makes visible. Packet settings live in header fields or
  options; saved options are read back. The reallocation method of a block is the contract
  \<open>dhcp_reallocator\<close>, provided by the fixed-size block.

  \<^descr> \<open>Tcpip\<close>: dispatch and statistics, the Internet checksum (equal to the one's complement
  sum of the 16-bit words), the choice of local ports.

  \<^descr> \<open>Objects\<close>, \<open>Retry\<close>: an object is freed once, when its last reference is dropped; the run
  queue is fair; timers estimate, back off and give up within bounds, and the list of running timers
  holds a reference to each of them whatever the callbacks do.

  \<^descr> \<open>Iobuf\<close>: buffers with inline and detached descriptors on the heap of \<open>Malloc\<close>:
  allocation, release, joining, splitting.

  \<^descr> \<open>Tcp\<close>: the whole of \<^verbatim>\<open>net/tcp.c\<close>, from the packet parser to the connection list. \<open>Tcp_Stream\<close>
  relates what a connection delivers to the stream of its peer, \<open>Tcp_Transmit\<close> relates the packets
  sent to the stream of the application, and \<open>Tcp_Network\<close> joins two connections by a network that
  loses, duplicates, delays and reorders: each application receives a prefix of what the other sent.

  \<^descr> \<open>Digest\<close> and \<open>Sha1\<close>, \<open>Sha256\<close>, \<open>Sha512\<close>, \<open>Md5\<close>: incremental hashing in a block-sized
  buffer, abstracted by the locales \<open>block_digest\<close>, \<open>padded_digest\<close>, \<open>digest_methods\<close> and
  \<open>digest_contract\<close>, each interpreted on nine algorithms; the optimised compression loops equal the
  definitions of the standards. \<open>Hmac\<close> is proved once over \<open>digest_contract\<close>.

  \<^bold>\<open>Bounds.\<close> Messages are shorter than \<open>2 ^ 61\<close> bytes, so that the bit count of a digest
  does not wrap around. Streams of TCP are shorter than half the sequence space beyond what is
  acknowledged, which the hypotheses of the stream theorems state. Loops that could run forever
  (cache discarding, shutdown, timers) are partial functions or relations, and that they
  end is proved from the contract of their parameters.

  \<^bold>\<open>What the proofs showed of the code.\<close> The searches of option blocks read up to two bytes beyond
  the block or the encapsulator (\<open>find_encap_overrun\<close>, \<open>update_used_len_overrun\<close>,
  \<open>fetch_end_overrun\<close>), a failing reallocation may lose an option (\<open>store_shrink_failure\<close>), and the
  header space, header length field, window scale and half-open close of TCP have corner cases that the
  hypotheses of the theorems exclude or the theorems tolerate.

  \<^bold>\<open>Not modelled.\<close> Device drivers, firmware and processor glue depend on hardware that no
  source describes and are partly assembly language. The network and link layers are arbitrary
  in the theorems about TCP, as are the applications: HTTP, iSCSI, TLS, DNS and the UDP clients.
  Settings, URIs, images, consoles, commands and the user interface are dispatch and
  input or output. Public-key cryptography and certificates, random numbers, storage fabrics, wireless
  and peer distribution, compiler support, build tools, tests, and the Go and Lua programs beside the
  boot loader are left out. Debug output and profiling are left out of every modelled function.
\<close>

end
